(* ===== verification/Prelude.thy ===== *)
theory Prelude
  imports Main "HOL-Library.Word"
begin

unbundle bit_operations_syntax

text \<open>
  Shared vocabulary of the development: the machine-level types of the Rust sources, the
  theorem collections the component theories fill, and generic lemmas on sorted lists,
  majorities, folds over index ranges and words.
\<close>

section \<open>Types of the sources\<close>

type_synonym byte = "8 word"
type_synonym bytes = "byte list"
type_synonym u32 = "32 word"
type_synonym u64 = "64 word"

section \<open>Collections\<close>

named_theorems store_laws \<open>facts of the log store used by the Raft node proofs\<close>
named_theorems frame_simps \<open>fields an operation leaves unchanged\<close>
named_theorems conf_simps \<open>facts about a settled membership\<close>

section \<open>Vec: sort followed by dedup\<close>

text \<open>\<open>sort_unstable\<close> then \<open>dedup\<close>; the latter drops adjacent duplicates only.\<close>

definition sort_dedup :: "'a::linorder list \<Rightarrow> 'a list" where
  "sort_dedup v = remdups_adj (sort v)"

lemma set_sort_dedup [simp]: "set (sort_dedup v) = set v"
  by (simp add: sort_dedup_def)

lemma sorted_remdups_adj_strict: "sorted xs \<Longrightarrow> sorted_wrt (<) (remdups_adj xs)"
proof (induction xs rule: remdups_adj.induct)
  case (3 x y xs)
  then show ?case by (auto simp: less_le)
qed simp_all

lemma sorted_sort_dedup: "sorted_wrt (<) (sort_dedup v)"
  by (simp add: sort_dedup_def sorted_remdups_adj_strict)

lemma distinct_sort_dedup [simp]: "distinct (sort_dedup v)"
  using sorted_sort_dedup strict_sorted_iff by blast

lemma sorted_le_last: "sorted xs \<Longrightarrow> x \<in> set xs \<Longrightarrow> x \<le> last xs"
  by (induction xs) auto

section \<open>Majorities of a duplicate-free voter list\<close>

lemma majority_filter_card:
  assumes "distinct V"
  shows "length (filter P V) = card {v \<in> set V. P v}"
  using assms by (metis distinct_card distinct_filter set_filter)

lemma majorities_meet:
  assumes V: "distinct V"
    and A: "length V div 2 < length (filter (\<lambda>v. v \<in> A) V)"
    and B: "length V div 2 < length (filter (\<lambda>v. v \<in> B) V)"
  shows "\<exists>v \<in> set V. v \<in> A \<and> v \<in> B"
proof (rule ccontr)
  assume "\<not> ?thesis"
  then have disj: "{v \<in> set V. v \<in> A} \<inter> {v \<in> set V. v \<in> B} = {}" by auto
  have "card {v \<in> set V. v \<in> A} + card {v \<in> set V. v \<in> B}
      = card ({v \<in> set V. v \<in> A} \<union> {v \<in> set V. v \<in> B})"
    using disj by (simp add: card_Un_disjoint)
  also have "\<dots> \<le> card (set V)" by (rule card_mono) auto
  finally have "card {v \<in> set V. v \<in> A} + card {v \<in> set V. v \<in> B} \<le> length V"
    using V by (simp add: distinct_card)
  with A B show False by (simp add: majority_filter_card [OF V])
qed

section \<open>Folds that carry an invariant\<close>

lemma fold_invariant:
  assumes "I s" and "\<And>x s. x \<in> set xs \<Longrightarrow> I s \<Longrightarrow> I (f x s)"
  shows "I (fold f xs s)"
  using assms by (induction xs arbitrary: s) auto

lemma fold_field:
  assumes "\<And>x s. g (f x s) = g s"
  shows "g (fold f xs s) = g s"
  using assms by (induction xs arbitrary: s) auto

end
