(* ===== verification/Raft_Data.thy ===== *)
theory Raft_Data
  imports Prelude
begin

text \<open>
  The data of \<open>crates/cs-consensus/src/raft.rs\<close>: terms, indices, membership
  configurations, log entries, the RPC messages, roles, reads and tuning knobs, and the
  \<open>StateMachine\<close> trait of \<open>crates/cs-consensus/src/lib.rs\<close> as a record of the operations a
  client supplies.

  \<open>Term\<close>, \<open>Index\<close>, \<open>ReplicaId\<close> and the read sequence are \<open>u64\<close> counters that start at 0
  and only ever grow by one per step; they are naturals here (the wire codec, where the
  width shows, carries the bound \<open>< 2 ^ 64\<close> explicitly).  The random generator and the
  tick counters stay at their width.
\<close>

type_synonym replica_id = nat
type_synonym raft_term = nat
type_synonym index = nat

section \<open>Membership\<close>

datatype conf_state =
    Simple "replica_id list"
  | Joint (joint_old: "replica_id list") (joint_new: "replica_id list")

definition sorted_ids :: "replica_id list \<Rightarrow> replica_id list" where
  "sorted_ids v = sort_dedup v"

fun conf_voters :: "conf_state \<Rightarrow> replica_id list" where
  "conf_voters (Simple v) = v"
| "conf_voters (Joint old new) = sorted_ids (old @ new)"

definition maj :: "replica_id set \<Rightarrow> replica_id list \<Rightarrow> bool" where
  "maj acked vs \<longleftrightarrow> length (filter (\<lambda>v. v \<in> acked) vs) > length vs div 2"

fun conf_is_quorum :: "conf_state \<Rightarrow> replica_id set \<Rightarrow> bool" where
  "conf_is_quorum (Simple v) acked = maj acked v"
| "conf_is_quorum (Joint old new) acked = (maj acked old \<and> maj acked new)"

section \<open>Log entries and messages\<close>

datatype entry_payload = Command bytes | Noop | Config conf_state

record entry =
  e_term :: raft_term
  e_index :: index
  e_payload :: entry_payload

fun is_config :: "entry_payload \<Rightarrow> bool" where
  "is_config (Config _) = True"
| "is_config _ = False"

datatype message =
    RequestVote (msg_term: raft_term) (msg_candidate: replica_id)
      (msg_last_log_index: index) (msg_last_log_term: raft_term)
  | RequestVoteResp (msg_term: raft_term) (msg_granted: bool)
  | AppendEntries (msg_term: raft_term) (msg_leader: replica_id)
      (msg_prev_log_index: index) (msg_prev_log_term: raft_term)
      (msg_entries: "entry list") (msg_leader_commit: index) (msg_read_seq: nat)
  | AppendEntriesResp (msg_term: raft_term) (msg_success: bool)
      (msg_match_index: index) (msg_conflict_index: index) (msg_read_seq: nat)
  | InstallSnapshot (msg_term: raft_term) (msg_leader: replica_id)
      (msg_last_included_index: index) (msg_last_included_term: raft_term)
      (msg_last_included_config: conf_state) (msg_data: bytes) (msg_read_seq: nat)

type_synonym out = "replica_id \<times> message"

section \<open>Roles, reads, tuning knobs\<close>

datatype role = Follower | Candidate | Leader

datatype read_result = Value bytes | NotLeader

record pending_read =
  pr_req_id :: nat
  pr_query :: bytes
  pr_read_index :: index
  pr_min_seq :: nat

record config =
  election_timeout_min :: u32
  election_timeout_max :: u32
  heartbeat_interval :: u32
  snapshot_threshold :: nat

definition default_config :: config where
  "default_config =
     \<lparr>election_timeout_min = 5, election_timeout_max = 10,
      heartbeat_interval = 1, snapshot_threshold = 0\<rparr>"

record applied =
  ap_index :: index
  ap_command :: bytes
  ap_result :: bytes

section \<open>The replicated state machine a client supplies\<close>

record 's state_machine =
  sm_apply :: "'s \<Rightarrow> bytes \<Rightarrow> 's \<times> bytes"
  sm_query :: "'s \<Rightarrow> bytes \<Rightarrow> bytes"
  sm_snapshot :: "'s \<Rightarrow> bytes"
  sm_restore :: "'s \<Rightarrow> bytes \<Rightarrow> 's"

section \<open>Quorums intersect\<close>

lemma distinct_sorted_ids [simp]: "distinct (sorted_ids v)"
  by (simp add: sorted_ids_def)

lemma set_sorted_ids [simp]: "set (sorted_ids v) = set v"
  by (simp add: sorted_ids_def)

lemma set_conf_voters: "set (conf_voters c) = (case c of Simple v \<Rightarrow> set v | Joint old new \<Rightarrow> set old \<union> set new)"
  by (cases c) simp_all

text \<open>A quorum system: any two quorums share a member, and supersets of quorums are quorums.\<close>

locale quorum_system =
  fixes is_quorum :: "'r set \<Rightarrow> bool"
    and members :: "'r set"
  assumes quorum_meet: "is_quorum A \<Longrightarrow> is_quorum B \<Longrightarrow> \<exists>r \<in> members. r \<in> A \<and> r \<in> B"
    and quorum_mono: "is_quorum A \<Longrightarrow> A \<subseteq> B \<Longrightarrow> is_quorum B"
begin

text \<open>
  Ballots that assign at most one choice to each voter elect at most one choice: the
  combinatorial core of election safety, for any quorum system.
\<close>

lemma single_choice:
  assumes fn: "\<And>v c d. (v, c) \<in> B \<Longrightarrow> (v, d) \<in> B \<Longrightarrow> c = d"
    and c: "is_quorum {v. (v, c) \<in> B}" and d: "is_quorum {v. (v, d) \<in> B}"
  shows "c = d"
  using quorum_meet [OF c d] fn by blast

lemma quorum_nonempty: "is_quorum A \<Longrightarrow> A \<noteq> {}"
  using quorum_meet by blast

end

lemma maj_mono: "maj A vs \<Longrightarrow> A \<subseteq> B \<Longrightarrow> maj B vs"
proof -
  assume A: "maj A vs" and sub: "A \<subseteq> B"
  have "length (filter (\<lambda>v. v \<in> A) vs) \<le> length (filter (\<lambda>v. v \<in> B) vs)"
    using sub by (induction vs) auto
  with A show ?thesis by (simp add: maj_def)
qed

lemma maj_meet: "distinct vs \<Longrightarrow> maj A vs \<Longrightarrow> maj B vs \<Longrightarrow> \<exists>v \<in> set vs. v \<in> A \<and> v \<in> B"
  unfolding maj_def by (rule majorities_meet) auto

text \<open>
  The voter lists of the code are kept sorted and duplicate free (\<open>ConfState::sorted\<close>); a
  settled configuration is then a quorum system, and so is a joint one, whose quorums meet
  in the old half and in the new half.
\<close>

fun conf_distinct :: "conf_state \<Rightarrow> bool" where
  "conf_distinct (Simple v) = distinct v"
| "conf_distinct (Joint old new) = (distinct old \<and> distinct new)"

lemma conf_is_quorum_mono: "conf_is_quorum c A \<Longrightarrow> A \<subseteq> B \<Longrightarrow> conf_is_quorum c B"
  by (cases c) (auto intro: maj_mono)

lemma conf_is_quorum_meet:
  "conf_distinct c \<Longrightarrow> conf_is_quorum c A \<Longrightarrow> conf_is_quorum c B \<Longrightarrow>
     \<exists>v \<in> set (conf_voters c). v \<in> A \<and> v \<in> B"
proof (cases c)
  case (Simple v)
  then show "conf_distinct c \<Longrightarrow> conf_is_quorum c A \<Longrightarrow> conf_is_quorum c B \<Longrightarrow> ?thesis"
    using maj_meet [of v A B] by simp
next
  case (Joint old new)
  then show "conf_distinct c \<Longrightarrow> conf_is_quorum c A \<Longrightarrow> conf_is_quorum c B \<Longrightarrow> ?thesis"
    using maj_meet [of old A B] by auto
qed

interpretation simple_conf: quorum_system
  "conf_is_quorum (Simple (sorted_ids vs))" "set vs" for vs
proof
  fix A B assume "conf_is_quorum (Simple (sorted_ids vs)) A" "conf_is_quorum (Simple (sorted_ids vs)) B"
  then show "\<exists>r \<in> set vs. r \<in> A \<and> r \<in> B"
    using conf_is_quorum_meet [of "Simple (sorted_ids vs)" A B] by simp
qed (rule conf_is_quorum_mono)

interpretation joint_conf: quorum_system
  "conf_is_quorum (Joint (sorted_ids vs) (sorted_ids ws))" "set vs \<union> set ws" for vs ws
proof
  fix A B
  assume "conf_is_quorum (Joint (sorted_ids vs) (sorted_ids ws)) A"
    "conf_is_quorum (Joint (sorted_ids vs) (sorted_ids ws)) B"
  then show "\<exists>r \<in> set vs \<union> set ws. r \<in> A \<and> r \<in> B"
    using conf_is_quorum_meet [of "Joint (sorted_ids vs) (sorted_ids ws)" A B] by simp
qed (rule conf_is_quorum_mono)

end
