(* ===== verification/Raft_Store.thy ===== *)
theory Raft_Store
  imports Raft_Data
begin

text \<open>
  The persistence seam of the Raft core, \<open>crates/cs-consensus/src/store.rs\<close>: the
  \<open>RaftLogStore\<close> trait as the locale \<open>raft_log_store\<close> (operations and the laws its
  documentation promises, stated over an abstract view of the store) and the in-memory
  \<open>MemLogStore\<close>, which is shown to satisfy them.
\<close>

section \<open>Hard state and snapshots\<close>

record hard_state =
  hs_term :: raft_term
  hs_voted_for :: "replica_id option"
  hs_commit_index :: index

definition default_hard_state :: hard_state where
  "default_hard_state = \<lparr>hs_term = 0, hs_voted_for = None, hs_commit_index = 0\<rparr>"

record snapshot_meta =
  last_included_index :: index
  last_included_term :: raft_term
  snap_data :: bytes

section \<open>The in-memory store\<close>

record mem_log_store =
  log :: "entry list"
  st_base_index :: index
  st_base_term :: raft_term
  st_snapshot_data :: bytes
  st_hard_state :: hard_state
  has_snapshot :: bool

definition mem_new :: mem_log_store where
  "mem_new = \<lparr>log = [], st_base_index = 0, st_base_term = 0, st_snapshot_data = [],
              st_hard_state = default_hard_state, has_snapshot = False\<rparr>"

definition slot :: "mem_log_store \<Rightarrow> index \<Rightarrow> nat option" where
  "slot s idx =
     (if idx \<le> st_base_index s then None
      else let off = idx - st_base_index s - 1
           in if off < length (log s) then Some off else None)"

definition append_entries :: "mem_log_store \<Rightarrow> entry list \<Rightarrow> mem_log_store" where
  "append_entries s es = s\<lparr>log := log s @ es\<rparr>"

definition store_entries :: "mem_log_store \<Rightarrow> index \<Rightarrow> index \<Rightarrow> entry list" where
  "store_entries s lo hi =
     filter (\<lambda>e. e_index e \<ge> lo \<and> e_index e \<le> hi \<and> e_index e > st_base_index s) (log s)"

definition entry_term :: "mem_log_store \<Rightarrow> index \<Rightarrow> raft_term option" where
  "entry_term s idx = map_option (\<lambda>off. e_term (log s ! off)) (slot s idx)"

definition store_entry :: "mem_log_store \<Rightarrow> index \<Rightarrow> entry option" where
  "store_entry s idx = map_option (\<lambda>off. log s ! off) (slot s idx)"

definition last_index :: "mem_log_store \<Rightarrow> index" where
  "last_index s = (if log s = [] then st_base_index s else e_index (last (log s)))"

definition last_term :: "mem_log_store \<Rightarrow> raft_term" where
  "last_term s = (if log s = [] then st_base_term s else e_term (last (log s)))"

definition truncate_suffix :: "mem_log_store \<Rightarrow> index \<Rightarrow> mem_log_store" where
  "truncate_suffix s from_idx =
     (if from_idx \<le> st_base_index s then s\<lparr>log := []\<rparr>
      else let keep = from_idx - st_base_index s - 1
           in if keep < length (log s) then s\<lparr>log := take keep (log s)\<rparr> else s)"

definition save_hard_state :: "mem_log_store \<Rightarrow> hard_state \<Rightarrow> mem_log_store" where
  "save_hard_state s hs = s\<lparr>st_hard_state := hs\<rparr>"

definition load_hard_state :: "mem_log_store \<Rightarrow> hard_state" where
  "load_hard_state s = st_hard_state s"

definition save_snapshot :: "mem_log_store \<Rightarrow> snapshot_meta \<Rightarrow> mem_log_store" where
  "save_snapshot s meta =
     s\<lparr>log := filter (\<lambda>e. e_index e > last_included_index meta) (log s),
       st_base_index := last_included_index meta,
       st_base_term := last_included_term meta,
       st_snapshot_data := snap_data meta,
       has_snapshot := True\<rparr>"

definition load_snapshot :: "mem_log_store \<Rightarrow> snapshot_meta option" where
  "load_snapshot s =
     (if has_snapshot s
      then Some \<lparr>last_included_index = st_base_index s, last_included_term = st_base_term s,
                 snap_data = st_snapshot_data s\<rparr>
      else None)"

definition base_index :: "mem_log_store \<Rightarrow> index" where
  "base_index s = st_base_index s"

definition base_term :: "mem_log_store \<Rightarrow> raft_term" where
  "base_term s = st_base_term s"

definition snapshot_data :: "mem_log_store \<Rightarrow> bytes" where
  "snapshot_data s = st_snapshot_data s"

section \<open>Contiguous runs of entries\<close>

text \<open>
  The store keeps the live suffix: consecutive indices from \<open>base + 1\<close> on.  The core only
  ever appends at the tail, so this is an invariant of every store it builds.
\<close>

fun contiguous :: "index \<Rightarrow> entry list \<Rightarrow> bool" where
  "contiguous b [] = True"
| "contiguous b (e # es) = (e_index e = Suc b \<and> contiguous (Suc b) es)"

lemma contiguous_append [simp]:
  "contiguous b (xs @ ys) \<longleftrightarrow> contiguous b xs \<and> contiguous (b + length xs) ys"
  by (induction xs arbitrary: b) auto

lemma contiguous_nth: "contiguous b es \<Longrightarrow> i < length es \<Longrightarrow> e_index (es ! i) = b + i + 1"
  by (induction es arbitrary: b i) (auto simp: nth_Cons split: nat.splits)

lemma contiguous_index_iff:
  assumes "contiguous b es"
  shows "e \<in> set es \<longleftrightarrow> b < e_index e \<and> e_index e \<le> b + length es \<and> es ! (e_index e - b - 1) = e"
proof
  assume "e \<in> set es"
  then obtain i where "i < length es" "es ! i = e" by (auto simp: in_set_conv_nth)
  with contiguous_nth [OF assms, of i]
  show "b < e_index e \<and> e_index e \<le> b + length es \<and> es ! (e_index e - b - 1) = e" by auto
next
  assume *: "b < e_index e \<and> e_index e \<le> b + length es \<and> es ! (e_index e - b - 1) = e"
  then have "e_index e - b - 1 < length es" by auto
  with * show "e \<in> set es" by (metis nth_mem)
qed

lemma contiguous_filter_gt:
  "contiguous b es \<Longrightarrow> filter (\<lambda>e. e_index e > k) es = drop (k - b) es"
proof (induction es arbitrary: b)
  case (Cons e es)
  then have ix: "e_index e = Suc b" and c: "contiguous (Suc b) es" by auto
  show ?case
  proof (cases "k \<le> b")
    case True
    then show ?thesis using Cons.IH [OF c] ix by simp
  next
    case False
    then have "k - b = Suc (k - Suc b)" by simp
    then show ?thesis using Cons.IH [OF c] ix False by simp
  qed
qed simp

lemma contiguous_drop:
  "contiguous b es \<Longrightarrow> n \<le> length es \<Longrightarrow> contiguous (b + n) (drop n es)"
  using contiguous_append [of b "take n es" "drop n es"] by simp

lemma contiguous_take: "contiguous b es \<Longrightarrow> contiguous b (take n es)"
  using contiguous_append [of b "take n es" "drop n es"] by simp

lemma contiguous_filter_range:
  assumes "contiguous b es"
  shows "filter (\<lambda>e. e_index e \<ge> lo \<and> e_index e \<le> hi \<and> e_index e > b) es
       = drop (lo - Suc b) (take (hi - b) es)"
  using assms
proof (induction es arbitrary: b)
  case (Cons e es)
  then have ix: "e_index e = Suc b" and c: "contiguous (Suc b) es" by auto
  have strip: "filter (\<lambda>e. e_index e \<ge> lo \<and> e_index e \<le> hi \<and> e_index e > b) es
      = filter (\<lambda>e. e_index e \<ge> lo \<and> e_index e \<le> hi \<and> e_index e > Suc b) es"
    using contiguous_index_iff [OF c] by (intro filter_cong) auto
  consider "hi \<le> b" | "b < hi" "lo \<le> Suc b" | "b < hi" "Suc b < lo" by linarith
  then show ?case
  proof cases
    case 1
    then show ?thesis using ix Cons.IH [OF c] by (simp add: strip)
  next
    case 2
    then have "hi - b = Suc (hi - Suc b)" by simp
    then show ?thesis using ix Cons.IH [OF c] 2 by (simp add: strip)
  next
    case 3
    then have "hi - b = Suc (hi - Suc b)" "lo - Suc b = Suc (lo - Suc (Suc b))" by simp_all
    then show ?thesis using ix Cons.IH [OF c] 3 by (simp add: strip)
  qed
qed simp

section \<open>The contract of a log store\<close>

text \<open>
  The abstract view of a store: the snapshot base (index, term, blob), the live entries as
  a list that starts right after the base, and the hard state.  \<open>invar\<close> is what the store
  maintains between calls.
\<close>

locale raft_log_store =
  fixes invar :: "'st \<Rightarrow> bool"
    and live :: "'st \<Rightarrow> entry list"
    and base_ix :: "'st \<Rightarrow> index"
    and base_tm :: "'st \<Rightarrow> raft_term"
    and snap :: "'st \<Rightarrow> bytes"
    and hard :: "'st \<Rightarrow> hard_state"
    and append :: "'st \<Rightarrow> entry list \<Rightarrow> 'st"
    and entries :: "'st \<Rightarrow> index \<Rightarrow> index \<Rightarrow> entry list"
    and term_of :: "'st \<Rightarrow> index \<Rightarrow> raft_term option"
    and entry_of :: "'st \<Rightarrow> index \<Rightarrow> entry option"
    and last_ix :: "'st \<Rightarrow> index"
    and last_tm :: "'st \<Rightarrow> raft_term"
    and truncate :: "'st \<Rightarrow> index \<Rightarrow> 'st"
    and save_hs :: "'st \<Rightarrow> hard_state \<Rightarrow> 'st"
    and save_snap :: "'st \<Rightarrow> snapshot_meta \<Rightarrow> 'st"
  assumes live_contiguous: "invar s \<Longrightarrow> contiguous (base_ix s) (live s)"
    and append_invar: "invar s \<Longrightarrow> contiguous (last_ix s) es \<Longrightarrow> invar (append s es)"
    and append_live: "live (append s es) = live s @ es"
    and append_frame: "base_ix (append s es) = base_ix s" "base_tm (append s es) = base_tm s"
      "snap (append s es) = snap s" "hard (append s es) = hard s"
    and entries_range: "invar s \<Longrightarrow>
      entries s lo hi = drop (lo - Suc (base_ix s)) (take (hi - base_ix s) (live s))"
    and entry_of_live: "entry_of s i =
      (if base_ix s < i \<and> i \<le> base_ix s + length (live s)
       then Some (live s ! (i - base_ix s - 1)) else None)"
    and term_of_entry: "term_of s i = map_option e_term (entry_of s i)"
    and last_ix_live: "invar s \<Longrightarrow> last_ix s = base_ix s + length (live s)"
    and last_tm_live: "last_tm s = (if live s = [] then base_tm s else e_term (last (live s)))"
    and truncate_invar: "invar s \<Longrightarrow> invar (truncate s i)"
    and truncate_live: "live (truncate s i) = take (i - Suc (base_ix s)) (live s)"
    and truncate_frame: "base_ix (truncate s i) = base_ix s" "base_tm (truncate s i) = base_tm s"
      "snap (truncate s i) = snap s" "hard (truncate s i) = hard s"
    and save_hs_hard: "hard (save_hs s h) = h"
    and save_hs_invar: "invar s \<Longrightarrow> invar (save_hs s h)"
    and save_hs_frame: "live (save_hs s h) = live s" "base_ix (save_hs s h) = base_ix s"
      "base_tm (save_hs s h) = base_tm s" "snap (save_hs s h) = snap s"
    and save_snap_base: "base_ix (save_snap s m) = last_included_index m"
      "base_tm (save_snap s m) = last_included_term m" "snap (save_snap s m) = snap_data m"
      "hard (save_snap s m) = hard s"
    and save_snap_live: "invar s \<Longrightarrow>
      live (save_snap s m) = drop (last_included_index m - base_ix s) (live s)"
    and save_snap_invar: "invar s \<Longrightarrow> base_ix s \<le> last_included_index m \<Longrightarrow> invar (save_snap s m)"
begin

text \<open>What was appended at the tail can be read back, and earlier entries are untouched.\<close>

lemma entry_of_append_old:
  "invar s \<Longrightarrow> i \<le> last_ix s \<Longrightarrow> entry_of (append s es) i = entry_of s i"
  by (auto simp: entry_of_live append_live append_frame last_ix_live nth_append)

lemma entry_of_append_new:
  assumes "invar s" "contiguous (last_ix s) es" "e \<in> set es"
  shows "entry_of (append s es) (e_index e) = Some e"
proof -
  from contiguous_index_iff [OF assms(2)] assms(3)
  have *: "last_ix s < e_index e" "e_index e \<le> last_ix s + length es"
    "es ! (e_index e - last_ix s - 1) = e" by auto
  have "e_index e - base_ix s - 1 - length (live s) = e_index e - last_ix s - 1"
    using * by (simp add: last_ix_live [OF assms(1)])
  then show ?thesis using *
    by (auto simp: entry_of_live append_live append_frame last_ix_live [OF assms(1)] nth_append)
qed

lemma last_ix_append:
  "invar s \<Longrightarrow> contiguous (last_ix s) es \<Longrightarrow> last_ix (append s es) = last_ix s + length es"
  using append_invar last_ix_live by (simp add: append_live append_frame)

lemma last_tm_append:
  "last_tm (append s es) = (if es = [] then last_tm s else e_term (last es))"
  by (simp add: last_tm_live append_live append_frame)

lemma last_ix_truncate:
  "invar s \<Longrightarrow> last_ix (truncate s i) = min (max (base_ix s) (i - 1)) (last_ix s)"
  using truncate_invar [of s i] by (auto simp: last_ix_live truncate_live truncate_frame min_def)

lemma entry_of_truncate:
  "entry_of (truncate s i) k = (if k < i then entry_of s k else None)"
  by (auto simp: entry_of_live truncate_live truncate_frame)

lemma entry_of_append:
  assumes "invar s" "contiguous (last_ix s) es"
  shows "entry_of (append s es) i =
    (if last_ix s < i \<and> i \<le> last_ix s + length es then Some (es ! (i - last_ix s - 1)) else entry_of s i)"
  using assms by (auto simp: entry_of_live append_live append_frame last_ix_live nth_append)

text \<open>Truncation followed by an append replaces the tail from the given index on.\<close>

lemma truncate_append:
  assumes "invar s" "base_ix s < i" "i \<le> Suc (last_ix s)" "e_index e = i"
  shows "invar (append (truncate s i) [e])"
    and "live (append (truncate s i) [e]) = take (i - Suc (base_ix s)) (live s) @ [e]"
    and "last_ix (append (truncate s i) [e]) = i"
proof -
  have li: "last_ix (truncate s i) = i - 1"
    using assms by (auto simp: last_ix_truncate [OF assms(1)])
  show inv: "invar (append (truncate s i) [e])"
    using assms li by (intro append_invar truncate_invar) auto
  show lv: "live (append (truncate s i) [e]) = take (i - Suc (base_ix s)) (live s) @ [e]"
    by (simp add: append_live truncate_live)
  show "last_ix (append (truncate s i) [e]) = i"
    using assms inv by (simp add: last_ix_live lv append_frame truncate_frame)
qed

text \<open>Compaction keeps every entry above the new base and hides the others.\<close>

lemma entry_of_save_snap:
  assumes "invar s" "base_ix s \<le> last_included_index m"
  shows "entry_of (save_snap s m) i =
    (if last_included_index m < i then entry_of s i else None)"
  using assms by (auto simp: entry_of_live save_snap_base save_snap_live)

lemma last_ix_save_snap:
  assumes "invar s" "base_ix s \<le> last_included_index m"
  shows "last_ix (save_snap s m) = max (last_included_index m) (last_ix s)"
  using assms save_snap_invar [OF assms]
  by (simp add: last_ix_live save_snap_base save_snap_live max_def)

end

section \<open>The in-memory store satisfies the contract\<close>

definition mem_invar :: "mem_log_store \<Rightarrow> bool" where
  "mem_invar s \<longleftrightarrow> contiguous (st_base_index s) (log s) \<and> (st_base_index s = 0 \<or> has_snapshot s)"

lemma mem_last_index: "mem_invar s \<Longrightarrow> last_index s = st_base_index s + length (log s)"
proof (cases "log s" rule: rev_cases)
  case (snoc es e)
  then show "mem_invar s \<Longrightarrow> ?thesis" by (auto simp: mem_invar_def last_index_def)
qed (simp add: last_index_def)

lemma mem_store_entry:
  "store_entry s i =
    (if st_base_index s < i \<and> i \<le> st_base_index s + length (log s)
     then Some (log s ! (i - st_base_index s - 1)) else None)"
  by (auto simp: store_entry_def slot_def Let_def)

interpretation mem: raft_log_store
  mem_invar log base_index base_term snapshot_data load_hard_state
  append_entries store_entries entry_term store_entry last_index last_term
  truncate_suffix save_hard_state save_snapshot
proof (unfold_locales, goal_cases)
  case (2 s es)
  then show ?case using mem_last_index [of s] by (simp add: mem_invar_def append_entries_def)
next
  case (8 s lo hi)
  then show ?case
    by (simp add: mem_invar_def store_entries_def base_index_def contiguous_filter_range)
next
  case (10 s i)
  then show ?case by (simp add: entry_term_def store_entry_def option.map_comp o_def)
next
  case (11 s)
  then show ?case by (simp add: mem_last_index base_index_def)
next
  case (13 s i)
  then show ?case by (auto simp: mem_invar_def truncate_suffix_def Let_def contiguous_take)
next
  case (14 s i)
  then show ?case by (auto simp: truncate_suffix_def Let_def base_index_def)
next
  case (29 s m)
  then show ?case by (simp add: mem_invar_def save_snapshot_def contiguous_filter_gt base_index_def)
next
  case (30 s m)
  then show ?case
    using contiguous_drop [of "st_base_index s" "log s" "last_included_index m - st_base_index s"]
    by (cases "last_included_index m \<le> st_base_index s + length (log s)")
      (auto simp: mem_invar_def save_snapshot_def contiguous_filter_gt [of "st_base_index s"] base_index_def)
qed (auto simp: mem_invar_def append_entries_def base_index_def base_term_def snapshot_data_def
       load_hard_state_def mem_store_entry last_term_def truncate_suffix_def save_hard_state_def
       save_snapshot_def Let_def)

lemmas mem_laws [store_laws] =
  mem.append_frame mem.append_live mem.truncate_frame mem.truncate_live
  mem.save_hs_frame mem.save_hs_hard mem.save_snap_base mem.append_invar mem.truncate_invar
  mem.save_hs_invar mem.save_snap_invar

end
