(* ===== verification/Raft_Node.thy ===== *)
theory Raft_Node
  imports Raft_Store
begin

text \<open>
  One Raft replica, \<open>RaftNode\<close> of \<open>crates/cs-consensus/src/raft.rs\<close>, over its default
  log store \<open>MemLogStore\<close>: the node state as a record and one definition per method, in the
  order of the file up to what a definition needs first.  A method \<open>&mut self \<rightarrow> Vec<Out>\<close>
  becomes a function from the node to the new node and the outbound messages.  The client's
  state machine is the record \<open>SM\<close> of its operations.

  \<open>u32\<close> and \<open>u64\<close> timer arithmetic wraps as in a release build.  The two places where the
  code panics (an empty timeout span in \<open>reset_election_timer\<close>, the \<open>expect\<close> in
  \<open>compact\<close>) set the sticky flag \<open>panicked\<close>.
\<close>

section \<open>State\<close>

record 's raft_node =
  rn_id :: replica_id
  config :: conf_state
  base_config :: conf_state
  cfg :: config
  current_term :: raft_term
  voted_for :: "replica_id option"
  store :: mem_log_store
  role :: role
  leader_id :: "replica_id option"
  commit_index :: index
  last_applied :: index
  applied_outbox :: "applied list"
  votes :: "replica_id set"
  next_index :: "replica_id \<rightharpoonup> index"
  match_index :: "replica_id \<rightharpoonup> index"
  read_seq :: nat
  acked_seq :: "replica_id \<rightharpoonup> nat"
  pending_reads :: "pending_read list"
  ready_reads :: "(nat \<times> read_result) list"
  election_elapsed :: u32
  heartbeat_elapsed :: u32
  election_timeout :: u32
  rng :: u64
  sm :: 's
  panicked :: bool

section \<open>Timers and the xorshift generator\<close>

definition next_rand :: "'s raft_node \<Rightarrow> 's raft_node \<times> u64" where
  "next_rand n =
     (let x0 = rng n;
          x1 = x0 XOR push_bit 13 x0;
          x2 = x1 XOR drop_bit 7 x1;
          x3 = x2 XOR push_bit 17 x2
      in (n\<lparr>rng := x3\<rparr>, x3))"

definition reset_election_timer :: "'s raft_node \<Rightarrow> 's raft_node" where
  "reset_election_timer n =
     (let span = (ucast (election_timeout_max (cfg n) - election_timeout_min (cfg n) + 1) :: u64);
          (n1, x) = next_rand n
      in if span = 0 then n1\<lparr>panicked := True\<rparr>
         else let r = (ucast (x mod span) :: u32)
              in n1\<lparr>election_timeout := election_timeout_min (cfg n) + r,
                    election_elapsed := 0\<rparr>)"

section \<open>Construction\<close>

definition new_with_store ::
  "replica_id \<Rightarrow> replica_id list \<Rightarrow> config \<Rightarrow> 's \<Rightarrow> mem_log_store \<Rightarrow> 's raft_node" where
  "new_with_store i voters c s st =
     (let initial = Simple (sorted_ids voters)
      in reset_election_timer
        \<lparr>rn_id = i, config = initial, base_config = initial, cfg = c,
         current_term = 0, voted_for = None, store = st, role = Follower, leader_id = None,
         commit_index = 0, last_applied = 0, applied_outbox = [], votes = {},
         next_index = Map.empty, match_index = Map.empty, read_seq = 0,
         acked_seq = Map.empty, pending_reads = [], ready_reads = [],
         election_elapsed = 0, heartbeat_elapsed = 0, election_timeout = 0,
         rng = (of_nat i * 0x9E3779B97F4A7C15) OR 1, sm = s, panicked = False\<rparr>)"

definition raft_new :: "replica_id \<Rightarrow> replica_id list \<Rightarrow> config \<Rightarrow> 's \<Rightarrow> 's raft_node" where
  "raft_new i voters c s = new_with_store i voters c s mem_new"

section \<open>Log helpers\<close>

definition live_entries :: "'s raft_node \<Rightarrow> entry list" where
  "live_entries n =
     (let base = base_index (store n) in store_entries (store n) (base + 1) (last_index (store n)))"

definition last_log_index :: "'s raft_node \<Rightarrow> index" where
  "last_log_index n = last_index (store n)"

definition last_log_term :: "'s raft_node \<Rightarrow> raft_term" where
  "last_log_term n = last_term (store n)"

definition term_at :: "'s raft_node \<Rightarrow> index \<Rightarrow> raft_term option" where
  "term_at n i =
     (if i = 0 then Some 0
      else let base = base_index (store n)
           in if i = base then Some (base_term (store n))
              else if i < base then None
              else entry_term (store n) i)"

definition entry_at :: "'s raft_node \<Rightarrow> index \<Rightarrow> entry option" where
  "entry_at n i = (if i \<le> base_index (store n) then None else store_entry (store n) i)"

definition peers :: "'s raft_node \<Rightarrow> replica_id list" where
  "peers n = filter (\<lambda>v. v \<noteq> rn_id n) (conf_voters (config n))"

definition is_quorum :: "'s raft_node \<Rightarrow> replica_id set \<Rightarrow> bool" where
  "is_quorum n acked = conf_is_quorum (config n) acked"

section \<open>Membership tracking\<close>

definition last_config_index :: "'s raft_node \<Rightarrow> index option" where
  "last_config_index n =
     map_option e_index (find (\<lambda>e. is_config (e_payload e)) (rev (live_entries n)))"

fun payload_config :: "entry_payload \<Rightarrow> conf_state option" where
  "payload_config (Config c) = Some c"
| "payload_config _ = None"

definition config_at :: "'s raft_node \<Rightarrow> index \<Rightarrow> conf_state" where
  "config_at n i =
     (case find (\<lambda>e. e_index e \<le> i \<and> is_config (e_payload e)) (rev (live_entries n)) of
        Some e \<Rightarrow> the (payload_config (e_payload e))
      | None \<Rightarrow> base_config n)"

definition recompute_config :: "'s raft_node \<Rightarrow> 's raft_node" where
  "recompute_config n =
     n\<lparr>config := (case find (\<lambda>e. is_config (e_payload e)) (rev (live_entries n)) of
                   Some e \<Rightarrow> the (payload_config (e_payload e))
                 | None \<Rightarrow> base_config n)\<rparr>"

section \<open>Hard-state persistence\<close>

definition persist_hard_state :: "'s raft_node \<Rightarrow> 's raft_node" where
  "persist_hard_state n =
     n\<lparr>store := save_hard_state (store n)
         \<lparr>hs_term = current_term n, hs_voted_for = voted_for n,
          hs_commit_index = commit_index n\<rparr>\<rparr>"

section \<open>Linearizable reads\<close>

definition confirmed_read_seq :: "'s raft_node \<Rightarrow> nat" where
  "confirmed_read_seq n =
     (let voters = conf_voters (config n);
          eff = (\<lambda>v. if v = rn_id n then read_seq n
                     else case acked_seq n v of Some s \<Rightarrow> s | None \<Rightarrow> 0);
          cands = remdups_adj (rev (sort (map eff voters)))
      in case find (\<lambda>s. conf_is_quorum (config n) (set (filter (\<lambda>v. eff v \<ge> s) voters))) cands of
           Some s \<Rightarrow> s
         | None \<Rightarrow> 0)"

definition serve_reads :: "'s state_machine \<Rightarrow> 's raft_node \<Rightarrow> 's raft_node" where
  "serve_reads SM n =
     (if role n \<noteq> Leader then n
      else let confirmed = confirmed_read_seq n;
               ok = (\<lambda>pr. pr_min_seq pr \<le> confirmed \<and> pr_read_index pr \<le> last_applied n)
           in n\<lparr>ready_reads := ready_reads n @
                   map (\<lambda>pr. (pr_req_id pr, Value (sm_query SM (sm n) (pr_query pr))))
                     (filter ok (pending_reads n)),
                 pending_reads := filter (\<lambda>pr. \<not> ok pr) (pending_reads n)\<rparr>)"

section \<open>Compaction and apply\<close>

definition compact :: "'s state_machine \<Rightarrow> 's raft_node \<Rightarrow> 's raft_node" where
  "compact SM n =
     (if last_applied n \<le> base_index (store n) then n
      else let new_base = last_applied n
           in case term_at n new_base of
                None \<Rightarrow> n\<lparr>panicked := True\<rparr>
              | Some new_base_term \<Rightarrow>
                  let new_base_config = config_at n new_base;
                      data = sm_snapshot SM (sm n)
                  in recompute_config
                       (n\<lparr>store := save_snapshot (store n)
                            \<lparr>last_included_index = new_base, last_included_term = new_base_term,
                             snap_data = data\<rparr>,
                          base_config := new_base_config\<rparr>))"

definition maybe_compact :: "'s state_machine \<Rightarrow> 's raft_node \<Rightarrow> 's raft_node" where
  "maybe_compact SM n =
     (let thr = snapshot_threshold (cfg n)
      in if thr > 0 \<and> last_applied n - base_index (store n) \<ge> thr then compact SM n else n)"

text \<open>The body of the \<open>while last_applied < commit_index\<close> loop, for the index it applies.\<close>

definition apply_index :: "'s state_machine \<Rightarrow> index \<Rightarrow> 's raft_node \<Rightarrow> 's raft_node" where
  "apply_index SM idx n =
     (let n1 = n\<lparr>last_applied := idx\<rparr>
      in case entry_at n1 idx of
           None \<Rightarrow> n1
         | Some en \<Rightarrow>
             (case e_payload en of
                Command cmd \<Rightarrow>
                  let (s', result) = sm_apply SM (sm n1) cmd
                  in n1\<lparr>sm := s',
                        applied_outbox := applied_outbox n1 @
                          [\<lparr>ap_index = idx, ap_command = cmd, ap_result = result\<rparr>]\<rparr>
              | _ \<Rightarrow> n1\<lparr>applied_outbox := applied_outbox n1 @
                          [\<lparr>ap_index = idx, ap_command = [], ap_result = []\<rparr>]\<rparr>))"

definition apply_committed :: "'s state_machine \<Rightarrow> 's raft_node \<Rightarrow> 's raft_node" where
  "apply_committed SM n =
     maybe_compact SM (serve_reads SM
       (fold (apply_index SM) [Suc (last_applied n)..<Suc (commit_index n)] n))"

definition restore_from :: "'s state_machine \<Rightarrow> replica_id \<Rightarrow> replica_id list \<Rightarrow> config \<Rightarrow>
    's \<Rightarrow> mem_log_store \<Rightarrow> 's raft_node" where
  "restore_from SM i voters c s st =
     (let n0 = new_with_store i voters c s st;
          hs = load_hard_state (store n0);
          n1 = n0\<lparr>current_term := hs_term hs, voted_for := hs_voted_for hs\<rparr>;
          n2 = (case load_snapshot (store n1) of
                  Some snap \<Rightarrow> n1\<lparr>sm := sm_restore SM (sm n1) (snap_data snap),
                                  last_applied := last_included_index snap\<rparr>
                | None \<Rightarrow> n1);
          n3 = n2\<lparr>base_config := config_at n2 (base_index (store n2))\<rparr>;
          n4 = n3\<lparr>commit_index := max (hs_commit_index hs) (base_index (store n3)),
                  last_applied := max (last_applied n3) (base_index (store n3))\<rparr>
      in apply_committed SM (recompute_config n4))"

section \<open>Appending and replicating\<close>

definition append_local :: "entry_payload \<Rightarrow> 's raft_node \<Rightarrow> 's raft_node \<times> index" where
  "append_local payload n =
     (let idx = last_log_index n + 1;
          n1 = n\<lparr>store := append_entries (store n)
                   [\<lparr>e_term = current_term n, e_index = idx, e_payload = payload\<rparr>]\<rparr>;
          n2 = (case match_index n1 (rn_id n1) of
                  Some _ \<Rightarrow> n1\<lparr>match_index := (match_index n1)(rn_id n1 \<mapsto> idx)\<rparr>
                | None \<Rightarrow> n1);
          n3 = (if is_config payload then recompute_config n2 else n2)
      in (n3, idx))"

definition append_for :: "'s raft_node \<Rightarrow> replica_id \<Rightarrow> message" where
  "append_for n peer =
     (let next = (case next_index n peer of Some i \<Rightarrow> i | None \<Rightarrow> 1)
      in if next \<le> base_index (store n)
         then InstallSnapshot (current_term n) (rn_id n) (base_index (store n))
                (base_term (store n)) (base_config n) (snapshot_data (store n)) (read_seq n)
         else let prev = next - 1;
                  prev_term = (case term_at n prev of Some t \<Rightarrow> t | None \<Rightarrow> 0);
                  es = store_entries (store n) next (last_index (store n))
              in AppendEntries (current_term n) (rn_id n) prev prev_term es
                   (commit_index n) (read_seq n))"

definition broadcast_append :: "'s raft_node \<Rightarrow> 's raft_node \<times> out list" where
  "broadcast_append n =
     (let n1 = n\<lparr>read_seq := read_seq n + 1\<rparr>
      in (n1, map (\<lambda>p. (p, append_for n1 p)) (peers n1)))"

section \<open>Commit\<close>

definition finalize_joint_if_committed :: "'s raft_node \<Rightarrow> 's raft_node" where
  "finalize_joint_if_committed n =
     (if role n \<noteq> Leader then n
      else case config n of
             Simple _ \<Rightarrow> n
           | Joint old new \<Rightarrow>
               (case last_config_index n of
                  Some joint_idx \<Rightarrow>
                    if commit_index n \<ge> joint_idx
                    then fst (append_local (Config (Simple new)) n) else n
                | None \<Rightarrow> n))"

text \<open>The peers (and the leader itself) known to hold index \<open>i\<close>.\<close>

definition acked_at :: "'s raft_node \<Rightarrow> index \<Rightarrow> replica_id set" where
  "acked_at n i = insert (rn_id n)
     (set (filter (\<lambda>p. (case match_index n p of Some m \<Rightarrow> m | None \<Rightarrow> 0) \<ge> i) (peers n)))"

definition commit_step :: "index \<Rightarrow> 's raft_node \<times> bool \<Rightarrow> 's raft_node \<times> bool" where
  "commit_step i st =
     (case st of (n, advanced) \<Rightarrow>
        if term_at n i \<noteq> Some (current_term n) then (n, advanced)
        else if is_quorum n (acked_at n i) then (n\<lparr>commit_index := i\<rparr>, True)
        else (n, advanced))"

definition maybe_advance_commit :: "'s state_machine \<Rightarrow> 's raft_node \<Rightarrow> 's raft_node" where
  "maybe_advance_commit SM n =
     (if role n \<noteq> Leader then n
      else case fold commit_step [Suc (commit_index n)..<Suc (last_log_index n)] (n, False) of
             (n1, advanced) \<Rightarrow>
               if advanced
               then finalize_joint_if_committed (apply_committed SM (persist_hard_state n1))
               else n1)"

section \<open>Role transitions\<close>

definition become_follower ::
  "raft_term \<Rightarrow> replica_id option \<Rightarrow> 's raft_node \<Rightarrow> 's raft_node" where
  "become_follower trm leader n =
     (let term_changed = (trm \<noteq> current_term n);
          n1 = n\<lparr>role := Follower, current_term := trm, leader_id := leader\<rparr>;
          n2 = (if term_changed then n1\<lparr>voted_for := None\<rparr> else n1);
          n3 = n2\<lparr>votes := {}, pending_reads := [],
                  ready_reads := ready_reads n2 @
                    map (\<lambda>pr. (pr_req_id pr, NotLeader)) (pending_reads n2),
                  acked_seq := Map.empty\<rparr>;
          n4 = reset_election_timer n3
      in if term_changed then persist_hard_state n4 else n4)"

definition become_leader :: "'s state_machine \<Rightarrow> 's raft_node \<Rightarrow> 's raft_node \<times> out list" where
  "become_leader SM n =
     (let n1 = n\<lparr>role := Leader, leader_id := Some (rn_id n), heartbeat_elapsed := 0\<rparr>;
          next = last_log_index n1 + 1;
          n2 = n1\<lparr>next_index := map_of (map (\<lambda>p. (p, next)) (peers n1)),
                  match_index := map_of (map (\<lambda>p. (p, 0)) (peers n1))\<rparr>;
          n3 = fst (append_local Noop n2);
          n4 = maybe_advance_commit SM n3
      in broadcast_append n4)"

definition start_election :: "'s state_machine \<Rightarrow> 's raft_node \<Rightarrow> 's raft_node \<times> out list" where
  "start_election SM n =
     (let n1 = n\<lparr>role := Candidate, current_term := current_term n + 1,
                 voted_for := Some (rn_id n), leader_id := None, votes := {rn_id n}\<rparr>;
          n2 = persist_hard_state (reset_election_timer n1)
      in if is_quorum n2 (votes n2) then become_leader SM n2
         else (n2, map (\<lambda>p. (p, RequestVote (current_term n2) (rn_id n2)
                               (last_log_index n2) (last_log_term n2))) (peers n2)))"

section \<open>Public driving interface\<close>

definition on_tick :: "'s state_machine \<Rightarrow> 's raft_node \<Rightarrow> 's raft_node \<times> out list" where
  "on_tick SM n =
     (if role n = Leader
      then let n1 = n\<lparr>heartbeat_elapsed := heartbeat_elapsed n + 1\<rparr>
           in if heartbeat_elapsed n1 \<ge> heartbeat_interval (cfg n1)
              then broadcast_append (n1\<lparr>heartbeat_elapsed := 0\<rparr>)
              else (n1, [])
      else if rn_id n \<notin> set (conf_voters (config n)) then (n, [])
      else let n1 = n\<lparr>election_elapsed := election_elapsed n + 1\<rparr>
           in if election_elapsed n1 \<ge> election_timeout n1 then start_election SM n1
              else (n1, []))"

definition propose ::
  "'s state_machine \<Rightarrow> bytes \<Rightarrow> 's raft_node \<Rightarrow> 's raft_node \<times> index option \<times> out list" where
  "propose SM command n =
     (if role n \<noteq> Leader then (n, None, [])
      else let (n1, idx) = append_local (Command command) n;
               (n2, outs) = broadcast_append n1;
               n3 = maybe_advance_commit SM n2
           in (n3, Some idx, outs))"

definition propose_conf :: "replica_id list \<Rightarrow> 's raft_node \<Rightarrow> 's raft_node \<times> bool \<times> out list" where
  "propose_conf new_voters n =
     (if role n \<noteq> Leader then (n, False, [])
      else case config n of
             Joint _ _ \<Rightarrow> (n, False, [])
           | Simple old \<Rightarrow>
               let joint = Joint old (sorted_ids new_voters);
                   n1 = fst (append_local (Config joint) n);
                   (n2, outs) = broadcast_append n1
               in (n2, True, outs))"

definition raft_read ::
  "'s state_machine \<Rightarrow> nat \<Rightarrow> bytes \<Rightarrow> 's raft_node \<Rightarrow> 's raft_node \<times> out list" where
  "raft_read SM req_id query n =
     (if role n \<noteq> Leader then (n\<lparr>ready_reads := ready_reads n @ [(req_id, NotLeader)]\<rparr>, [])
      else let (n1, outs) = broadcast_append n;
               n2 = n1\<lparr>pending_reads := pending_reads n1 @
                        [\<lparr>pr_req_id = req_id, pr_query = query, pr_read_index = commit_index n1,
                          pr_min_seq = read_seq n1\<rparr>]\<rparr>
           in (serve_reads SM n2, outs))"

definition take_ready_reads :: "'s raft_node \<Rightarrow> 's raft_node \<times> (nat \<times> read_result) list" where
  "take_ready_reads n = (n\<lparr>ready_reads := []\<rparr>, ready_reads n)"

definition take_applied :: "'s raft_node \<Rightarrow> 's raft_node \<times> applied list" where
  "take_applied n = (n\<lparr>applied_outbox := []\<rparr>, applied_outbox n)"

definition voters :: "'s raft_node \<Rightarrow> replica_id list" where
  "voters n = conf_voters (config n)"

definition in_joint_config :: "'s raft_node \<Rightarrow> bool" where
  "in_joint_config n = (case config n of Joint _ _ \<Rightarrow> True | Simple _ \<Rightarrow> False)"

section \<open>Message handlers\<close>

definition handle_request_vote :: "raft_term \<Rightarrow> replica_id \<Rightarrow> index \<Rightarrow> raft_term \<Rightarrow>
    's raft_node \<Rightarrow> 's raft_node \<times> out list" where
  "handle_request_vote trm candidate cand_last_index cand_last_term n =
     (let n1 = (if trm > current_term n then become_follower trm None n else n);
          log_ok = (cand_last_term > last_log_term n1 \<or>
                    (cand_last_term = last_log_term n1 \<and> cand_last_index \<ge> last_log_index n1));
          can_vote = (voted_for n1 = None \<or> voted_for n1 = Some candidate);
          granted = (trm = current_term n1 \<and> log_ok \<and> can_vote);
          n2 = (if granted
                then persist_hard_state (reset_election_timer (n1\<lparr>voted_for := Some candidate\<rparr>))
                else n1)
      in (n2, [(candidate, RequestVoteResp (current_term n2) granted)]))"

definition handle_request_vote_resp :: "'s state_machine \<Rightarrow> replica_id \<Rightarrow> raft_term \<Rightarrow> bool \<Rightarrow>
    's raft_node \<Rightarrow> 's raft_node \<times> out list" where
  "handle_request_vote_resp SM frm trm granted n =
     (if trm > current_term n then (become_follower trm None n, [])
      else if role n \<noteq> Candidate \<or> trm \<noteq> current_term n then (n, [])
      else if granted
           then let n1 = n\<lparr>votes := insert frm (votes n)\<rparr>
                in if is_quorum n1 (votes n1) then become_leader SM n1 else (n1, [])
           else (n, []))"

text \<open>One iteration of the splice loop of \<open>handle_append_entries\<close>.\<close>

definition splice_entry :: "entry \<Rightarrow> 's raft_node \<Rightarrow> 's raft_node" where
  "splice_entry e n =
     (if e_index e \<le> base_index (store n) then n
      else case term_at n (e_index e) of
             Some t \<Rightarrow>
               if t = e_term e then n
               else n\<lparr>store := append_entries (truncate_suffix (store n) (e_index e)) [e]\<rparr>
           | None \<Rightarrow> n\<lparr>store := append_entries (store n) [e]\<rparr>)"

definition handle_append_entries :: "'s state_machine \<Rightarrow> raft_term \<Rightarrow> replica_id \<Rightarrow> index \<Rightarrow>
    raft_term \<Rightarrow> entry list \<Rightarrow> index \<Rightarrow> nat \<Rightarrow> 's raft_node \<Rightarrow> 's raft_node \<times> out list" where
  "handle_append_entries SM trm leader prev_log_index prev_log_term es leader_commit rseq n =
     (if trm < current_term n
      then (n, [(leader, AppendEntriesResp (current_term n) False 0 0 rseq)])
      else
        let n1 = become_follower trm (Some leader) n;
            prev_ok = (case term_at n1 prev_log_index of
                         Some t \<Rightarrow> t = prev_log_term | None \<Rightarrow> False)
        in if \<not> prev_ok
           then let conflict = (if last_log_index n1 < prev_log_index
                                then last_log_index n1 + 1 else prev_log_index)
                in (n1, [(leader, AppendEntriesResp (current_term n1) False 0 conflict rseq)])
           else
             let matched = prev_log_index + length es;
                 n2 = recompute_config (fold splice_entry es n1);
                 n3 = (if leader_commit > commit_index n2
                       then apply_committed SM (persist_hard_state
                              (n2\<lparr>commit_index := min leader_commit (last_log_index n2)\<rparr>))
                       else n2)
             in (n3, [(leader, AppendEntriesResp (current_term n3) True matched 0 rseq)]))"

definition handle_install_snapshot :: "'s state_machine \<Rightarrow> raft_term \<Rightarrow> replica_id \<Rightarrow> index \<Rightarrow>
    raft_term \<Rightarrow> conf_state \<Rightarrow> bytes \<Rightarrow> nat \<Rightarrow> 's raft_node \<Rightarrow> 's raft_node \<times> out list" where
  "handle_install_snapshot SM trm leader inc_index inc_term inc_config data rseq n =
     (let ack = (\<lambda>m success matched.
                   [(leader, AppendEntriesResp (current_term m) success matched 0 rseq)])
      in if trm < current_term n then (n, ack n False 0)
         else
           let n1 = become_follower trm (Some leader) n
           in if inc_index \<le> base_index (store n1) then (n1, ack n1 True (last_log_index n1))
              else
                let n2 = (if term_at n1 inc_index \<noteq> Some inc_term
                          then n1\<lparr>store := truncate_suffix (store n1) (base_index (store n1) + 1)\<rparr>
                          else n1);
                    n3 = n2\<lparr>sm := sm_restore SM (sm n2) data,
                            store := save_snapshot (store n2)
                              \<lparr>last_included_index = inc_index, last_included_term = inc_term,
                               snap_data = data\<rparr>,
                            base_config := inc_config,
                            commit_index := max (commit_index n2) inc_index,
                            last_applied := max (last_applied n2) inc_index\<rparr>;
                    n4 = recompute_config (persist_hard_state n3)
                in (n4, ack n4 True inc_index))"

definition handle_append_entries_resp :: "'s state_machine \<Rightarrow> replica_id \<Rightarrow> raft_term \<Rightarrow> bool \<Rightarrow>
    index \<Rightarrow> index \<Rightarrow> nat \<Rightarrow> 's raft_node \<Rightarrow> 's raft_node \<times> out list" where
  "handle_append_entries_resp SM frm trm success matched conflict rseq n =
     (if trm > current_term n then (become_follower trm None n, [])
      else if role n \<noteq> Leader \<or> trm \<noteq> current_term n then (n, [])
      else
        let prev = (case acked_seq n frm of Some s \<Rightarrow> s | None \<Rightarrow> 0);
            n1 = n\<lparr>acked_seq := (acked_seq n)(frm \<mapsto> max rseq prev)\<rparr>
        in if success
           then let n2 = n1\<lparr>match_index := (match_index n1)(frm \<mapsto> matched),
                            next_index := (next_index n1)(frm \<mapsto> matched + 1)\<rparr>
                in (serve_reads SM (maybe_advance_commit SM n2), [])
           else let ni = (case next_index n1 frm of Some i \<Rightarrow> i | None \<Rightarrow> 1);
                    backed = (if conflict > 0 then max (min conflict (ni - 1)) 1
                              else max (ni - 1) 1);
                    n2 = serve_reads SM (n1\<lparr>next_index := (next_index n1)(frm \<mapsto> backed)\<rparr>)
                in (n2, [(frm, append_for n2 frm)]))"

fun on_message :: "'s state_machine \<Rightarrow> replica_id \<Rightarrow> message \<Rightarrow> 's raft_node \<Rightarrow>
    's raft_node \<times> out list" where
  "on_message SM frm (RequestVote trm candidate lli llt) n =
     handle_request_vote trm candidate lli llt n"
| "on_message SM frm (RequestVoteResp trm granted) n =
     handle_request_vote_resp SM frm trm granted n"
| "on_message SM frm (AppendEntries trm leader pli plt es lc rseq) n =
     handle_append_entries SM trm leader pli plt es lc rseq n"
| "on_message SM frm (AppendEntriesResp trm success mi ci rseq) n =
     handle_append_entries_resp SM frm trm success mi ci rseq n"
| "on_message SM frm (InstallSnapshot trm leader lii lit lic data rseq) n =
     handle_install_snapshot SM trm leader lii lit lic data rseq n"

end
