(* ===== verification/Raft_Frame.thy ===== *)
theory Raft_Frame
  imports Raft_Node
begin

text \<open>
  What the operations of a Raft node leave alone.  One bundle of field equations per
  operation, declared \<open>simp\<close>, so that the invariant proofs of the later theories only see
  the fields an operation really writes.
\<close>

section \<open>Timers, persistence, reads\<close>

lemma next_rand_frame: "fst (next_rand n) = n\<lparr>rng := snd (next_rand n)\<rparr>"
  by (simp add: next_rand_def Let_def)

lemma reset_election_timer_frame [simp, frame_simps]:
  "rn_id (reset_election_timer n) = rn_id n"
  "config (reset_election_timer n) = config n"
  "base_config (reset_election_timer n) = base_config n"
  "cfg (reset_election_timer n) = cfg n"
  "current_term (reset_election_timer n) = current_term n"
  "voted_for (reset_election_timer n) = voted_for n"
  "store (reset_election_timer n) = store n"
  "role (reset_election_timer n) = role n"
  "leader_id (reset_election_timer n) = leader_id n"
  "commit_index (reset_election_timer n) = commit_index n"
  "last_applied (reset_election_timer n) = last_applied n"
  "applied_outbox (reset_election_timer n) = applied_outbox n"
  "votes (reset_election_timer n) = votes n"
  "next_index (reset_election_timer n) = next_index n"
  "match_index (reset_election_timer n) = match_index n"
  "read_seq (reset_election_timer n) = read_seq n"
  "acked_seq (reset_election_timer n) = acked_seq n"
  "pending_reads (reset_election_timer n) = pending_reads n"
  "ready_reads (reset_election_timer n) = ready_reads n"
  "heartbeat_elapsed (reset_election_timer n) = heartbeat_elapsed n"
  "sm (reset_election_timer n) = sm n"
  by (simp_all add: reset_election_timer_def next_rand_def Let_def)

lemma persist_hard_state_frame [simp, frame_simps]:
  "rn_id (persist_hard_state n) = rn_id n"
  "config (persist_hard_state n) = config n"
  "base_config (persist_hard_state n) = base_config n"
  "cfg (persist_hard_state n) = cfg n"
  "current_term (persist_hard_state n) = current_term n"
  "voted_for (persist_hard_state n) = voted_for n"
  "role (persist_hard_state n) = role n"
  "leader_id (persist_hard_state n) = leader_id n"
  "commit_index (persist_hard_state n) = commit_index n"
  "last_applied (persist_hard_state n) = last_applied n"
  "applied_outbox (persist_hard_state n) = applied_outbox n"
  "votes (persist_hard_state n) = votes n"
  "next_index (persist_hard_state n) = next_index n"
  "match_index (persist_hard_state n) = match_index n"
  "read_seq (persist_hard_state n) = read_seq n"
  "acked_seq (persist_hard_state n) = acked_seq n"
  "pending_reads (persist_hard_state n) = pending_reads n"
  "ready_reads (persist_hard_state n) = ready_reads n"
  "election_elapsed (persist_hard_state n) = election_elapsed n"
  "election_timeout (persist_hard_state n) = election_timeout n"
  "sm (persist_hard_state n) = sm n"
  "panicked (persist_hard_state n) = panicked n"
  "log (store (persist_hard_state n)) = log (store n)"
  "st_base_index (store (persist_hard_state n)) = st_base_index (store n)"
  "st_base_term (store (persist_hard_state n)) = st_base_term (store n)"
  "st_snapshot_data (store (persist_hard_state n)) = st_snapshot_data (store n)"
  "has_snapshot (store (persist_hard_state n)) = has_snapshot (store n)"
  by (simp_all add: persist_hard_state_def save_hard_state_def)

lemma recompute_config_frame [simp, frame_simps]:
  "rn_id (recompute_config n) = rn_id n"
  "base_config (recompute_config n) = base_config n"
  "cfg (recompute_config n) = cfg n"
  "current_term (recompute_config n) = current_term n"
  "voted_for (recompute_config n) = voted_for n"
  "store (recompute_config n) = store n"
  "role (recompute_config n) = role n"
  "leader_id (recompute_config n) = leader_id n"
  "commit_index (recompute_config n) = commit_index n"
  "last_applied (recompute_config n) = last_applied n"
  "applied_outbox (recompute_config n) = applied_outbox n"
  "votes (recompute_config n) = votes n"
  "next_index (recompute_config n) = next_index n"
  "match_index (recompute_config n) = match_index n"
  "read_seq (recompute_config n) = read_seq n"
  "acked_seq (recompute_config n) = acked_seq n"
  "pending_reads (recompute_config n) = pending_reads n"
  "ready_reads (recompute_config n) = ready_reads n"
  "sm (recompute_config n) = sm n"
  "panicked (recompute_config n) = panicked n"
  by (simp_all add: recompute_config_def)

lemma serve_reads_frame [simp, frame_simps]:
  "rn_id (serve_reads SM n) = rn_id n"
  "config (serve_reads SM n) = config n"
  "base_config (serve_reads SM n) = base_config n"
  "cfg (serve_reads SM n) = cfg n"
  "current_term (serve_reads SM n) = current_term n"
  "voted_for (serve_reads SM n) = voted_for n"
  "store (serve_reads SM n) = store n"
  "role (serve_reads SM n) = role n"
  "leader_id (serve_reads SM n) = leader_id n"
  "commit_index (serve_reads SM n) = commit_index n"
  "last_applied (serve_reads SM n) = last_applied n"
  "applied_outbox (serve_reads SM n) = applied_outbox n"
  "votes (serve_reads SM n) = votes n"
  "next_index (serve_reads SM n) = next_index n"
  "match_index (serve_reads SM n) = match_index n"
  "read_seq (serve_reads SM n) = read_seq n"
  "acked_seq (serve_reads SM n) = acked_seq n"
  "sm (serve_reads SM n) = sm n"
  "panicked (serve_reads SM n) = panicked n"
  by (simp_all add: serve_reads_def Let_def)

section \<open>Apply and compaction\<close>

lemma compact_frame [simp, frame_simps]:
  "rn_id (compact SM n) = rn_id n"
  "cfg (compact SM n) = cfg n"
  "current_term (compact SM n) = current_term n"
  "voted_for (compact SM n) = voted_for n"
  "role (compact SM n) = role n"
  "leader_id (compact SM n) = leader_id n"
  "commit_index (compact SM n) = commit_index n"
  "last_applied (compact SM n) = last_applied n"
  "applied_outbox (compact SM n) = applied_outbox n"
  "votes (compact SM n) = votes n"
  "next_index (compact SM n) = next_index n"
  "match_index (compact SM n) = match_index n"
  "read_seq (compact SM n) = read_seq n"
  "acked_seq (compact SM n) = acked_seq n"
  "pending_reads (compact SM n) = pending_reads n"
  "ready_reads (compact SM n) = ready_reads n"
  "sm (compact SM n) = sm n"
  "st_hard_state (store (compact SM n)) = st_hard_state (store n)"
  by (auto simp: compact_def Let_def save_snapshot_def split: option.splits)

lemma maybe_compact_cases:
  obtains "maybe_compact SM n = n" | "maybe_compact SM n = compact SM n"
  unfolding maybe_compact_def Let_def by presburger

lemma maybe_compact_frame [simp, frame_simps]:
  "rn_id (maybe_compact SM n) = rn_id n"
  "cfg (maybe_compact SM n) = cfg n"
  "current_term (maybe_compact SM n) = current_term n"
  "voted_for (maybe_compact SM n) = voted_for n"
  "role (maybe_compact SM n) = role n"
  "leader_id (maybe_compact SM n) = leader_id n"
  "commit_index (maybe_compact SM n) = commit_index n"
  "last_applied (maybe_compact SM n) = last_applied n"
  "applied_outbox (maybe_compact SM n) = applied_outbox n"
  "votes (maybe_compact SM n) = votes n"
  "next_index (maybe_compact SM n) = next_index n"
  "match_index (maybe_compact SM n) = match_index n"
  "read_seq (maybe_compact SM n) = read_seq n"
  "acked_seq (maybe_compact SM n) = acked_seq n"
  "sm (maybe_compact SM n) = sm n"
  "st_hard_state (store (maybe_compact SM n)) = st_hard_state (store n)"
  by (simp_all add: maybe_compact_def Let_def)

lemma apply_index_frame [simp, frame_simps]:
  "rn_id (apply_index SM i n) = rn_id n"
  "config (apply_index SM i n) = config n"
  "base_config (apply_index SM i n) = base_config n"
  "cfg (apply_index SM i n) = cfg n"
  "current_term (apply_index SM i n) = current_term n"
  "voted_for (apply_index SM i n) = voted_for n"
  "store (apply_index SM i n) = store n"
  "role (apply_index SM i n) = role n"
  "leader_id (apply_index SM i n) = leader_id n"
  "commit_index (apply_index SM i n) = commit_index n"
  "last_applied (apply_index SM i n) = i"
  "votes (apply_index SM i n) = votes n"
  "next_index (apply_index SM i n) = next_index n"
  "match_index (apply_index SM i n) = match_index n"
  "read_seq (apply_index SM i n) = read_seq n"
  "acked_seq (apply_index SM i n) = acked_seq n"
  "pending_reads (apply_index SM i n) = pending_reads n"
  "ready_reads (apply_index SM i n) = ready_reads n"
  "panicked (apply_index SM i n) = panicked n"
  by (simp_all add: apply_index_def Let_def entry_at_def split: option.splits entry_payload.splits prod.splits)

abbreviation apply_loop :: "'s state_machine \<Rightarrow> 's raft_node \<Rightarrow> 's raft_node" where
  "apply_loop SM n \<equiv> fold (apply_index SM) [Suc (last_applied n)..<Suc (commit_index n)] n"

lemma apply_fold_frame [simp, frame_simps]:
  "rn_id (fold (apply_index SM) is n) = rn_id n"
  "config (fold (apply_index SM) is n) = config n"
  "base_config (fold (apply_index SM) is n) = base_config n"
  "cfg (fold (apply_index SM) is n) = cfg n"
  "current_term (fold (apply_index SM) is n) = current_term n"
  "voted_for (fold (apply_index SM) is n) = voted_for n"
  "store (fold (apply_index SM) is n) = store n"
  "role (fold (apply_index SM) is n) = role n"
  "leader_id (fold (apply_index SM) is n) = leader_id n"
  "commit_index (fold (apply_index SM) is n) = commit_index n"
  "votes (fold (apply_index SM) is n) = votes n"
  "next_index (fold (apply_index SM) is n) = next_index n"
  "match_index (fold (apply_index SM) is n) = match_index n"
  "read_seq (fold (apply_index SM) is n) = read_seq n"
  "acked_seq (fold (apply_index SM) is n) = acked_seq n"
  "pending_reads (fold (apply_index SM) is n) = pending_reads n"
  "ready_reads (fold (apply_index SM) is n) = ready_reads n"
  "panicked (fold (apply_index SM) is n) = panicked n"
  by (simp_all add: fold_field)

lemma last_applied_fold:
  "last_applied (fold (apply_index SM) is n) = (if is = [] then last_applied n else last is)"
  by (induction "is" arbitrary: n) simp_all

lemma last_applied_apply_loop [simp]:
  "last_applied (apply_loop SM n) = max (last_applied n) (commit_index n)"
  by (auto simp: last_applied_fold max_def)

lemma apply_committed_frame [simp, frame_simps]:
  "rn_id (apply_committed SM n) = rn_id n"
  "cfg (apply_committed SM n) = cfg n"
  "current_term (apply_committed SM n) = current_term n"
  "voted_for (apply_committed SM n) = voted_for n"
  "role (apply_committed SM n) = role n"
  "leader_id (apply_committed SM n) = leader_id n"
  "commit_index (apply_committed SM n) = commit_index n"
  "last_applied (apply_committed SM n) = max (last_applied n) (commit_index n)"
  "votes (apply_committed SM n) = votes n"
  "next_index (apply_committed SM n) = next_index n"
  "match_index (apply_committed SM n) = match_index n"
  "read_seq (apply_committed SM n) = read_seq n"
  "acked_seq (apply_committed SM n) = acked_seq n"
  "st_hard_state (store (apply_committed SM n)) = st_hard_state (store n)"
  by (simp_all add: apply_committed_def last_applied_apply_loop del: upt_Suc)

section \<open>Appending, replication, commit\<close>

lemma append_local_frame [simp, frame_simps]:
  "rn_id (fst (append_local p n)) = rn_id n"
  "base_config (fst (append_local p n)) = base_config n"
  "cfg (fst (append_local p n)) = cfg n"
  "current_term (fst (append_local p n)) = current_term n"
  "voted_for (fst (append_local p n)) = voted_for n"
  "role (fst (append_local p n)) = role n"
  "leader_id (fst (append_local p n)) = leader_id n"
  "commit_index (fst (append_local p n)) = commit_index n"
  "last_applied (fst (append_local p n)) = last_applied n"
  "applied_outbox (fst (append_local p n)) = applied_outbox n"
  "votes (fst (append_local p n)) = votes n"
  "next_index (fst (append_local p n)) = next_index n"
  "read_seq (fst (append_local p n)) = read_seq n"
  "acked_seq (fst (append_local p n)) = acked_seq n"
  "pending_reads (fst (append_local p n)) = pending_reads n"
  "ready_reads (fst (append_local p n)) = ready_reads n"
  "sm (fst (append_local p n)) = sm n"
  "panicked (fst (append_local p n)) = panicked n"
  "snd (append_local p n) = last_log_index n + 1"
  by (simp_all add: append_local_def Let_def split: option.splits)

lemma append_local_store:
  "store (fst (append_local p n)) = append_entries (store n)
     [\<lparr>e_term = current_term n, e_index = last_log_index n + 1, e_payload = p\<rparr>]"
  by (simp add: append_local_def Let_def split: option.splits)

lemma broadcast_append_frame [simp, frame_simps]:
  "fst (broadcast_append n) = n\<lparr>read_seq := read_seq n + 1\<rparr>"
  by (simp add: broadcast_append_def Let_def)

lemma finalize_joint_cases:
  obtains "finalize_joint_if_committed n = n"
  | p where "is_config p" "finalize_joint_if_committed n = fst (append_local p n)"
proof (cases "finalize_joint_if_committed n = n")
  case False
  then obtain old new where "config n = Joint old new"
    by (cases "config n") (auto simp: finalize_joint_if_committed_def split: if_splits)
  with False have "finalize_joint_if_committed n = fst (append_local (Config (Simple new)) n)"
    by (auto simp: finalize_joint_if_committed_def split: if_splits option.splits)
  then show ?thesis using that(2) [of "Config (Simple new)"] by simp
qed (rule that)

lemma finalize_joint_frame [simp, frame_simps]:
  "rn_id (finalize_joint_if_committed n) = rn_id n"
  "base_config (finalize_joint_if_committed n) = base_config n"
  "cfg (finalize_joint_if_committed n) = cfg n"
  "current_term (finalize_joint_if_committed n) = current_term n"
  "voted_for (finalize_joint_if_committed n) = voted_for n"
  "role (finalize_joint_if_committed n) = role n"
  "leader_id (finalize_joint_if_committed n) = leader_id n"
  "commit_index (finalize_joint_if_committed n) = commit_index n"
  "last_applied (finalize_joint_if_committed n) = last_applied n"
  "votes (finalize_joint_if_committed n) = votes n"
  "next_index (finalize_joint_if_committed n) = next_index n"
  "read_seq (finalize_joint_if_committed n) = read_seq n"
  "acked_seq (finalize_joint_if_committed n) = acked_seq n"
  "sm (finalize_joint_if_committed n) = sm n"
  "panicked (finalize_joint_if_committed n) = panicked n"
  by (rule finalize_joint_cases [of n]; simp)+

lemma commit_step_frame [simp]:
  "fst (commit_step i s) = (fst s)\<lparr>commit_index := commit_index (fst (commit_step i s))\<rparr>"
  by (auto simp: commit_step_def split: prod.splits)

text \<open>
  The commit loop only writes \<open>commit_index\<close>, and the highest qualifying index wins, so the
  loop result does not depend on the intermediate values.
\<close>

definition commits_at :: "'s raft_node \<Rightarrow> index \<Rightarrow> bool" where
  "commits_at n i \<longleftrightarrow> term_at n i = Some (current_term n) \<and> is_quorum n (acked_at n i)"

lemma commits_at_commit_index [simp]: "commits_at (n\<lparr>commit_index := c\<rparr>) i = commits_at n i"
  by (simp add: commits_at_def term_at_def is_quorum_def acked_at_def peers_def Let_def)

lemma commit_step_eq:
  "commit_step i (n, a) = (if commits_at n i then (n\<lparr>commit_index := i\<rparr>, True) else (n, a))"
  by (simp add: commit_step_def commits_at_def)

lemma commit_fold_eq:
  "fold commit_step is (n, a) =
     (if filter (commits_at n) is = [] then (n, a)
      else (n\<lparr>commit_index := last (filter (commits_at n) is)\<rparr>, True))"
proof (induction "is" arbitrary: n a)
  case (Cons i "is")
  show ?case
  proof (cases "commits_at n i")
    case True
    then show ?thesis using Cons.IH [of "n\<lparr>commit_index := i\<rparr>" True]
      by (auto simp: commit_step_eq)
  next
    case False
    then show ?thesis using Cons.IH [of n a] by (auto simp: commit_step_eq)
  qed
qed simp

text \<open>The index the leader commits to: the highest one above the current commit index that
  is of the current term and acknowledged by a quorum.\<close>

definition commit_target :: "'s raft_node \<Rightarrow> index option" where
  "commit_target n =
     (let is = filter (commits_at n) [Suc (commit_index n)..<Suc (last_log_index n)]
      in if is = [] then None else Some (last is))"

lemma maybe_advance_commit_eq:
  "maybe_advance_commit SM n =
     (if role n \<noteq> Leader then n
      else case commit_target n of
             None \<Rightarrow> n
           | Some i \<Rightarrow> finalize_joint_if_committed
               (apply_committed SM (persist_hard_state (n\<lparr>commit_index := i\<rparr>))))"
  by (simp add: maybe_advance_commit_def commit_fold_eq commit_target_def Let_def del: upt_Suc)

lemma commit_target_SomeD:
  assumes "commit_target n = Some i"
  shows "commit_index n < i" "i \<le> last_log_index n" "commits_at n i"
proof -
  let ?is = "filter (commits_at n) [Suc (commit_index n)..<Suc (last_log_index n)]"
  from assms have "?is \<noteq> []" "i = last ?is"
    by (auto simp: commit_target_def Let_def simp del: upt_Suc split: if_splits)
  then have "i \<in> set ?is" using last_in_set by blast
  then show "commit_index n < i" "i \<le> last_log_index n" "commits_at n i" by auto
qed

lemma maybe_advance_commit_frame [simp, frame_simps]:
  "rn_id (maybe_advance_commit SM n) = rn_id n"
  "cfg (maybe_advance_commit SM n) = cfg n"
  "current_term (maybe_advance_commit SM n) = current_term n"
  "voted_for (maybe_advance_commit SM n) = voted_for n"
  "role (maybe_advance_commit SM n) = role n"
  "leader_id (maybe_advance_commit SM n) = leader_id n"
  "votes (maybe_advance_commit SM n) = votes n"
  "next_index (maybe_advance_commit SM n) = next_index n"
  "read_seq (maybe_advance_commit SM n) = read_seq n"
  "acked_seq (maybe_advance_commit SM n) = acked_seq n"
  by (simp_all add: maybe_advance_commit_eq split: option.splits)

section \<open>Role transitions\<close>

lemma become_follower_frame [simp, frame_simps]:
  "rn_id (become_follower t l n) = rn_id n"
  "config (become_follower t l n) = config n"
  "base_config (become_follower t l n) = base_config n"
  "cfg (become_follower t l n) = cfg n"
  "current_term (become_follower t l n) = t"
  "voted_for (become_follower t l n) = (if t = current_term n then voted_for n else None)"
  "role (become_follower t l n) = Follower"
  "leader_id (become_follower t l n) = l"
  "commit_index (become_follower t l n) = commit_index n"
  "last_applied (become_follower t l n) = last_applied n"
  "applied_outbox (become_follower t l n) = applied_outbox n"
  "votes (become_follower t l n) = {}"
  "next_index (become_follower t l n) = next_index n"
  "match_index (become_follower t l n) = match_index n"
  "pending_reads (become_follower t l n) = []"
  "sm (become_follower t l n) = sm n"
  "log (store (become_follower t l n)) = log (store n)"
  "st_base_index (store (become_follower t l n)) = st_base_index (store n)"
  "st_base_term (store (become_follower t l n)) = st_base_term (store n)"
  "st_snapshot_data (store (become_follower t l n)) = st_snapshot_data (store n)"
  "has_snapshot (store (become_follower t l n)) = has_snapshot (store n)"
  by (simp_all add: become_follower_def Let_def)

lemma splice_entry_frame [simp, frame_simps]:
  "rn_id (splice_entry e n) = rn_id n"
  "config (splice_entry e n) = config n"
  "base_config (splice_entry e n) = base_config n"
  "cfg (splice_entry e n) = cfg n"
  "current_term (splice_entry e n) = current_term n"
  "voted_for (splice_entry e n) = voted_for n"
  "role (splice_entry e n) = role n"
  "leader_id (splice_entry e n) = leader_id n"
  "commit_index (splice_entry e n) = commit_index n"
  "last_applied (splice_entry e n) = last_applied n"
  "applied_outbox (splice_entry e n) = applied_outbox n"
  "votes (splice_entry e n) = votes n"
  "pending_reads (splice_entry e n) = pending_reads n"
  "ready_reads (splice_entry e n) = ready_reads n"
  "sm (splice_entry e n) = sm n"
  "panicked (splice_entry e n) = panicked n"
  "st_hard_state (store (splice_entry e n)) = st_hard_state (store n)"
  "st_base_index (store (splice_entry e n)) = st_base_index (store n)"
  "st_base_term (store (splice_entry e n)) = st_base_term (store n)"
  "st_snapshot_data (store (splice_entry e n)) = st_snapshot_data (store n)"
  "has_snapshot (store (splice_entry e n)) = has_snapshot (store n)"
  by (auto simp: splice_entry_def append_entries_def truncate_suffix_def Let_def split: option.splits)

lemma splice_fold_frame [simp, frame_simps]:
  "rn_id (fold splice_entry es n) = rn_id n"
  "config (fold splice_entry es n) = config n"
  "base_config (fold splice_entry es n) = base_config n"
  "cfg (fold splice_entry es n) = cfg n"
  "current_term (fold splice_entry es n) = current_term n"
  "voted_for (fold splice_entry es n) = voted_for n"
  "role (fold splice_entry es n) = role n"
  "leader_id (fold splice_entry es n) = leader_id n"
  "commit_index (fold splice_entry es n) = commit_index n"
  "last_applied (fold splice_entry es n) = last_applied n"
  "votes (fold splice_entry es n) = votes n"
  "sm (fold splice_entry es n) = sm n"
  "panicked (fold splice_entry es n) = panicked n"
  "st_hard_state (store (fold splice_entry es n)) = st_hard_state (store n)"
  "st_base_index (store (fold splice_entry es n)) = st_base_index (store n)"
  "st_base_term (store (fold splice_entry es n)) = st_base_term (store n)"
  "st_snapshot_data (store (fold splice_entry es n)) = st_snapshot_data (store n)"
  "has_snapshot (store (fold splice_entry es n)) = has_snapshot (store n)"
  by (simp_all add: fold_field [where g = "\<lambda>n. rn_id n"] fold_field [where g = "\<lambda>n. config n"]
      fold_field [where g = "\<lambda>n. st_hard_state (store n)"]
      fold_field [where g = "\<lambda>n. st_base_index (store n)"]
      fold_field [where g = "\<lambda>n. st_base_term (store n)"]
      fold_field [where g = "\<lambda>n. st_snapshot_data (store n)"]
      fold_field [where g = "\<lambda>n. has_snapshot (store n)"] fold_field)

section \<open>Entry points as compositions\<close>

lemma propose_eq:
  "propose SM c n =
     (if role n \<noteq> Leader then (n, None, [])
      else let b = broadcast_append (fst (append_local (Command c) n))
           in (maybe_advance_commit SM (fst b), Some (last_log_index n + 1), snd b))"
  by (simp add: propose_def case_prod_beta Let_def del: broadcast_append_frame)

lemma propose_conf_eq:
  "propose_conf vs n =
     (if role n \<noteq> Leader then (n, False, [])
      else case config n of
             Joint _ _ \<Rightarrow> (n, False, [])
           | Simple old \<Rightarrow>
               let b = broadcast_append (fst (append_local (Config (Joint old (sorted_ids vs))) n))
               in (fst b, True, snd b))"
  by (simp add: propose_conf_def case_prod_beta Let_def del: broadcast_append_frame
      split: conf_state.splits)

lemma on_tick_cases:
  obtains (quiet) a b where
      "on_tick SM n = (n\<lparr>heartbeat_elapsed := a, election_elapsed := b\<rparr>, [])"
  | (beat) "role n = Leader" "on_tick SM n = broadcast_append (n\<lparr>heartbeat_elapsed := 0\<rparr>)"
  | (elect) b where "role n \<noteq> Leader" "rn_id n \<in> set (conf_voters (config n))"
      "on_tick SM n = start_election SM (n\<lparr>election_elapsed := b\<rparr>)"
proof (cases "role n = Leader")
  case True
  show ?thesis
  proof (cases "heartbeat_elapsed n + 1 \<ge> heartbeat_interval (cfg n)")
    case ge: True
    then show ?thesis using beat True by (simp add: on_tick_def Let_def)
  next
    case False
    then show ?thesis using quiet [where a = "heartbeat_elapsed n + 1" and b = "election_elapsed n"] True
      by (simp add: on_tick_def Let_def)
  qed
next
  case False
  let ?b = "election_elapsed n + 1"
  consider "rn_id n \<notin> set (conf_voters (config n))"
    | "rn_id n \<in> set (conf_voters (config n))" "?b \<ge> election_timeout n"
    | "rn_id n \<in> set (conf_voters (config n))" "\<not> ?b \<ge> election_timeout n" by blast
  then show ?thesis
  proof cases
    case 1
    then show ?thesis using quiet [where a = "heartbeat_elapsed n" and b = "election_elapsed n"] False
      by (simp add: on_tick_def)
  next
    case 2
    then show ?thesis using elect [of ?b] False by (simp add: on_tick_def Let_def)
  next
    case 3
    then show ?thesis using quiet [where a = "heartbeat_elapsed n" and b = ?b] False
      by (simp add: on_tick_def Let_def)
  qed
qed

end
