(* ===== verification/Raft_Vote.thy ===== *)
theory Raft_Vote
  imports Raft_Inv
begin

text \<open>
  What one step of a node does to its term, vote, role and membership: the term never
  decreases, a vote cast in a term is never changed in that term, a granted vote is always
  the vote that was stored, a node becomes leader only with a quorum of votes, and without
  a membership proposal the configuration stays what it was.  These are the local facts the
  cluster theorems rest on.
\<close>

section \<open>Term and vote\<close>

text \<open>\<open>vote_le n n'\<close>: the term has grown, or is the same and any vote cast is kept.\<close>

definition vote_le :: "'s raft_node \<Rightarrow> 's raft_node \<Rightarrow> bool" where
  "vote_le n n' \<longleftrightarrow> current_term n < current_term n' \<or>
     (current_term n = current_term n' \<and> (voted_for n = None \<or> voted_for n' = voted_for n))"

lemma vote_le_refl [simp]: "vote_le n n"
  by (simp add: vote_le_def)

lemma vote_le_same:
  "current_term n' = current_term n \<Longrightarrow> voted_for n' = voted_for n \<Longrightarrow> vote_le n n'"
  by (simp add: vote_le_def)

lemma become_leader_frame [simp, frame_simps]:
  "rn_id (fst (become_leader SM n)) = rn_id n"
  "current_term (fst (become_leader SM n)) = current_term n"
  "voted_for (fst (become_leader SM n)) = voted_for n"
  "role (fst (become_leader SM n)) = Leader"
  "cfg (fst (become_leader SM n)) = cfg n"
  by (simp_all add: become_leader_def Let_def)

lemma start_election_frame [simp, frame_simps]:
  "rn_id (fst (start_election SM n)) = rn_id n"
  "current_term (fst (start_election SM n)) = current_term n + 1"
  "voted_for (fst (start_election SM n)) = Some (rn_id n)"
  "cfg (fst (start_election SM n)) = cfg n"
  by (simp_all add: start_election_def Let_def)

lemma handle_append_entries_frame [simp, frame_simps]:
  "rn_id (fst (handle_append_entries SM t l p pt es lc rs n)) = rn_id n"
  "current_term (fst (handle_append_entries SM t l p pt es lc rs n)) = max t (current_term n)"
  "voted_for (fst (handle_append_entries SM t l p pt es lc rs n)) =
     (if t \<le> current_term n then voted_for n else None)"
  "role (fst (handle_append_entries SM t l p pt es lc rs n)) =
     (if t < current_term n then role n else Follower)"
  "cfg (fst (handle_append_entries SM t l p pt es lc rs n)) = cfg n"
  by (simp_all add: handle_append_entries_def Let_def max_def)

lemma handle_install_snapshot_frame [simp, frame_simps]:
  "rn_id (fst (handle_install_snapshot SM t l i it ic d rs n)) = rn_id n"
  "current_term (fst (handle_install_snapshot SM t l i it ic d rs n)) = max t (current_term n)"
  "voted_for (fst (handle_install_snapshot SM t l i it ic d rs n)) =
     (if t \<le> current_term n then voted_for n else None)"
  "role (fst (handle_install_snapshot SM t l i it ic d rs n)) =
     (if t < current_term n then role n else Follower)"
  "cfg (fst (handle_install_snapshot SM t l i it ic d rs n)) = cfg n"
  by (simp_all add: handle_install_snapshot_def Let_def max_def)

lemma handle_append_entries_resp_frame [simp, frame_simps]:
  "rn_id (fst (handle_append_entries_resp SM f t s m c rs n)) = rn_id n"
  "current_term (fst (handle_append_entries_resp SM f t s m c rs n)) = max t (current_term n)"
  "voted_for (fst (handle_append_entries_resp SM f t s m c rs n)) =
     (if t \<le> current_term n then voted_for n else None)"
  "role (fst (handle_append_entries_resp SM f t s m c rs n)) =
     (if t \<le> current_term n then role n else Follower)"
  "votes (fst (handle_append_entries_resp SM f t s m c rs n)) =
     (if t \<le> current_term n then votes n else {})"
  "cfg (fst (handle_append_entries_resp SM f t s m c rs n)) = cfg n"
  by (simp_all add: handle_append_entries_resp_def Let_def max_def)

lemma handle_request_vote_frame [simp, frame_simps]:
  "rn_id (fst (handle_request_vote t c li lt n)) = rn_id n"
  "current_term (fst (handle_request_vote t c li lt n)) = max t (current_term n)"
  "role (fst (handle_request_vote t c li lt n)) =
     (if t \<le> current_term n then role n else Follower)"
  "votes (fst (handle_request_vote t c li lt n)) = (if t \<le> current_term n then votes n else {})"
  "cfg (fst (handle_request_vote t c li lt n)) = cfg n"
  by (simp_all add: handle_request_vote_def Let_def max_def)

lemma handle_request_vote_resp_frame [simp, frame_simps]:
  "rn_id (fst (handle_request_vote_resp SM f t g n)) = rn_id n"
  "current_term (fst (handle_request_vote_resp SM f t g n)) = max t (current_term n)"
  "voted_for (fst (handle_request_vote_resp SM f t g n)) =
     (if t \<le> current_term n then voted_for n else None)"
  "cfg (fst (handle_request_vote_resp SM f t g n)) = cfg n"
  by (simp_all add: handle_request_vote_resp_def Let_def max_def)

lemma propose_frame [simp, frame_simps]:
  "rn_id (fst (propose SM c n)) = rn_id n"
  "current_term (fst (propose SM c n)) = current_term n"
  "voted_for (fst (propose SM c n)) = voted_for n"
  "role (fst (propose SM c n)) = role n"
  "votes (fst (propose SM c n)) = votes n"
  "cfg (fst (propose SM c n)) = cfg n"
  by (simp_all add: propose_eq Let_def)

lemma propose_conf_frame [simp, frame_simps]:
  "rn_id (fst (propose_conf vs n)) = rn_id n"
  "current_term (fst (propose_conf vs n)) = current_term n"
  "voted_for (fst (propose_conf vs n)) = voted_for n"
  "role (fst (propose_conf vs n)) = role n"
  "votes (fst (propose_conf vs n)) = votes n"
  "cfg (fst (propose_conf vs n)) = cfg n"
  by (simp_all add: propose_conf_eq Let_def split: conf_state.splits)

lemma raft_read_frame [simp, frame_simps]:
  "rn_id (fst (raft_read SM r q n)) = rn_id n"
  "current_term (fst (raft_read SM r q n)) = current_term n"
  "voted_for (fst (raft_read SM r q n)) = voted_for n"
  "role (fst (raft_read SM r q n)) = role n"
  "votes (fst (raft_read SM r q n)) = votes n"
  "cfg (fst (raft_read SM r q n)) = cfg n"
  by (simp_all add: raft_read_def broadcast_append_def Let_def)

lemma on_tick_vote:
  "rn_id (fst (on_tick SM n)) = rn_id n" "vote_le n (fst (on_tick SM n))"
  "cfg (fst (on_tick SM n)) = cfg n"
  by (simp_all add: on_tick_def Let_def vote_le_def)

lemma handle_request_vote_vote_le: "vote_le n (fst (handle_request_vote t c li lt n))"
  by (auto simp: handle_request_vote_def Let_def vote_le_def)

lemma raft_step_rn_id [simp]: "rn_id (fst (raft_step SM inp n)) = rn_id n"
proof (cases inp)
  case (Deliver f m)
  then show ?thesis by (cases m) simp_all
qed (simp_all add: case_prod_beta on_tick_vote take_ready_reads_def take_applied_def)

lemma raft_step_cfg [simp]: "cfg (fst (raft_step SM inp n)) = cfg n"
proof (cases inp)
  case (Deliver f m)
  then show ?thesis by (cases m) simp_all
qed (simp_all add: case_prod_beta on_tick_vote take_ready_reads_def take_applied_def)

lemma raft_step_vote_le: "vote_le n (fst (raft_step SM inp n))"
proof (cases inp)
  case (Deliver f m)
  then show ?thesis
    by (cases m) (simp_all add: handle_request_vote_vote_le, auto simp: vote_le_def max_def)
qed (simp_all add: case_prod_beta on_tick_vote take_ready_reads_def take_applied_def vote_le_same)

section \<open>Which messages a step can send\<close>

text \<open>
  The kinds of outbound message, with what the sender's state says about each: a granted
  vote is the stored vote, replication messages come from a leader about its own term.
\<close>

fun out_ok :: "'s raft_node \<Rightarrow> out \<Rightarrow> bool" where
  "out_ok n (to, RequestVote t c _ _) = (t = current_term n \<and> c = rn_id n)"
| "out_ok n (to, RequestVoteResp t g) =
     (t = current_term n \<and> (g \<longrightarrow> voted_for n = Some to))"
| "out_ok n (to, AppendEntries t l _ _ _ _ _) =
     (t = current_term n \<and> l = rn_id n \<and> role n = Leader)"
| "out_ok n (to, AppendEntriesResp t _ _ _ _) = (t = current_term n)"
| "out_ok n (to, InstallSnapshot t l _ _ _ _ _) =
     (t = current_term n \<and> l = rn_id n \<and> role n = Leader)"

lemma append_for_out_ok: "role n = Leader \<Longrightarrow> out_ok n (p, append_for n p)"
  by (simp add: append_for_def Let_def)

lemma out_ok_cong:
  "rn_id n' = rn_id n \<Longrightarrow> current_term n' = current_term n \<Longrightarrow> voted_for n' = voted_for n \<Longrightarrow>
     role n' = role n \<Longrightarrow> out_ok n' x = out_ok n x"
  by (cases x; cases "snd x") auto

lemma broadcast_append_out_ok:
  "role n = Leader \<Longrightarrow> x \<in> set (snd (broadcast_append n)) \<Longrightarrow> out_ok n x"
  using append_for_out_ok [of "n\<lparr>read_seq := Suc (read_seq n)\<rparr>"]
    out_ok_cong [of n "n\<lparr>read_seq := Suc (read_seq n)\<rparr>"]
  by (auto simp: broadcast_append_def Let_def)

lemma become_leader_out_ok: "x \<in> set (snd (become_leader SM n)) \<Longrightarrow> out_ok (fst (become_leader SM n)) x"
proof -
  assume x: "x \<in> set (snd (become_leader SM n))"
  obtain m where m: "become_leader SM n = broadcast_append m" "role m = Leader"
    by (simp add: become_leader_def Let_def)
  then show ?thesis using x broadcast_append_out_ok [of m x]
      out_ok_cong [of "fst (broadcast_append m)" m x] by simp
qed

lemma start_election_out_ok:
  assumes "x \<in> set (snd (start_election SM n))"
  shows "out_ok (fst (start_election SM n)) x"
proof -
  let ?n2 = "persist_hard_state (reset_election_timer
     (n\<lparr>role := Candidate, current_term := current_term n + 1, voted_for := Some (rn_id n),
        leader_id := None, votes := {rn_id n}\<rparr>))"
  show ?thesis
  proof (cases "is_quorum ?n2 (votes ?n2)")
    case True
    then have "start_election SM n = become_leader SM ?n2" by (simp add: start_election_def Let_def)
    then show ?thesis using assms become_leader_out_ok [of x SM ?n2] by simp
  next
    case False
    then show ?thesis using assms by (auto simp: start_election_def Let_def)
  qed
qed

lemma on_tick_out_ok:
  assumes "x \<in> set (snd (on_tick SM n))"
  shows "out_ok (fst (on_tick SM n)) x"
proof (cases rule: on_tick_cases [of SM n])
  case (quiet a b)
  then show ?thesis using assms by simp
next
  case beat
  let ?m = "n\<lparr>heartbeat_elapsed := 0\<rparr>"
  show ?thesis using beat assms broadcast_append_out_ok [of ?m x]
      out_ok_cong [of "?m\<lparr>read_seq := read_seq n + 1\<rparr>" ?m x] by simp
next
  case (elect b)
  then show ?thesis using assms start_election_out_ok [of x SM "n\<lparr>election_elapsed := b\<rparr>"] by simp
qed

lemma on_message_out_ok: "x \<in> set (snd (on_message SM f m n)) \<Longrightarrow> out_ok (fst (on_message SM f m n)) x"
proof (cases m)
  case (RequestVote t c li lt)
  then show "x \<in> set (snd (on_message SM f m n)) \<Longrightarrow> ?thesis"
    by (auto simp: handle_request_vote_def Let_def)
next
  case (RequestVoteResp t g)
  then show "x \<in> set (snd (on_message SM f m n)) \<Longrightarrow> ?thesis"
    by (auto simp: handle_request_vote_resp_def Let_def become_leader_out_ok split: if_splits)
next
  case (AppendEntries t l p pt es lc rs)
  then show "x \<in> set (snd (on_message SM f m n)) \<Longrightarrow> ?thesis"
    by (auto simp: handle_append_entries_def Let_def split: if_splits)
next
  case (AppendEntriesResp t s mi ci rs)
  then show "x \<in> set (snd (on_message SM f m n)) \<Longrightarrow> ?thesis"
    by (auto simp: handle_append_entries_resp_def Let_def append_for_out_ok split: if_splits)
next
  case (InstallSnapshot t l i it ic d rs)
  then show "x \<in> set (snd (on_message SM f m n)) \<Longrightarrow> ?thesis"
    by (auto simp: handle_install_snapshot_eq install_base_def Let_def max_def split: if_splits)
qed

lemma raft_step_out_ok:
  assumes "x \<in> set (snd (raft_step SM inp n))"
  shows "out_ok (fst (raft_step SM inp n)) x"
proof (cases inp)
  case (Propose c)
  let ?b = "broadcast_append (fst (append_local (Command c) n))"
  from Propose assms have "role n = Leader" "x \<in> set (snd ?b)"
    by (auto simp: case_prod_beta propose_eq Let_def split: if_splits)
  then show ?thesis using Propose broadcast_append_out_ok [of "fst (append_local (Command c) n)" x]
      out_ok_cong [of "fst (propose SM c n)" "fst (append_local (Command c) n)" x]
    by (simp add: case_prod_beta)
next
  case (ProposeConf vs)
  then obtain p where "role n = Leader" "x \<in> set (snd (broadcast_append (fst (append_local p n))))"
    using assms by (auto simp: case_prod_beta propose_conf_eq Let_def split: if_splits conf_state.splits)
  then show ?thesis using ProposeConf broadcast_append_out_ok [of "fst (append_local p n)" x]
      out_ok_cong [of "fst (propose_conf vs n)" "fst (append_local p n)" x]
    by (simp add: case_prod_beta)
next
  case (Read r q)
  then have "role n = Leader" "x \<in> set (snd (broadcast_append n))"
    using assms by (auto simp: raft_read_def case_prod_beta Let_def split: if_splits)
  then show ?thesis using Read broadcast_append_out_ok [of n x]
      out_ok_cong [of "fst (raft_read SM r q n)" n x] by simp
next
  case Tick
  then show ?thesis using assms on_tick_out_ok [of x SM n] by simp
next
  case (Deliver f m)
  then show ?thesis using assms on_message_out_ok [of x SM f m n] by simp
qed (use assms in simp_all)

section \<open>How a node becomes candidate or leader\<close>

lemma start_election_cases:
  obtains (win) "conf_is_quorum (config n) {rn_id n}" "role (fst (start_election SM n)) = Leader"
  | (wait) "role (fst (start_election SM n)) = Candidate" "votes (fst (start_election SM n)) = {rn_id n}"
  by (cases "conf_is_quorum (config n) {rn_id n}")
    (simp_all add: start_election_def Let_def is_quorum_def)

text \<open>The vote an input carries for the receiver in its current term.\<close>

fun new_vote :: "input \<Rightarrow> raft_term \<Rightarrow> replica_id set" where
  "new_vote (Deliver f (RequestVoteResp t True)) trm = (if t = trm then {f} else {})"
| "new_vote _ _ = {}"

definition candidacy :: "input \<Rightarrow> 's raft_node \<Rightarrow> 's raft_node \<Rightarrow> bool" where
  "candidacy inp n n' \<longleftrightarrow>
     role n = Candidate \<and> current_term n' = current_term n \<and>
       votes n' \<subseteq> votes n \<union> new_vote inp (current_term n)
     \<or> votes n' = {rn_id n} \<and> voted_for n' = Some (rn_id n)"

definition leadership :: "input \<Rightarrow> 's raft_node \<Rightarrow> 's raft_node \<Rightarrow> bool" where
  "leadership inp n n' \<longleftrightarrow>
     role n = Leader \<and> current_term n' = current_term n
     \<or> (\<exists>S. conf_is_quorum (config n) S \<and>
          (S = {rn_id n} \<and> voted_for n' = Some (rn_id n)
           \<or> role n = Candidate \<and> current_term n' = current_term n \<and>
             S \<subseteq> votes n \<union> new_vote inp (current_term n)))"

definition role_ok :: "input \<Rightarrow> 's raft_node \<Rightarrow> 's raft_node \<Rightarrow> bool" where
  "role_ok inp n n' \<longleftrightarrow> (role n' = Candidate \<longrightarrow> candidacy inp n n') \<and>
     (role n' = Leader \<longrightarrow> leadership inp n n')"

lemma role_ok_same:
  "role n' = role n \<Longrightarrow> votes n' = votes n \<Longrightarrow> current_term n' = current_term n \<Longrightarrow> role_ok inp n n'"
  by (simp add: role_ok_def candidacy_def leadership_def)

lemma role_ok_follower: "role n' = Follower \<Longrightarrow> role_ok inp n n'"
  by (simp add: role_ok_def)

lemma on_tick_role_ok: "role_ok Tick n (fst (on_tick SM n))"
proof (cases rule: on_tick_cases [of SM n])
  case (elect b)
  let ?m = "n\<lparr>election_elapsed := b\<rparr>"
  show ?thesis
  proof (cases rule: start_election_cases [of ?m SM])
    case win
    then show ?thesis using elect
      by (auto simp: role_ok_def leadership_def intro!: exI [of _ "{rn_id n}"])
  next
    case wait
    then show ?thesis using elect by (simp add: role_ok_def candidacy_def)
  qed
qed (simp_all add: role_ok_same)

lemma handle_request_vote_resp_role_ok:
  "role_ok (Deliver f (RequestVoteResp t g)) n (fst (handle_request_vote_resp SM f t g n))"
proof (cases "t \<le> current_term n \<and> role n = Candidate \<and> t = current_term n \<and> g")
  case True
  let ?n1 = "n\<lparr>votes := insert f (votes n)\<rparr>"
  show ?thesis
  proof (cases "is_quorum ?n1 (votes ?n1)")
    case q: True
    then have "leadership (Deliver f (RequestVoteResp t g)) n (fst (become_leader SM ?n1))"
      using True by (auto simp: leadership_def is_quorum_def intro!: exI [of _ "insert f (votes n)"])
    then show ?thesis using True q
      by (simp add: handle_request_vote_resp_def Let_def role_ok_def)
  next
    case False
    then show ?thesis using True
      by (simp add: handle_request_vote_resp_def Let_def role_ok_def candidacy_def)
  qed
next
  case False
  then show ?thesis
    by (auto simp: handle_request_vote_resp_def intro: role_ok_same role_ok_follower)
qed

lemma raft_step_role_ok: "role_ok inp n (fst (raft_step SM inp n))"
proof (cases inp)
  case Tick
  then show ?thesis using on_tick_role_ok [of n SM] by simp
next
  case (Deliver f m)
  then show ?thesis
  proof (cases m)
    case (RequestVote t c li lt)
    then show ?thesis using Deliver
      by (cases "t \<le> current_term n") (simp_all add: role_ok_same role_ok_follower)
  next
    case (RequestVoteResp t g)
    then show ?thesis using Deliver by (simp add: handle_request_vote_resp_role_ok)
  next
    case (AppendEntries t l p pt es lc rs)
    then show ?thesis using Deliver
      by (cases "t < current_term n")
        (simp_all add: role_ok_follower, simp add: handle_append_entries_def role_ok_same)
  next
    case (AppendEntriesResp t s mi ci rs)
    then show ?thesis using Deliver
      by (cases "t \<le> current_term n") (simp_all add: role_ok_same role_ok_follower)
  next
    case (InstallSnapshot t l i it ic d rs)
    then show ?thesis using Deliver
      by (cases "t < current_term n")
        (simp_all add: role_ok_follower, simp add: handle_install_snapshot_def role_ok_same)
  qed
qed (simp_all add: case_prod_beta take_ready_reads_def take_applied_def role_ok_same)

section \<open>A membership that is not being changed\<close>

definition static_conf :: "replica_id list \<Rightarrow> 's raft_node \<Rightarrow> bool" where
  "static_conf vs n \<longleftrightarrow> config n = Simple vs \<and> base_config n = Simple vs \<and>
     (\<forall>e \<in> set (log (store n)). \<not> is_config (e_payload e))"

fun msg_static :: "replica_id list \<Rightarrow> message \<Rightarrow> bool" where
  "msg_static vs (AppendEntries _ _ _ _ es _ _) = (\<forall>e \<in> set es. \<not> is_config (e_payload e))"
| "msg_static vs (InstallSnapshot _ _ _ _ c _ _) = (c = Simple vs)"
| "msg_static vs _ = True"

fun input_static :: "replica_id list \<Rightarrow> input \<Rightarrow> bool" where
  "input_static vs (Deliver _ m) = msg_static vs m"
| "input_static vs (ProposeConf _) = False"
| "input_static vs _ = True"

lemma static_confD [conf_simps]:
  assumes "static_conf vs n"
  shows "config n = Simple vs" "base_config n = Simple vs"
    "e \<in> set (log (store n)) \<Longrightarrow> \<not> is_config (e_payload e)"
  using assms by (auto simp: static_conf_def)

lemma live_entries_subset: "set (live_entries n) \<subseteq> set (log (store n))"
  by (auto simp: live_entries_def store_entries_def Let_def)

lemma find_no_config:
  assumes "\<forall>e \<in> set (log (store n)). \<not> is_config (e_payload e)"
  shows "find (\<lambda>e. is_config (e_payload e)) (rev (live_entries n)) = None"
    "find (\<lambda>e. e_index e \<le> i \<and> is_config (e_payload e)) (rev (live_entries n)) = None"
  using assms live_entries_subset [of n] by (auto simp: find_None_iff)

lemma static_conf_cong:
  assumes "config n' = config n" "base_config n' = base_config n"
    "set (log (store n')) \<subseteq> set (log (store n))"
  shows "static_conf vs n \<Longrightarrow> static_conf vs n'"
  using assms by (auto simp: static_conf_def)

lemma recompute_config_static:
  assumes "base_config n = Simple vs" "\<forall>e \<in> set (log (store n)). \<not> is_config (e_payload e)"
  shows "static_conf vs (recompute_config n)"
  using assms find_no_config(1) [OF assms(2)]
  by (simp add: static_conf_def recompute_config_def)

lemma config_at_static: "static_conf vs n \<Longrightarrow> config_at n i = Simple vs"
  using find_no_config(2) [of n i] by (auto simp: config_at_def static_conf_def)

lemma compact_static: "static_conf vs n \<Longrightarrow> static_conf vs (compact SM n)"
  by (auto simp: compact_def Let_def config_at_static static_confD save_snapshot_def
      intro!: recompute_config_static static_conf_cong [of _ n] split: option.splits)

lemma maybe_compact_static: "static_conf vs n \<Longrightarrow> static_conf vs (maybe_compact SM n)"
  by (cases rule: maybe_compact_cases [of SM n]) (simp_all add: compact_static)

lemma apply_committed_static: "static_conf vs n \<Longrightarrow> static_conf vs (apply_committed SM n)"
  unfolding apply_committed_def by (rule maybe_compact_static) (simp add: static_conf_def del: upt_Suc)

lemma append_local_static:
  "static_conf vs n \<Longrightarrow> \<not> is_config p \<Longrightarrow> static_conf vs (fst (append_local p n))"
  by (auto simp: static_conf_def append_local_def append_entries_def Let_def split: option.splits)

lemma finalize_joint_static: "static_conf vs n \<Longrightarrow> finalize_joint_if_committed n = n"
  by (simp add: finalize_joint_if_committed_def static_confD)

lemma persist_static: "static_conf vs n \<Longrightarrow> static_conf vs (persist_hard_state n)"
  by (simp add: static_conf_def)

lemma maybe_advance_commit_static:
  assumes "static_conf vs n" shows "static_conf vs (maybe_advance_commit SM n)"
proof -
  have st: "static_conf vs (apply_committed SM (persist_hard_state (n\<lparr>commit_index := i\<rparr>)))" for i
    using assms by (intro apply_committed_static persist_static) (simp add: static_conf_def)
  have "static_conf vs (finalize_joint_if_committed
      (apply_committed SM (persist_hard_state (n\<lparr>commit_index := i\<rparr>))))" for i
    using st [of i] finalize_joint_static [OF st] by simp
  then show ?thesis using assms by (simp add: maybe_advance_commit_eq split: option.splits)
qed

lemma broadcast_append_static: "static_conf vs n \<Longrightarrow> static_conf vs (fst (broadcast_append n))"
  by (simp add: static_conf_def)

lemma become_follower_static: "static_conf vs n \<Longrightarrow> static_conf vs (become_follower t l n)"
  by (simp add: static_conf_def)

lemma become_leader_static:
  assumes "static_conf vs n" shows "static_conf vs (fst (become_leader SM n))"
  using assms unfolding become_leader_def Let_def
  by (intro broadcast_append_static maybe_advance_commit_static append_local_static)
    (simp_all add: static_conf_def)

lemma start_election_static:
  assumes "static_conf vs n" shows "static_conf vs (fst (start_election SM n))"
proof -
  have "static_conf vs (persist_hard_state (reset_election_timer
     (n\<lparr>role := Candidate, current_term := current_term n + 1, voted_for := Some (rn_id n),
        leader_id := None, votes := {rn_id n}\<rparr>)))"
    using assms by (simp add: static_conf_def)
  then show ?thesis by (simp add: start_election_def Let_def become_leader_static)
qed

lemma on_tick_static:
  assumes "static_conf vs n" shows "static_conf vs (fst (on_tick SM n))"
proof (cases rule: on_tick_cases [of SM n])
  case (elect b)
  have "static_conf vs (n\<lparr>election_elapsed := b\<rparr>)" using assms by (simp add: static_conf_def)
  then show ?thesis using elect start_election_static by simp
qed (use assms in \<open>simp_all add: static_conf_def\<close>)

lemma splice_entry_static:
  assumes "static_conf vs n" "\<not> is_config (e_payload e)"
  shows "static_conf vs (splice_entry e n)"
proof -
  have "set (log (store (splice_entry e n))) \<subseteq> insert e (set (log (store n)))"
    by (auto simp: splice_entry_def append_entries_def truncate_suffix_def Let_def
        split: option.splits if_splits dest: in_set_takeD)
  then show ?thesis using assms by (auto simp: static_conf_def)
qed

lemma splice_fold_static:
  assumes "static_conf vs n" "\<forall>e \<in> set es. \<not> is_config (e_payload e)"
  shows "static_conf vs (fold splice_entry es n)"
  by (rule fold_invariant [where I = "static_conf vs"]) (use assms splice_entry_static in auto)

lemma handle_append_entries_static:
  assumes "static_conf vs n" "\<forall>e \<in> set es. \<not> is_config (e_payload e)"
  shows "static_conf vs (fst (handle_append_entries SM t l p pt es lc rs n))"
proof -
  let ?n1 = "become_follower t (Some l) n"
  have n1: "static_conf vs ?n1" using assms(1) by (rule become_follower_static)
  have "static_conf vs (fold splice_entry es ?n1)" using n1 assms(2) by (rule splice_fold_static)
  then have n2: "static_conf vs (recompute_config (fold splice_entry es ?n1))"
    using recompute_config_static [of "fold splice_entry es ?n1" vs] by (simp add: static_conf_def)
  then have "static_conf vs (apply_committed SM (persist_hard_state
      ((recompute_config (fold splice_entry es ?n1))\<lparr>commit_index := c\<rparr>)))" for c
    by (intro apply_committed_static persist_static) (simp add: static_conf_def)
  with assms n1 n2 show ?thesis by (simp add: handle_append_entries_def Let_def)
qed

lemma handle_install_snapshot_static:
  assumes "static_conf vs n"
  shows "static_conf vs (fst (handle_install_snapshot SM t l i it (Simple vs) d rs n))"
proof -
  let ?n1 = "become_follower t (Some l) n"
  let ?m = "persist_hard_state (install_base SM i it (Simple vs) d (install_drop i it ?n1))"
  have n1: "static_conf vs ?n1" using assms by (rule become_follower_static)
  have "set (log (store ?m)) \<subseteq> set (log (store n))"
    by (auto simp: install_base_def install_drop_def save_snapshot_def truncate_suffix_def Let_def
        split: if_splits dest: in_set_takeD)
  then have "static_conf vs (recompute_config ?m)"
    using assms by (intro recompute_config_static) (auto simp: install_base_def static_conf_def)
  with assms n1 show ?thesis by (simp add: handle_install_snapshot_eq Let_def)
qed

lemma handle_append_entries_resp_static:
  assumes "static_conf vs n"
  shows "static_conf vs (fst (handle_append_entries_resp SM f t s m c rs n))"
proof -
  have "static_conf vs (maybe_advance_commit SM (n\<lparr>acked_seq := a, match_index := mi, next_index := ni\<rparr>))"
    for a mi ni
    using assms by (intro maybe_advance_commit_static) (simp add: static_conf_def)
  then show ?thesis using assms become_follower_static [OF assms]
    by (simp add: handle_append_entries_resp_def Let_def static_conf_def)
qed

lemma handle_request_vote_static:
  "static_conf vs n \<Longrightarrow> static_conf vs (fst (handle_request_vote t c li lt n))"
  by (simp add: handle_request_vote_def Let_def static_conf_def)

lemma handle_request_vote_resp_static:
  assumes "static_conf vs n" shows "static_conf vs (fst (handle_request_vote_resp SM f t g n))"
proof -
  have "static_conf vs (n\<lparr>votes := S\<rparr>)" for S using assms by (simp add: static_conf_def)
  then show ?thesis using assms
    by (simp add: handle_request_vote_resp_def Let_def become_follower_static become_leader_static)
qed

lemma raft_step_static:
  assumes n: "static_conf vs n" and inp: "input_static vs inp"
  shows "static_conf vs (fst (raft_step SM inp n))"
proof (cases inp)
  case (Deliver f m)
  then show ?thesis using n inp
    by (cases m) (simp_all add: handle_append_entries_static handle_install_snapshot_static
        handle_append_entries_resp_static handle_request_vote_static handle_request_vote_resp_static)
next
  case (Propose c)
  have "static_conf vs (maybe_advance_commit SM (fst (broadcast_append (fst (append_local (Command c) n)))))"
    using n by (intro maybe_advance_commit_static broadcast_append_static append_local_static) simp_all
  then show ?thesis using n Propose by (simp add: case_prod_beta propose_eq Let_def)
next
  case (Read r q)
  then show ?thesis using n
    by (simp add: raft_read_def broadcast_append_def Let_def static_conf_def)
next
  case Tick
  then show ?thesis using n by (simp add: on_tick_static)
next
  case Compact
  then show ?thesis using n by (simp add: compact_static)
qed (use n inp in \<open>simp_all add: take_ready_reads_def take_applied_def static_conf_def\<close>)

text \<open>Under such a membership no message carries a configuration entry or another membership.\<close>

lemma append_for_static: "static_conf vs n \<Longrightarrow> msg_static vs (append_for n p)"
  by (auto simp: append_for_def Let_def static_conf_def store_entries_def)

lemma broadcast_append_out_static:
  assumes "static_conf vs n" "x \<in> set (snd (broadcast_append n))"
  shows "msg_static vs (snd x)"
proof -
  have "static_conf vs (n\<lparr>read_seq := read_seq n + 1\<rparr>)" using assms(1) by (simp add: static_conf_def)
  from append_for_static [OF this] show ?thesis
    using assms(2) by (auto simp: broadcast_append_def Let_def)
qed

lemma become_leader_out_static:
  assumes "static_conf vs n" "x \<in> set (snd (become_leader SM n))"
  shows "msg_static vs (snd x)"
proof -
  have "static_conf vs (n\<lparr>role := Leader, leader_id := Some (rn_id n), heartbeat_elapsed := 0,
              next_index := ni, match_index := mi\<rparr>)" for ni mi
    using assms(1) by (simp add: static_conf_def)
  then have "static_conf vs (maybe_advance_commit SM (fst (append_local Noop
      (n\<lparr>role := Leader, leader_id := Some (rn_id n), heartbeat_elapsed := 0,
         next_index := ni, match_index := mi\<rparr>))))" for ni mi
    by (intro maybe_advance_commit_static append_local_static) simp_all
  from broadcast_append_out_static [OF this] show ?thesis
    using assms(2) unfolding become_leader_def Let_def by simp
qed

lemma start_election_out_static:
  assumes "static_conf vs n" "x \<in> set (snd (start_election SM n))"
  shows "msg_static vs (snd x)"
proof -
  let ?n2 = "persist_hard_state (reset_election_timer
     (n\<lparr>role := Candidate, current_term := current_term n + 1, voted_for := Some (rn_id n),
        leader_id := None, votes := {rn_id n}\<rparr>))"
  have st: "static_conf vs ?n2" using assms(1) by (simp add: static_conf_def)
  show ?thesis
  proof (cases "is_quorum ?n2 (votes ?n2)")
    case True
    then have "start_election SM n = become_leader SM ?n2" by (simp add: start_election_def Let_def)
    then show ?thesis using assms(2) become_leader_out_static [OF st] by simp
  next
    case False
    then show ?thesis using assms(2) by (auto simp: start_election_def Let_def)
  qed
qed

lemma on_tick_out_static:
  assumes "static_conf vs n" "x \<in> set (snd (on_tick SM n))"
  shows "msg_static vs (snd x)"
proof (cases rule: on_tick_cases [of SM n])
  case beat
  have "static_conf vs (n\<lparr>heartbeat_elapsed := 0\<rparr>)" using assms(1) by (simp add: static_conf_def)
  from broadcast_append_out_static [OF this, of x] show ?thesis using beat assms(2) by simp
next
  case (elect b)
  have "static_conf vs (n\<lparr>election_elapsed := b\<rparr>)" using assms(1) by (simp add: static_conf_def)
  from start_election_out_static [OF this, of x SM] show ?thesis using elect assms(2) by simp
qed (use assms in simp)

lemma on_message_out_static:
  assumes st: "static_conf vs n" and x: "x \<in> set (snd (on_message SM f m n))"
  shows "msg_static vs (snd x)"
proof (cases m)
  case (RequestVoteResp t g)
  let ?n1 = "n\<lparr>votes := insert f (votes n)\<rparr>"
  have "static_conf vs ?n1" using st by (simp add: static_conf_def)
  from become_leader_out_static [OF this] show ?thesis
    using RequestVoteResp x
    by (auto simp: handle_request_vote_resp_def Let_def split: if_splits)
next
  case (AppendEntriesResp t s mi ci rs)
  have "static_conf vs (serve_reads SM (n\<lparr>acked_seq := a, next_index := ni\<rparr>))" for a ni
    using st by (simp add: static_conf_def)
  from append_for_static [OF this] show ?thesis
    using AppendEntriesResp x
    by (auto simp: handle_append_entries_resp_def Let_def split: if_splits)
qed (use x in \<open>auto simp: handle_request_vote_def handle_append_entries_def
       handle_install_snapshot_def Let_def split: if_splits\<close>)

lemma raft_step_out_static:
  assumes st: "static_conf vs n" and inp: "input_static vs inp"
    and x: "x \<in> set (snd (raft_step SM inp n))"
  shows "msg_static vs (snd x)"
proof (cases inp)
  case Tick
  then show ?thesis using st x on_tick_out_static [of vs n x SM] by simp
next
  case (Deliver f m)
  then show ?thesis using st x on_message_out_static [of vs n x SM f m] by simp
next
  case (Propose c)
  have "static_conf vs (fst (append_local (Command c) n))" using st by (simp add: append_local_static)
  from broadcast_append_out_static [OF this] show ?thesis
    using Propose x by (auto simp: case_prod_beta propose_eq Let_def split: if_splits)
next
  case (Read r q)
  then have "x \<in> set (snd (broadcast_append n))"
    using x by (auto simp: raft_read_def case_prod_beta Let_def split: if_splits)
  then show ?thesis using broadcast_append_out_static [OF st] by simp
qed (use x inp in simp_all)

section \<open>The durable term and vote\<close>

definition vote_synced :: "'s raft_node \<Rightarrow> bool" where
  "vote_synced n \<longleftrightarrow> hs_term (st_hard_state (store n)) = current_term n
     \<and> hs_voted_for (st_hard_state (store n)) = voted_for n"

lemma vote_synced_cong:
  assumes "st_hard_state (store n') = st_hard_state (store n)"
    "current_term n' = current_term n" "voted_for n' = voted_for n"
  shows "vote_synced n' = vote_synced n"
  using assms by (simp add: vote_synced_def)

lemma persist_hard_state_stored [simp]:
  "st_hard_state (store (persist_hard_state n)) =
     \<lparr>hs_term = current_term n, hs_voted_for = voted_for n, hs_commit_index = commit_index n\<rparr>"
  by (simp add: persist_hard_state_def save_hard_state_def)

lemma vote_synced_persist [simp]: "vote_synced (persist_hard_state n)"
  by (simp add: vote_synced_def persist_hard_state_def save_hard_state_def)

lemma append_local_hard_state [simp]:
  "st_hard_state (store (fst (append_local p n))) = st_hard_state (store n)"
  by (simp add: append_local_store append_entries_def)

lemma finalize_joint_hard_state [simp]:
  "st_hard_state (store (finalize_joint_if_committed n)) = st_hard_state (store n)"
  by (cases rule: finalize_joint_cases [of n]) simp_all

lemma maybe_advance_commit_vote_synced:
  "vote_synced n \<Longrightarrow> vote_synced (maybe_advance_commit SM n)"
  by (simp add: maybe_advance_commit_eq vote_synced_def split: option.splits)

lemma become_follower_vote_synced: "vote_synced n \<Longrightarrow> vote_synced (become_follower t l n)"
  by (simp add: become_follower_def Let_def vote_synced_def persist_hard_state_def save_hard_state_def)

lemma become_leader_vote_synced:
  assumes "vote_synced n" shows "vote_synced (fst (become_leader SM n))"
proof -
  have "vote_synced (maybe_advance_commit SM (fst (append_local Noop
      (n\<lparr>role := Leader, leader_id := Some (rn_id n), heartbeat_elapsed := 0,
         next_index := ni, match_index := mi\<rparr>))))" for ni mi
    using assms by (intro maybe_advance_commit_vote_synced) (simp add: vote_synced_def)
  then show ?thesis unfolding become_leader_def Let_def by (simp add: vote_synced_def)
qed

lemma start_election_vote_synced: "vote_synced (fst (start_election SM n))"
  using vote_synced_persist by (simp add: start_election_def Let_def become_leader_vote_synced)

lemma on_tick_vote_synced: "vote_synced n \<Longrightarrow> vote_synced (fst (on_tick SM n))"
proof (cases rule: on_tick_cases [of SM n])
  case (elect b)
  then show "vote_synced n \<Longrightarrow> ?thesis" by (simp add: start_election_vote_synced)
qed (simp_all add: vote_synced_def)

lemma handle_append_entries_vote_synced:
  assumes "vote_synced n" shows "vote_synced (fst (handle_append_entries SM t l p pt es lc rs n))"
proof -
  let ?n1 = "become_follower t (Some l) n"
  have n1: "vote_synced ?n1" using assms by (rule become_follower_vote_synced)
  then have n2: "vote_synced (recompute_config (fold splice_entry es ?n1))"
    using vote_synced_cong [of "recompute_config (fold splice_entry es ?n1)" ?n1] by simp
  have "vote_synced (apply_committed SM (persist_hard_state m))" for m :: "'a raft_node"
    by (simp add: vote_synced_def)
  with assms n1 n2 show ?thesis by (simp add: handle_append_entries_def Let_def)
qed

lemma handle_install_snapshot_vote_synced:
  assumes "vote_synced n" shows "vote_synced (fst (handle_install_snapshot SM t l i it ic d rs n))"
proof -
  have "vote_synced (recompute_config (persist_hard_state m))" for m :: "'a raft_node"
    by (simp add: vote_synced_def)
  then show ?thesis using assms become_follower_vote_synced [OF assms]
    by (simp add: handle_install_snapshot_eq Let_def)
qed

lemma handle_append_entries_resp_vote_synced:
  assumes "vote_synced n" shows "vote_synced (fst (handle_append_entries_resp SM f t s m c rs n))"
proof -
  have "vote_synced (maybe_advance_commit SM (n\<lparr>acked_seq := a, match_index := mi, next_index := ni\<rparr>))"
    for a mi ni
    using assms by (intro maybe_advance_commit_vote_synced) (simp add: vote_synced_def)
  then show ?thesis using assms become_follower_vote_synced [OF assms]
    by (simp add: handle_append_entries_resp_def Let_def vote_synced_def)
qed

lemma handle_request_vote_vote_synced:
  assumes "vote_synced n" shows "vote_synced (fst (handle_request_vote t c li lt n))"
  using assms become_follower_vote_synced [OF assms] by (simp add: handle_request_vote_def Let_def)

lemma handle_request_vote_resp_vote_synced:
  assumes "vote_synced n" shows "vote_synced (fst (handle_request_vote_resp SM f t g n))"
proof -
  have "vote_synced (n\<lparr>votes := S\<rparr>)" for S using assms by (simp add: vote_synced_def)
  then show ?thesis using assms
    by (simp add: handle_request_vote_resp_def Let_def become_follower_vote_synced
        become_leader_vote_synced)
qed

lemma raft_step_vote_synced:
  assumes "vote_synced n" shows "vote_synced (fst (raft_step SM inp n))"
proof (cases inp)
  case (Deliver f m)
  then show ?thesis using assms
    by (cases m) (simp_all add: handle_append_entries_vote_synced handle_install_snapshot_vote_synced
        handle_append_entries_resp_vote_synced handle_request_vote_vote_synced
        handle_request_vote_resp_vote_synced)
next
  case (Propose c)
  have "vote_synced (maybe_advance_commit SM (fst (broadcast_append (fst (append_local (Command c) n)))))"
    using assms by (intro maybe_advance_commit_vote_synced) (simp add: vote_synced_def)
  then show ?thesis using assms Propose by (simp add: case_prod_beta propose_eq Let_def)
next
  case (ProposeConf vs)
  then show ?thesis using assms
    by (simp add: case_prod_beta propose_conf_eq Let_def vote_synced_def split: conf_state.splits)
next
  case (Read r q)
  then show ?thesis using assms
    by (simp add: raft_read_def broadcast_append_def Let_def vote_synced_def)
next
  case Tick
  then show ?thesis using assms by (simp add: on_tick_vote_synced)
next
  case Compact
  then show ?thesis using assms vote_synced_cong [of "compact SM n" n] by simp
qed (use assms in \<open>simp_all add: take_ready_reads_def take_applied_def vote_synced_def\<close>)

section \<open>Restart\<close>

lemma new_with_store_fields [simp]:
  "rn_id (new_with_store i vs c s st) = i"
  "config (new_with_store i vs c s st) = Simple (sorted_ids vs)"
  "base_config (new_with_store i vs c s st) = Simple (sorted_ids vs)"
  "cfg (new_with_store i vs c s st) = c"
  "current_term (new_with_store i vs c s st) = 0"
  "voted_for (new_with_store i vs c s st) = None"
  "store (new_with_store i vs c s st) = st"
  "role (new_with_store i vs c s st) = Follower"
  "commit_index (new_with_store i vs c s st) = 0"
  "last_applied (new_with_store i vs c s st) = 0"
  "sm (new_with_store i vs c s st) = s"
  "applied_outbox (new_with_store i vs c s st) = []"
  by (simp_all add: new_with_store_def Let_def)

lemma restore_from_fields [simp]:
  "rn_id (restore_from SM i vs c s st) = i"
  "cfg (restore_from SM i vs c s st) = c"
  "current_term (restore_from SM i vs c s st) = hs_term (st_hard_state st)"
  "voted_for (restore_from SM i vs c s st) = hs_voted_for (st_hard_state st)"
  "role (restore_from SM i vs c s st) = Follower"
  "commit_index (restore_from SM i vs c s st) = max (hs_commit_index (st_hard_state st)) (st_base_index st)"
  "st_hard_state (store (restore_from SM i vs c s st)) = st_hard_state st"
  by (simp_all add: restore_from_def Let_def load_hard_state_def base_index_def split: option.splits)

lemma restore_from_vote_synced: "vote_synced (restore_from SM i vs c s st)"
  by (simp add: vote_synced_def)

lemma restore_from_static:
  assumes "\<forall>e \<in> set (log st). \<not> is_config (e_payload e)"
  shows "static_conf (sorted_ids vs) (restore_from SM i vs c s st)"
proof -
  have "config_at m k = base_config m" if "store m = st" for m :: "'a raft_node" and k
    using find_no_config(2) [of m k] assms that by (simp add: config_at_def)
  then show ?thesis using assms unfolding restore_from_def Let_def
    by (intro apply_committed_static recompute_config_static) (auto split: option.splits)
qed

end
