(* ===== verification/Raft_Net.thy ===== *)
theory Raft_Net
  imports Raft_Vote
begin

text \<open>
  A group of Raft replicas over an asynchronous network: messages may be lost, delayed,
  duplicated and reordered, and a replica may crash and restart from its durable store at
  any time.  Every step of a replica is a call of its public interface
  (\<open>raft_step\<close>, which is \<open>on_tick\<close>, \<open>on_message\<close>, \<open>propose\<close>, ...).

  Two history variables, written next to the replicas and never read by them, record every
  vote that was ever stored and every leadership that was ever entered.
\<close>

section \<open>The system\<close>

record 's deployment =
  d_sm :: "'s state_machine"
  d_voters :: "replica_id list"
  d_cfg :: "replica_id \<Rightarrow> config"
  d_init :: 's

record 's net =
  nd :: "replica_id \<Rightarrow> 's raft_node"
  soup :: "(replica_id \<times> replica_id \<times> message) set"
  ballots :: "(replica_id \<times> raft_term \<times> replica_id) set"
  elected :: "(raft_term \<times> replica_id) set"

definition net_init :: "'s deployment \<Rightarrow> 's net" where
  "net_init D =
     \<lparr>nd = (\<lambda>i. raft_new i (d_voters D) (d_cfg D i) (d_init D)),
      soup = {}, ballots = {}, elected = {}\<rparr>"

definition put_node :: "replica_id \<Rightarrow> 's raft_node \<Rightarrow> out list \<Rightarrow> 's net \<Rightarrow> 's net" where
  "put_node i n' outs N =
     N\<lparr>nd := (nd N)(i := n'),
       soup := soup N \<union> (\<lambda>(to, m). (i, to, m)) ` set outs,
       ballots := ballots N \<union> {(i, current_term n', c) | c. voted_for n' = Some c},
       elected := elected N \<union> (if role n' = Leader then {(current_term n', i)} else {})\<rparr>"

definition restart_node :: "'s deployment \<Rightarrow> replica_id \<Rightarrow> 's raft_node \<Rightarrow> 's raft_node" where
  "restart_node D i n =
     restore_from (d_sm D) i (d_voters D) (d_cfg D i) (d_init D) (store n)"

text \<open>\<open>ok\<close> restricts the inputs considered, for instance to those without membership proposals.\<close>

inductive net_step :: "'s deployment \<Rightarrow> (input \<Rightarrow> bool) \<Rightarrow> 's net \<Rightarrow> 's net \<Rightarrow> bool"
  for D :: "'s deployment" and ok :: "input \<Rightarrow> bool" where
  step_input: "ok inp \<Longrightarrow> (\<And>f m. inp = Deliver f m \<Longrightarrow> (f, i, m) \<in> soup N) \<Longrightarrow>
     raft_step (d_sm D) inp (nd N i) = (n', outs) \<Longrightarrow> net_step D ok N (put_node i n' outs N)"
| step_restart: "net_step D ok N (put_node i (restart_node D i (nd N i)) [] N)"

inductive net_reach :: "'s deployment \<Rightarrow> (input \<Rightarrow> bool) \<Rightarrow> 's net \<Rightarrow> bool"
  for D :: "'s deployment" and ok :: "input \<Rightarrow> bool" where
  reach_init: "net_reach D ok (net_init D)"
| reach_step: "net_reach D ok N \<Longrightarrow> net_step D ok N N' \<Longrightarrow> net_reach D ok N'"

text \<open>No membership change is proposed.\<close>

fun fixed_membership :: "input \<Rightarrow> bool" where
  "fixed_membership (ProposeConf _) = False"
| "fixed_membership _ = True"

lemma put_node_simps [simp]:
  "nd (put_node i n' outs N) j = (if j = i then n' else nd N j)"
  "(f, to, m) \<in> soup (put_node i n' outs N) \<longleftrightarrow> (f, to, m) \<in> soup N \<or> f = i \<and> (to, m) \<in> set outs"
  "(v, t, c) \<in> ballots (put_node i n' outs N) \<longleftrightarrow>
     (v, t, c) \<in> ballots N \<or> v = i \<and> t = current_term n' \<and> voted_for n' = Some c"
  "(t, l) \<in> elected (put_node i n' outs N) \<longleftrightarrow>
     (t, l) \<in> elected N \<or> l = i \<and> t = current_term n' \<and> role n' = Leader"
  by (auto simp: put_node_def)

section \<open>The election invariant\<close>

definition node_elect_inv :: "replica_id list \<Rightarrow> 's net \<Rightarrow> replica_id \<Rightarrow> bool" where
  "node_elect_inv vs N i \<longleftrightarrow>
     (let n = nd N i in
        rn_id n = i \<and> static_conf vs n \<and> vote_synced n
      \<and> (\<forall>t c. (i, t, c) \<in> ballots N \<longrightarrow> t \<le> current_term n \<and> (t = current_term n \<longrightarrow> voted_for n = Some c))
      \<and> (\<forall>c. voted_for n = Some c \<longrightarrow> (i, current_term n, c) \<in> ballots N)
      \<and> (role n = Candidate \<longrightarrow> (\<forall>v \<in> votes n. (v, current_term n, i) \<in> ballots N))
      \<and> (role n = Leader \<longrightarrow> (current_term n, i) \<in> elected N))"

definition soup_elect_inv :: "replica_id list \<Rightarrow> 's net \<Rightarrow> bool" where
  "soup_elect_inv vs N \<longleftrightarrow>
     (\<forall>f to m. (f, to, m) \<in> soup N \<longrightarrow> msg_static vs m
      \<and> (\<forall>t. m = RequestVoteResp t True \<longrightarrow> (f, t, to) \<in> ballots N)
      \<and> (\<forall>t l p pt es lc rs. m = AppendEntries t l p pt es lc rs \<longrightarrow> l = f \<and> (t, f) \<in> elected N)
      \<and> (\<forall>t l x xt c d rs. m = InstallSnapshot t l x xt c d rs \<longrightarrow> l = f \<and> (t, f) \<in> elected N))"

definition elect_inv :: "replica_id list \<Rightarrow> 's net \<Rightarrow> bool" where
  "elect_inv vs N \<longleftrightarrow> (\<forall>i. node_elect_inv vs N i) \<and> soup_elect_inv vs N
     \<and> (\<forall>v t c d. (v, t, c) \<in> ballots N \<longrightarrow> (v, t, d) \<in> ballots N \<longrightarrow> c = d)
     \<and> (\<forall>t l. (t, l) \<in> elected N \<longrightarrow> conf_is_quorum (Simple vs) {v. (v, t, l) \<in> ballots N})"

lemma elect_inv_nodeD:
  assumes "elect_inv vs N"
  shows "rn_id (nd N i) = i" "static_conf vs (nd N i)" "vote_synced (nd N i)"
    "(i, t, c) \<in> ballots N \<Longrightarrow> t \<le> current_term (nd N i)"
    "(i, current_term (nd N i), c) \<in> ballots N \<Longrightarrow> voted_for (nd N i) = Some c"
    "voted_for (nd N i) = Some c \<Longrightarrow> (i, current_term (nd N i), c) \<in> ballots N"
    "role (nd N i) = Candidate \<Longrightarrow> v \<in> votes (nd N i) \<Longrightarrow> (v, current_term (nd N i), i) \<in> ballots N"
    "role (nd N i) = Leader \<Longrightarrow> (current_term (nd N i), i) \<in> elected N"
proof -
  have "node_elect_inv vs N i" using assms by (simp add: elect_inv_def)
  note n = this [unfolded node_elect_inv_def Let_def]
  show "rn_id (nd N i) = i" "static_conf vs (nd N i)" "vote_synced (nd N i)"
    "(i, t, c) \<in> ballots N \<Longrightarrow> t \<le> current_term (nd N i)"
    "(i, current_term (nd N i), c) \<in> ballots N \<Longrightarrow> voted_for (nd N i) = Some c"
    "voted_for (nd N i) = Some c \<Longrightarrow> (i, current_term (nd N i), c) \<in> ballots N"
    "role (nd N i) = Candidate \<Longrightarrow> v \<in> votes (nd N i) \<Longrightarrow> (v, current_term (nd N i), i) \<in> ballots N"
    "role (nd N i) = Leader \<Longrightarrow> (current_term (nd N i), i) \<in> elected N"
    using n by simp_all
qed

lemma elect_inv_soupD:
  assumes "elect_inv vs N"
  shows "(f, to, m) \<in> soup N \<Longrightarrow> msg_static vs m"
    "(f, to, RequestVoteResp t True) \<in> soup N \<Longrightarrow> (f, t, to) \<in> ballots N"
    "(f, to, AppendEntries t l p pt es lc rs) \<in> soup N \<Longrightarrow> l = f \<and> (t, f) \<in> elected N"
    "(f, to, InstallSnapshot t l x xt cs d rs) \<in> soup N \<Longrightarrow> l = f \<and> (t, f) \<in> elected N"
proof -
  have "soup_elect_inv vs N" using assms by (simp add: elect_inv_def)
  note n = this [unfolded soup_elect_inv_def, rule_format]
  show "(f, to, m) \<in> soup N \<Longrightarrow> msg_static vs m"
    "(f, to, RequestVoteResp t True) \<in> soup N \<Longrightarrow> (f, t, to) \<in> ballots N"
    "(f, to, AppendEntries t l p pt es lc rs) \<in> soup N \<Longrightarrow> l = f \<and> (t, f) \<in> elected N"
    "(f, to, InstallSnapshot t l x xt cs d rs) \<in> soup N \<Longrightarrow> l = f \<and> (t, f) \<in> elected N"
    by (drule n, simp)+
qed

lemma elect_inv_ballotD:
  assumes "elect_inv vs N"
  shows "(v, t, c) \<in> ballots N \<Longrightarrow> (v, t, c') \<in> ballots N \<Longrightarrow> c = c'"
    "(t, l) \<in> elected N \<Longrightarrow> conf_is_quorum (Simple vs) {v. (v, t, l) \<in> ballots N}"
  using assms unfolding elect_inv_def by metis+

lemmas elect_invD = elect_inv_nodeD elect_inv_soupD elect_inv_ballotD

lemma elect_inv_init: "elect_inv (sorted_ids (d_voters D)) (net_init D)"
  by (simp add: elect_inv_def node_elect_inv_def soup_elect_inv_def net_init_def raft_new_def
      static_conf_def vote_synced_def mem_new_def default_hard_state_def Let_def)

text \<open>
  The common part of both kinds of step: a node replaced by one whose term and vote have
  only moved forward, whose candidacies and leaderships are backed by recorded votes, and
  whose messages say what its state says.
\<close>

lemma elect_inv_put_node:
  assumes inv: "elect_inv vs N"
    and id: "rn_id n' = i" and st: "static_conf vs n'" and sy: "vote_synced n'"
    and le: "vote_le (nd N i) n'"
    and cand: "\<And>v. role n' = Candidate \<Longrightarrow> v \<in> votes n' \<Longrightarrow>
       (v, current_term n', i) \<in> ballots N \<or> v = i \<and> voted_for n' = Some i"
    and lead: "role n' = Leader \<Longrightarrow> (current_term n', i) \<in> elected N \<or>
       (\<exists>S. conf_is_quorum (Simple vs) S \<and>
          (\<forall>v \<in> S. (v, current_term n', i) \<in> ballots N \<or> v = i \<and> voted_for n' = Some i))"
    and out: "\<And>x. x \<in> set outs \<Longrightarrow> out_ok n' x \<and> msg_static vs (snd x)"
  shows "elect_inv vs (put_node i n' outs N)"
proof -
  let ?N = "put_node i n' outs N"
  have keep: "voted_for n' = Some c" if "(i, current_term n', c) \<in> ballots N" for c
  proof -
    have "current_term n' \<le> current_term (nd N i)" using elect_invD(4) [OF inv that] .
    then have "current_term (nd N i) = current_term n'" "voted_for (nd N i) = Some c"
      using le that elect_invD(5) [OF inv, of i c] by (auto simp: vote_le_def)
    then show ?thesis using le by (auto simp: vote_le_def)
  qed
  have mono: "t \<le> current_term n'" if "(i, t, c) \<in> ballots N" for t c
    using elect_invD(4) [OF inv that] le by (auto simp: vote_le_def)
  have "node_elect_inv vs ?N j" for j
  proof (cases "j = i")
    case True
    have nd: "nd ?N i = n'" by simp
    have "\<forall>t c. (i, t, c) \<in> ballots ?N \<longrightarrow>
        t \<le> current_term n' \<and> (t = current_term n' \<longrightarrow> voted_for n' = Some c)"
      using keep mono by auto
    moreover have "\<forall>c. voted_for n' = Some c \<longrightarrow> (i, current_term n', c) \<in> ballots ?N" by simp
    moreover have "role n' = Candidate \<longrightarrow> (\<forall>v \<in> votes n'. (v, current_term n', i) \<in> ballots ?N)"
      using cand by auto
    moreover have "role n' = Leader \<longrightarrow> (current_term n', i) \<in> elected ?N" by simp
    ultimately show ?thesis unfolding node_elect_inv_def Let_def True nd
      by (intro conjI id st sy)
  next
    case False
    have nd: "nd ?N j = nd N j" using False by simp
    have "node_elect_inv vs N j" using inv by (simp add: elect_inv_def)
    then show ?thesis unfolding node_elect_inv_def Let_def nd using False by simp
  qed
  moreover have "soup_elect_inv vs ?N"
    unfolding soup_elect_inv_def
  proof (intro allI impI)
    fix f to m assume "(f, to, m) \<in> soup ?N"
    then consider "(f, to, m) \<in> soup N" | "f = i" "(to, m) \<in> set outs" by auto
    then show "msg_static vs m
      \<and> (\<forall>t. m = RequestVoteResp t True \<longrightarrow> (f, t, to) \<in> ballots ?N)
      \<and> (\<forall>t l p pt es lc rs. m = AppendEntries t l p pt es lc rs \<longrightarrow> l = f \<and> (t, f) \<in> elected ?N)
      \<and> (\<forall>t l x xt c d rs. m = InstallSnapshot t l x xt c d rs \<longrightarrow> l = f \<and> (t, f) \<in> elected ?N)"
    proof cases
      case 1
      have "soup_elect_inv vs N" using inv by (simp add: elect_inv_def)
      note old = this [unfolded soup_elect_inv_def, rule_format, OF 1]
      show ?thesis using old by (cases m) simp_all
    next
      case 2
      then show ?thesis using out [OF 2(2)] id by (cases m) simp_all
    qed
  qed
  moreover have "c = d" if "(v, t, c) \<in> ballots ?N" "(v, t, d) \<in> ballots ?N" for v t c d
    using that elect_invD(13) [OF inv] keep by auto
  moreover have "conf_is_quorum (Simple vs) {v. (v, t, l) \<in> ballots ?N}" if "(t, l) \<in> elected ?N" for t l
  proof -
    have old: ?thesis if "(t, l) \<in> elected N"
      by (rule conf_is_quorum_mono [OF elect_invD(14) [OF inv that]]) auto
    from that consider "(t, l) \<in> elected N" | "l = i" "t = current_term n'" "role n' = Leader" by auto
    then show ?thesis
    proof cases
      case 2
      from lead [OF 2(3)] show ?thesis
      proof
        assume "\<exists>S. conf_is_quorum (Simple vs) S \<and>
          (\<forall>v \<in> S. (v, current_term n', i) \<in> ballots N \<or> v = i \<and> voted_for n' = Some i)"
        then obtain S where "conf_is_quorum (Simple vs) S"
          "\<forall>v \<in> S. (v, current_term n', i) \<in> ballots N \<or> v = i \<and> voted_for n' = Some i" by blast
        moreover from this have "S \<subseteq> {v. (v, t, l) \<in> ballots ?N}" using 2 by auto
        ultimately show ?thesis by (blast intro: conf_is_quorum_mono)
      qed (use 2 old in simp)
    qed (rule old)
  qed
  ultimately show ?thesis unfolding elect_inv_def by blast
qed

lemma elect_inv_input:
  assumes inv: "elect_inv vs N" and ok: "fixed_membership inp"
    and net: "\<And>f m. inp = Deliver f m \<Longrightarrow> (f, i, m) \<in> soup N"
    and step: "raft_step SM inp (nd N i) = (n', outs)"
  shows "elect_inv vs (put_node i n' outs N)"
proof -
  let ?n = "nd N i"
  have n': "n' = fst (raft_step SM inp ?n)" and outs: "outs = snd (raft_step SM inp ?n)"
    using step by simp_all
  have inp: "input_static vs inp"
    using ok net elect_invD(9) [OF inv] by (cases inp) auto
  have vote: "(v, current_term ?n, i) \<in> ballots N" if "v \<in> new_vote inp (current_term ?n)" for v
    using that net elect_invD(10) [OF inv]
    by (cases "(inp, current_term ?n)" rule: new_vote.cases) (auto split: if_splits)
  have role: "role_ok inp ?n n'" using raft_step_role_ok n' by simp
  show ?thesis
  proof (rule elect_inv_put_node [OF inv])
    show "rn_id n' = i" using n' elect_invD(1) [OF inv] by simp
    show "static_conf vs n'" using n' raft_step_static [OF elect_invD(2) [OF inv] inp] by simp
    show "vote_synced n'" using n' raft_step_vote_synced [OF elect_invD(3) [OF inv]] by simp
    show "vote_le ?n n'" using n' raft_step_vote_le by simp
  next
    fix v assume "role n' = Candidate" "v \<in> votes n'"
    with role have "candidacy inp ?n n'" by (simp add: role_ok_def)
    then show "(v, current_term n', i) \<in> ballots N \<or> v = i \<and> voted_for n' = Some i"
      using \<open>v \<in> votes n'\<close> vote elect_invD(7) [OF inv, of i v] elect_invD(1) [OF inv, of i]
      by (auto simp: candidacy_def)
  next
    assume "role n' = Leader"
    with role have "leadership inp ?n n'" by (simp add: role_ok_def)
    then consider "role ?n = Leader" "current_term n' = current_term ?n"
      | "conf_is_quorum (Simple vs) {i}" "voted_for n' = Some i"
      | S where "conf_is_quorum (Simple vs) S" "role ?n = Candidate" "current_term n' = current_term ?n"
          "S \<subseteq> votes ?n \<union> new_vote inp (current_term ?n)"
      using elect_invD(1) [OF inv, of i] static_confD(1) [OF elect_invD(2) [OF inv, of i]]
      unfolding leadership_def by auto
    then show "(current_term n', i) \<in> elected N \<or>
       (\<exists>S. conf_is_quorum (Simple vs) S \<and>
          (\<forall>v \<in> S. (v, current_term n', i) \<in> ballots N \<or> v = i \<and> voted_for n' = Some i))"
    proof cases
      case 1
      then show ?thesis using elect_invD(8) [OF inv, of i] by simp
    next
      case 2
      then show ?thesis by (intro disjI2 exI [of _ "{i}"]) simp
    next
      case 3
      have "(v, current_term ?n, i) \<in> ballots N" if "v \<in> S" for v
      proof (cases "v \<in> votes ?n")
        case True
        then show ?thesis using elect_invD(7) [OF inv 3(2)] by blast
      next
        case False
        then show ?thesis using that 3(4) vote by blast
      qed
      then show ?thesis using 3(1,3) by auto
    qed
  next
    fix x assume "x \<in> set outs"
    then show "out_ok n' x \<and> msg_static vs (snd x)"
      using n' outs raft_step_out_ok raft_step_out_static [OF elect_invD(2) [OF inv] inp] by blast
  qed
qed

lemma elect_inv_restart:
  assumes inv: "elect_inv (sorted_ids (d_voters D)) N"
  shows "elect_inv (sorted_ids (d_voters D)) (put_node i (restart_node D i (nd N i)) [] N)"
proof (rule elect_inv_put_node [OF inv])
  show "static_conf (sorted_ids (d_voters D)) (restart_node D i (nd N i))"
    unfolding restart_node_def
    by (rule restore_from_static) (use elect_invD(2) [OF inv] in \<open>auto simp: static_conf_def\<close>)
  show "vote_le (nd N i) (restart_node D i (nd N i))"
    using elect_invD(3) [OF inv, of i] by (simp add: restart_node_def vote_le_def vote_synced_def)
qed (simp_all add: restart_node_def restore_from_vote_synced)

lemma net_reach_elect_inv:
  assumes "net_reach D fixed_membership N"
  shows "elect_inv (sorted_ids (d_voters D)) N"
  using assms
proof (induction rule: net_reach.induct)
  case reach_init
  show ?case by (rule elect_inv_init)
next
  case (reach_step N N')
  from reach_step.hyps(2) reach_step.IH show ?case
    by (cases rule: net_step.cases) (blast intro: elect_inv_input elect_inv_restart)+
qed

lemma elected_unique:
  assumes "elect_inv (sorted_ids vs) N" "(t, a) \<in> elected N" "(t, b) \<in> elected N"
  shows "a = b"
proof (rule simple_conf.single_choice)
  show "conf_is_quorum (Simple (sorted_ids vs)) {v. (v, a) \<in> {(v, c). (v, t, c) \<in> ballots N}}"
    "conf_is_quorum (Simple (sorted_ids vs)) {v. (v, b) \<in> {(v, c). (v, t, c) \<in> ballots N}}"
    using elect_invD(14) [OF assms(1)] assms(2,3) by simp_all
qed (use elect_invD(13) [OF assms(1)] in blast)

end
