(* ===== verification/Raft_Props.thy ===== *)
theory Raft_Props
  imports Raft_Net
begin

text \<open>
  Properties of a single Raft replica that hold for every input: panic freedom, restart,
  the timer bounds, the commit rule, replication, and the linearizable read path, with the
  behaviour of a late snapshot.
\<close>

section \<open>Panic freedom\<close>

text \<open>A configuration whose timeout range is not empty (\<open>max - min + 1\<close> does not wrap to 0).\<close>

definition cfg_ok :: "config \<Rightarrow> bool" where
  "cfg_ok c \<longleftrightarrow> election_timeout_max c - election_timeout_min c + 1 \<noteq> 0"

lemma ucast_up_eq_0_iff: "(ucast (x :: u32) :: u64) = 0 \<longleftrightarrow> x = 0"
  by transfer simp

lemma unat_ucast_up: "unat (ucast (x :: u32) :: u64) = unat x"
  by transfer simp

lemma reset_election_timer_panicked [simp]:
  "cfg_ok (cfg n) \<Longrightarrow> panicked (reset_election_timer n) = panicked n"
  by (simp add: reset_election_timer_def next_rand_def Let_def cfg_ok_def ucast_up_eq_0_iff)

lemma compact_panicked: "node_inv n \<Longrightarrow> panicked (compact SM n) = panicked n"
proof -
  assume "node_inv n"
  then have "\<exists>t. term_at n (last_applied n) = Some t" if "base_index (store n) < last_applied n"
    using that by (simp add: term_at_eq node_inv_def log_inv_def)
  then show ?thesis by (auto simp: compact_def Let_def not_le)
qed

lemma apply_committed_panicked: "node_inv n \<Longrightarrow> panicked (apply_committed SM n) = panicked n"
proof -
  assume inv: "node_inv n"
  let ?m = "serve_reads SM (apply_loop SM n)"
  have "node_inv ?m"
    using inv by (simp add: node_inv_def log_inv_def hs_synced_def del: upt_Suc)
  then have "panicked (maybe_compact SM ?m) = panicked ?m"
    by (cases rule: maybe_compact_cases [of SM ?m]) (simp_all add: compact_panicked del: upt_Suc)
  then show ?thesis by (simp add: apply_committed_def)
qed

lemma maybe_advance_commit_panicked:
  "node_inv n \<Longrightarrow> panicked (maybe_advance_commit SM n) = panicked n"
proof (cases "commit_target n")
  case (Some i)
  assume "node_inv n"
  then have "node_inv (persist_hard_state (n\<lparr>commit_index := i\<rparr>))"
    using commit_target_SomeD [OF Some]
    by (intro persist_node_inv) (simp add: node_inv_def log_inv_def last_log_index_def)
  then show ?thesis using Some by (simp add: maybe_advance_commit_eq apply_committed_panicked)
qed (simp add: maybe_advance_commit_eq)

lemma become_follower_panicked [simp]:
  "cfg_ok (cfg n) \<Longrightarrow> panicked (become_follower t l n) = panicked n"
  by (simp add: become_follower_def Let_def)

lemma become_leader_panicked: "node_inv n \<Longrightarrow> panicked (fst (become_leader SM n)) = panicked n"
proof -
  assume inv: "node_inv n"
  let ?m = "\<lambda>ni mi. n\<lparr>role := Leader, leader_id := Some (rn_id n), heartbeat_elapsed := 0,
              next_index := ni, match_index := mi\<rparr>"
  have "node_inv (?m ni mi)" for ni mi
    using inv by (simp add: node_inv_def log_inv_def hs_synced_def)
  then have "panicked (maybe_advance_commit SM (fst (append_local Noop (?m ni mi)))) = panicked n" for ni mi
    by (simp add: maybe_advance_commit_panicked append_local_node_inv)
  then show ?thesis by (simp add: become_leader_def Let_def)
qed

lemma start_election_panicked:
  assumes "node_inv n" "cfg_ok (cfg n)"
  shows "panicked (fst (start_election SM n)) = panicked n"
proof -
  let ?n1 = "n\<lparr>role := Candidate, current_term := current_term n + 1, voted_for := Some (rn_id n),
        leader_id := None, votes := {rn_id n}\<rparr>"
  let ?n2 = "persist_hard_state (reset_election_timer ?n1)"
  have "node_inv ?n2"
    using assms(1) by (intro persist_node_inv) (simp add: node_inv_def log_inv_def)
  moreover have "panicked ?n2 = panicked n" using assms(2) by simp
  ultimately show ?thesis by (simp add: start_election_def Let_def become_leader_panicked)
qed

lemma on_tick_panicked:
  assumes "node_inv n" "cfg_ok (cfg n)"
  shows "panicked (fst (on_tick SM n)) = panicked n"
proof (cases rule: on_tick_cases [of SM n])
  case (elect b)
  have "node_inv (n\<lparr>election_elapsed := b\<rparr>)"
    using assms(1) by (simp add: node_inv_def log_inv_def hs_synced_def)
  then show ?thesis using elect assms(2) by (simp add: start_election_panicked)
qed simp_all

lemma handle_append_entries_panicked:
  assumes inv: "node_inv n" and wf: "contiguous prev es" "agrees n es" and ok: "cfg_ok (cfg n)"
  shows "panicked (fst (handle_append_entries SM t l prev pt es lc rs n)) = panicked n"
proof -
  let ?n1 = "become_follower t (Some l) n"
  let ?n2 = "recompute_config (fold splice_entry es ?n1)"
  have "panicked (apply_committed SM (persist_hard_state
      (?n2\<lparr>commit_index := min lc (last_log_index ?n2)\<rparr>))) = panicked n"
    if "term_at ?n1 prev = Some pt" "commit_index n < lc"
  proof -
    have "node_inv ?n2" using that(1) by (intro splice_node_inv [OF inv wf, of pt]) simp
    then have "node_inv (persist_hard_state (?n2\<lparr>commit_index := min lc (last_log_index ?n2)\<rparr>))"
      using that(2) by (intro persist_node_inv) (simp add: node_inv_def log_inv_def last_log_index_def)
    then show ?thesis using ok by (simp add: apply_committed_panicked)
  qed
  then show ?thesis using ok
    by (auto simp: handle_append_entries_def Let_def split: option.splits)
qed

lemma handle_install_snapshot_panicked:
  "cfg_ok (cfg n) \<Longrightarrow> panicked (fst (handle_install_snapshot SM t l i it ic d rs n)) = panicked n"
  by (simp add: handle_install_snapshot_def Let_def)

lemma handle_append_entries_resp_panicked:
  assumes inv: "node_inv n" and ok: "cfg_ok (cfg n)"
  shows "panicked (fst (handle_append_entries_resp SM f t s m c rs n)) = panicked n"
proof -
  have "node_inv (n\<lparr>acked_seq := a, match_index := mi, next_index := ni\<rparr>)" for a mi ni
    using inv by (simp add: node_inv_def log_inv_def hs_synced_def)
  then show ?thesis using ok
    by (simp add: handle_append_entries_resp_def Let_def maybe_advance_commit_panicked)
qed

lemma handle_request_vote_resp_panicked:
  assumes inv: "node_inv n" and ok: "cfg_ok (cfg n)"
  shows "panicked (fst (handle_request_vote_resp SM f t g n)) = panicked n"
proof -
  have "node_inv (n\<lparr>votes := S\<rparr>)" for S
    using inv by (simp add: node_inv_def log_inv_def hs_synced_def)
  then show ?thesis using ok
    by (simp add: handle_request_vote_resp_def Let_def become_leader_panicked)
qed

lemma raft_step_panicked:
  assumes inv: "node_inv n" and ok: "cfg_ok (cfg n)" and wf: "input_wf n inp"
  shows "panicked (fst (raft_step SM inp n)) = panicked n"
proof (cases inp)
  case Tick
  then show ?thesis using inv ok by (simp add: on_tick_panicked)
next
  case (Deliver f m)
  then show ?thesis using inv ok wf
    by (cases m) (simp_all add: handle_append_entries_panicked handle_install_snapshot_panicked
        handle_append_entries_resp_panicked handle_request_vote_resp_panicked,
        simp add: handle_request_vote_def Let_def)
next
  case (Propose c)
  have "node_inv (fst (broadcast_append (fst (append_local (Command c) n))))"
    using inv by (intro broadcast_append_node_inv append_local_node_inv)
  then show ?thesis using Propose
    by (simp add: case_prod_beta propose_eq Let_def maybe_advance_commit_panicked)
next
  case (ProposeConf vs)
  then show ?thesis by (simp add: case_prod_beta propose_conf_eq Let_def split: conf_state.splits)
next
  case (Read r q)
  then show ?thesis by (simp add: raft_read_def broadcast_append_def Let_def)
next
  case Compact
  then show ?thesis using inv by (simp add: compact_panicked)
qed (simp_all add: take_ready_reads_def take_applied_def)

section \<open>The election timer\<close>

lemma reset_election_timer_bounds:
  assumes le: "election_timeout_min (cfg n) \<le> election_timeout_max (cfg n)" and ok: "cfg_ok (cfg n)"
  shows "election_timeout_min (cfg n) \<le> election_timeout (reset_election_timer n)"
    and "election_timeout (reset_election_timer n) \<le> election_timeout_max (cfg n)"
    and "election_elapsed (reset_election_timer n) = 0"
proof -
  let ?a = "election_timeout_min (cfg n)" and ?b = "election_timeout_max (cfg n)"
  let ?sp = "?b - ?a + 1" and ?x = "snd (next_rand n)"
  let ?r = "(ucast (?x mod (ucast ?sp :: u64)) :: u32)"
  have sp0: "?sp \<noteq> 0" using ok by (simp add: cfg_ok_def)
  have t: "election_timeout (reset_election_timer n) = ?a + ?r"
    "election_elapsed (reset_election_timer n) = 0"
    using sp0 by (simp_all add: reset_election_timer_def next_rand_def Let_def ucast_up_eq_0_iff)
  have ab: "unat ?a \<le> unat ?b" using le by (simp add: word_le_nat_alt)
  have sub: "unat (?b - ?a) = unat ?b - unat ?a" using le by (simp add: unat_sub)
  have sp: "unat ?sp = unat ?b - unat ?a + 1"
    using sp0 sub unatSuc [of "?b - ?a"] by (simp add: add.commute)
  have "unat (ucast ?sp :: u64) = unat ?sp" by (rule unat_ucast_up)
  moreover have "unat (?x mod (ucast ?sp :: u64)) < unat (ucast ?sp :: u64)"
    using sp calculation by (simp only: unat_mod) simp
  ultimately have r: "unat (?x mod (ucast ?sp :: u64)) \<le> unat ?b - unat ?a" using sp by simp
  have "unat ?b < 2 ^ 32" using unsigned_less [of ?b] by simp
  then have ur: "unat ?r = unat (?x mod (ucast ?sp :: u64))"
    using r by (simp add: unsigned_ucast_eq take_bit_eq_mod)
  have sum: "unat ?a + unat ?r \<le> unat ?b" using r ur ab by simp
  then have "unat (?a + ?r) = unat ?a + unat ?r"
    using \<open>unat ?b < 2 ^ 32\<close> by (simp add: unat_word_ariths)
  then show "?a \<le> election_timeout (reset_election_timer n)"
    "election_timeout (reset_election_timer n) \<le> ?b"
    "election_elapsed (reset_election_timer n) = 0"
    using sum t by (simp_all add: word_le_nat_alt)
qed

section \<open>Linearizable reads\<close>

text \<open>The highest read sequence a voter has acknowledged, as \<open>confirmed_read_seq\<close> sees it.\<close>

definition read_ack :: "'s raft_node \<Rightarrow> replica_id \<Rightarrow> nat" where
  "read_ack n v = (if v = rn_id n then read_seq n
     else case acked_seq n v of Some s \<Rightarrow> s | None \<Rightarrow> 0)"

abbreviation read_quorum :: "'s raft_node \<Rightarrow> nat \<Rightarrow> bool" where
  "read_quorum n s \<equiv> conf_is_quorum (config n) {v \<in> set (conf_voters (config n)). s \<le> read_ack n v}"

lemma confirmed_read_seq_eq:
  "confirmed_read_seq n =
     (case find (read_quorum n) (remdups_adj (rev (sort (map (read_ack n) (conf_voters (config n)))))) of
        Some s \<Rightarrow> s | None \<Rightarrow> 0)"
  by (simp add: confirmed_read_seq_def Let_def read_ack_def [abs_def])

lemma confirmed_read_seq_quorum:
  assumes "0 < confirmed_read_seq n"
  shows "read_quorum n (confirmed_read_seq n)"
proof -
  let ?xs = "remdups_adj (rev (sort (map (read_ack n) (conf_voters (config n)))))"
  obtain s where s: "find (read_quorum n) ?xs = Some s" "confirmed_read_seq n = s"
    using assms unfolding confirmed_read_seq_eq by (cases "find (read_quorum n) ?xs") auto
  from s(1) have "read_quorum n s" unfolding find_Some_iff by blast
  then show ?thesis by (simp add: s(2))
qed

lemma sorted_rev_find_max:
  assumes "find P (remdups_adj (rev (sort xs))) = Some s" "P x" "x \<in> set xs"
  shows "x \<le> (s :: nat)"
proof -
  let ?ys = "remdups_adj (rev (sort xs))"
  obtain i where i: "i < length ?ys" "s = ?ys ! i" "\<forall>j < i. \<not> P (?ys ! j)"
    using assms(1) by (auto simp: find_Some_iff)
  obtain j where j: "j < length ?ys" "x = ?ys ! j" using assms(3) by (metis in_set_conv_nth
      remdups_adj_set set_rev set_sort)
  have "sorted_wrt (\<ge>) ?ys"
    by (simp add: sorted_wrt_rev sorted_remdups_adj)
  moreover have "i \<le> j" using i(3) j(2) assms(2) by (metis not_le)
  ultimately show ?thesis using i j by (cases "i = j") (auto simp: sorted_wrt_iff_nth_less)
qed

lemma confirmed_read_seq_max:
  assumes q: "read_quorum n s" and ne: "{v \<in> set (conf_voters (config n)). s \<le> read_ack n v} \<noteq> {}"
  shows "s \<le> confirmed_read_seq n"
proof -
  let ?V = "{v \<in> set (conf_voters (config n)). s \<le> read_ack n v}"
  let ?xs = "map (read_ack n) (conf_voters (config n))"
  let ?m = "Min (read_ack n ` ?V)"
  have m: "?m \<in> read_ack n ` ?V" using ne by (intro Min_in) auto
  then have sm: "s \<le> ?m" "?m \<in> set ?xs" by auto
  have "{v \<in> set (conf_voters (config n)). ?m \<le> read_ack n v} = ?V"
    using sm(1) by (auto intro: Min_le)
  then have qm: "read_quorum n ?m" using q by simp
  then obtain t where t: "find (read_quorum n) (remdups_adj (rev (sort ?xs))) = Some t"
    using sm(2) by (cases "find (read_quorum n) (remdups_adj (rev (sort ?xs)))") (auto simp: find_None_iff)
  have "?m \<le> t" by (rule sorted_rev_find_max [OF t qm sm(2)])
  then show ?thesis using sm(1) t by (simp add: confirmed_read_seq_eq)
qed

end
