(* ===== verification/Bytes.thy ===== *)
theory Bytes
  imports Prelude
begin

text \<open>
  Fixed-width big- and little-endian encodings of unsigned integers, as Rust's
  \<open>to_be_bytes\<close>, \<open>from_be_bytes\<close>, \<open>to_le_bytes\<close> and \<open>from_le_bytes\<close>, on naturals taken modulo
  the width.
\<close>

fun be_bytes :: "nat \<Rightarrow> nat \<Rightarrow> bytes" where
  "be_bytes 0 n = []"
| "be_bytes (Suc k) n = be_bytes k (n div 256) @ [of_nat n]"

definition be_value :: "bytes \<Rightarrow> nat" where
  "be_value bs = foldl (\<lambda>a b. a * 256 + unat b) 0 bs"

definition le_bytes :: "nat \<Rightarrow> nat \<Rightarrow> bytes" where
  "le_bytes k n = rev (be_bytes k n)"

definition le_value :: "bytes \<Rightarrow> nat" where
  "le_value bs = be_value (rev bs)"

lemma length_be_bytes [simp]: "length (be_bytes k n) = k"
  by (induction k n rule: be_bytes.induct) simp_all

lemma length_le_bytes [simp]: "length (le_bytes k n) = k"
  by (simp add: le_bytes_def)

lemma be_value_Nil [simp]: "be_value [] = 0"
  by (simp add: be_value_def)

lemma be_value_snoc [simp]: "be_value (bs @ [b]) = be_value bs * 256 + unat b"
  by (simp add: be_value_def)

lemma unat_byte_of_nat: "unat (of_nat n :: byte) = n mod 256"
  by (simp add: unat_of_nat)

lemma be_value_bytes_mod: "be_value (be_bytes k n) = n mod 256 ^ k"
proof (induction k n rule: be_bytes.induct)
  case (2 k n)
  have "n mod 256 ^ Suc k = n div 256 mod 256 ^ k * 256 + n mod 256"
    by (simp add: mod_mult2_eq mult.commute)
  then show ?case using 2 by (simp add: unat_byte_of_nat)
qed simp

lemma be_value_bytes [simp]: "n < 256 ^ k \<Longrightarrow> be_value (be_bytes k n) = n"
  by (simp add: be_value_bytes_mod)

lemma be_value_less: "be_value bs < 256 ^ length bs"
proof (induction bs rule: rev_induct)
  case (snoc b bs)
  have "unat b < 256" using unsigned_less [of b] by simp
  with snoc show ?case by simp
qed simp

lemma be_bytes_value [simp]: "be_bytes (length bs) (be_value bs) = bs"
proof (induction bs rule: rev_induct)
  case (snoc b bs)
  have b: "unat b < 256" using unsigned_less [of b] by simp
  have z: "(256 :: byte) = 0" by (simp add: word_unat_eq_iff)
  have "of_nat (be_value bs * 256 + unat b) = of_nat (be_value bs) * (256 :: byte) + b" by simp
  then have "of_nat (be_value bs * 256 + unat b) = b" unfolding z by simp
  then show ?case using snoc b by simp
qed simp

lemma be_bytes_mod [simp]: "be_bytes k (n mod 256 ^ k) = be_bytes k n"
  using be_bytes_value [of "be_bytes k n"] by (simp add: be_value_bytes_mod)

lemma le_value_bytes [simp]: "n < 256 ^ k \<Longrightarrow> le_value (le_bytes k n) = n"
  by (simp add: le_value_def le_bytes_def)

text \<open>\<open>u64\<close> values.\<close>

lemma u64_less: "unat (w :: u64) < 256 ^ 8"
  using unsigned_less [of w] by simp

lemma u64_le_roundtrip [simp]: "of_nat (le_value (le_bytes 8 (unat w))) = (w :: u64)"
  using u64_less [of w] by simp

end
