(* ===== verification/Raft_Apply.thy ===== *)
theory Raft_Apply
  imports Raft_Vote Bytes
begin

text \<open>
  The state machine of a replica as a function of its log: \<open>sm\<close> is what one gets by
  restoring the snapshot and replaying the live entries up to \<open>last_applied\<close>.  Every entry
  point keeps this, compaction and restart included, as long as a snapshot that is installed
  does not lie behind what the replica has already applied.
\<close>

section \<open>Replay\<close>

fun apply_payload :: "'s state_machine \<Rightarrow> entry_payload \<Rightarrow> 's \<Rightarrow> 's" where
  "apply_payload SM (Command c) s = fst (sm_apply SM s c)"
| "apply_payload SM Noop s = s"
| "apply_payload SM (Config _) s = s"

definition replay :: "'s state_machine \<Rightarrow> entry list \<Rightarrow> 's \<Rightarrow> 's" where
  "replay SM es s = fold (\<lambda>e. apply_payload SM (e_payload e)) es s"

lemma replay_append: "replay SM (xs @ ys) s = replay SM ys (replay SM xs s)"
  by (simp add: replay_def)

lemma replay_Nil [simp]: "replay SM [] s = s"
  by (simp add: replay_def)

definition base_state :: "'s state_machine \<Rightarrow> 's \<Rightarrow> mem_log_store \<Rightarrow> 's" where
  "base_state SM s0 st =
     (case load_snapshot st of Some snap \<Rightarrow> sm_restore SM s0 (snap_data snap) | None \<Rightarrow> s0)"

definition applied_log :: "'s raft_node \<Rightarrow> entry list" where
  "applied_log n = take (last_applied n - base_index (store n)) (log (store n))"

definition sm_coherent :: "'s state_machine \<Rightarrow> 's \<Rightarrow> 's raft_node \<Rightarrow> bool" where
  "sm_coherent SM s0 n \<longleftrightarrow> sm n = replay SM (applied_log n) (base_state SM s0 (store n))"

text \<open>What \<open>restore\<close> and \<open>snapshot\<close> are documented to do: restoring replaces the whole state
  by the one the snapshot was taken from.\<close>

locale snapshot_laws =
  fixes SM :: "'s state_machine"
  assumes restore_snapshot: "sm_restore SM s' (sm_snapshot SM s) = s"
    and restore_replaces: "sm_restore SM s d = sm_restore SM s' d"

lemma sm_coherent_cong:
  assumes "sm n' = sm n" "last_applied n' = last_applied n" "log (store n') = log (store n)"
    "st_base_index (store n') = st_base_index (store n)"
    "st_snapshot_data (store n') = st_snapshot_data (store n)"
    "has_snapshot (store n') = has_snapshot (store n)"
  shows "sm_coherent SM s0 n' = sm_coherent SM s0 n"
  using assms
  by (simp add: sm_coherent_def applied_log_def base_state_def load_snapshot_def base_index_def)

section \<open>The apply loop replays the committed entries\<close>

lemma sm_apply_index:
  assumes "mem_invar (store n)" "base_index (store n) < i" "i \<le> last_index (store n)"
  shows "sm (apply_index SM i n) = apply_payload SM (e_payload (log (store n) ! (i - base_index (store n) - 1))) (sm n)"
proof -
  have "entry_at (n\<lparr>last_applied := i\<rparr>) i = Some (log (store n) ! (i - base_index (store n) - 1))"
    using assms by (simp add: entry_at_def mem.entry_of_live mem.last_ix_live)
  then show ?thesis
    by (cases "e_payload (log (store n) ! (i - base_index (store n) - 1))")
      (simp_all add: apply_index_def Let_def case_prod_beta)
qed

lemma sm_apply_fold:
  assumes "mem_invar (store n)" "base_index (store n) \<le> a" "b \<le> last_index (store n)"
  shows "sm (fold (apply_index SM) [Suc a..<Suc b] n) =
    replay SM (drop (a - base_index (store n)) (take (b - base_index (store n)) (log (store n)))) (sm n)"
  using assms
proof (induction "b - a" arbitrary: a n)
  case 0
  then show ?case by (simp add: replay_def)
next
  case (Suc k)
  then have ab: "a < b" by simp
  let ?b = "base_index (store n)"
  let ?m = "apply_index SM (Suc a) n"
  have len: "b - ?b \<le> length (log (store n))"
    using Suc.prems ab by (simp add: mem.last_ix_live)
  have d: "drop (a - ?b) (take (b - ?b) (log (store n))) =
      log (store n) ! (a - ?b) # drop (Suc a - ?b) (take (b - ?b) (log (store n)))"
    using len ab Suc.prems(2) by (subst Cons_nth_drop_Suc [symmetric]) (simp_all add: Suc_diff_le)
  have "fold (apply_index SM) [Suc a..<Suc b] n = fold (apply_index SM) [Suc (Suc a)..<Suc b] ?m"
    using ab by (simp add: upt_conv_Cons del: upt_Suc)
  also have "sm \<dots> = replay SM (drop (Suc a - ?b) (take (b - ?b) (log (store n)))) (sm ?m)"
    using Suc.hyps(1) [of "Suc a" ?m] Suc.hyps(2) Suc.prems by (simp del: upt_Suc)
  also have "sm ?m = apply_payload SM (e_payload (log (store n) ! (a - ?b))) (sm n)"
    using sm_apply_index [OF Suc.prems(1), of "Suc a" SM] Suc.prems ab by simp
  finally show ?case by (simp add: d replay_def del: upt_Suc)
qed

lemma sm_apply_loop:
  assumes "log_inv n"
  shows "sm (apply_loop SM n) = replay SM
    (drop (last_applied n - base_index (store n)) (take (commit_index n - base_index (store n)) (log (store n)))) (sm n)"
  using assms by (intro sm_apply_fold) (auto simp: log_inv_def)

context snapshot_laws
begin

lemma compact_coherent:
  assumes inv: "log_inv n" and co: "sm_coherent SM s0 n"
  shows "sm_coherent SM s0 (compact SM n)"
proof (cases "last_applied n \<le> base_index (store n)")
  case False
  let ?la = "last_applied n"
  have "\<exists>t. term_at n ?la = Some t"
    using inv False by (simp add: term_at_eq log_inv_def)
  then obtain t where t: "term_at n ?la = Some t" by blast
  let ?m = "\<lparr>last_included_index = ?la, last_included_term = t, snap_data = sm_snapshot SM (sm n)\<rparr>"
  have st: "store (compact SM n) = save_snapshot (store n) ?m"
    using t False by (simp add: compact_def Let_def)
  have "base_state SM s0 (save_snapshot (store n) ?m) = sm n"
    by (simp add: base_state_def load_snapshot_def save_snapshot_def restore_snapshot)
  then show ?thesis
    by (simp add: sm_coherent_def applied_log_def st mem.save_snap_base)
qed (use co in \<open>simp add: compact_def\<close>)

lemma apply_committed_coherent:
  assumes inv: "log_inv n" and co: "sm_coherent SM s0 n"
  shows "sm_coherent SM s0 (apply_committed SM n)"
proof -
  let ?m = "serve_reads SM (apply_loop SM n)"
  let ?b = "base_index (store n)"
  have la: "last_applied ?m = commit_index n"
    using inv by (simp add: log_inv_def del: upt_Suc)
  have "take (commit_index n - ?b) (log (store n)) =
      take (last_applied n - ?b) (log (store n)) @
      drop (last_applied n - ?b) (take (commit_index n - ?b) (log (store n)))"
    using inv by (metis append_take_drop_id diff_le_mono log_inv_def min.absorb1 take_take)
  then have "replay SM (take (commit_index n - ?b) (log (store n))) s =
      replay SM (drop (last_applied n - ?b) (take (commit_index n - ?b) (log (store n))))
        (replay SM (take (last_applied n - ?b) (log (store n))) s)" for s
    by (metis replay_append)
  then have "sm_coherent SM s0 ?m"
    using co sm_apply_loop [OF inv, of SM] la
    by (simp add: sm_coherent_def applied_log_def del: upt_Suc)
  moreover have "log_inv ?m" using inv la by (simp add: log_inv_def del: upt_Suc)
  ultimately have "sm_coherent SM s0 (maybe_compact SM ?m)"
    by (cases rule: maybe_compact_cases [of SM ?m]) (simp_all add: compact_coherent del: upt_Suc)
  then show ?thesis by (simp add: apply_committed_def)
qed

lemma append_local_coherent:
  assumes inv: "log_inv n" and co: "sm_coherent SM s0 n"
  shows "sm_coherent SM s0 (fst (append_local p n))"
proof -
  have "last_applied n - base_index (store n) \<le> length (log (store n))"
    using inv by (auto simp: log_inv_def mem.last_ix_live)
  then show ?thesis using co
    by (simp add: sm_coherent_def applied_log_def append_local_store append_entries_def
        base_state_def load_snapshot_def base_index_def)
qed

lemma persist_coherent: "sm_coherent SM s0 (persist_hard_state n) = sm_coherent SM s0 n"
  by (rule sm_coherent_cong) (simp_all add: persist_hard_state_def save_hard_state_def)

lemma finalize_joint_coherent:
  "log_inv n \<Longrightarrow> sm_coherent SM s0 n \<Longrightarrow> sm_coherent SM s0 (finalize_joint_if_committed n)"
  by (cases rule: finalize_joint_cases [of n]) (simp_all add: append_local_coherent)

lemma maybe_advance_commit_coherent:
  assumes inv: "node_inv n" and co: "sm_coherent SM s0 n"
  shows "sm_coherent SM s0 (maybe_advance_commit SM n)"
proof (cases "commit_target n")
  case (Some i)
  let ?m = "persist_hard_state (n\<lparr>commit_index := i\<rparr>)"
  have m: "node_inv ?m"
    using commit_target_SomeD [OF Some] inv
    by (intro persist_node_inv) (simp add: node_inv_def log_inv_def last_log_index_def)
  have "sm_coherent SM s0 ?m"
    unfolding persist_coherent using co by (simp add: sm_coherent_def applied_log_def)
  then have "sm_coherent SM s0 (apply_committed SM ?m)"
    using m by (simp add: apply_committed_coherent node_invD)
  then show ?thesis using co m Some
    by (simp add: maybe_advance_commit_eq finalize_joint_coherent apply_committed_node_inv node_invD)
qed (use co in \<open>simp add: maybe_advance_commit_eq\<close>)

lemma become_follower_coherent:
  "sm_coherent SM s0 n \<Longrightarrow> sm_coherent SM s0 (become_follower t l n)"
  by (subst sm_coherent_cong [of _ n])
    (simp_all add: become_follower_def persist_hard_state_def save_hard_state_def Let_def)

lemma become_leader_coherent:
  assumes inv: "node_inv n" and co: "sm_coherent SM s0 n"
  shows "sm_coherent SM s0 (fst (become_leader SM n))"
proof -
  let ?m = "\<lambda>ni mi. n\<lparr>role := Leader, leader_id := Some (rn_id n), heartbeat_elapsed := 0,
              next_index := ni, match_index := mi\<rparr>"
  have m: "node_inv (?m ni mi)" "sm_coherent SM s0 (?m ni mi)" for ni mi
    using inv co by (simp_all add: node_inv_def log_inv_def hs_synced_def sm_coherent_def applied_log_def)
  have "sm_coherent SM s0 (maybe_advance_commit SM (fst (append_local Noop (?m ni mi))))" for ni mi
    using m by (intro maybe_advance_commit_coherent append_local_node_inv append_local_coherent)
      (simp_all add: node_invD)
  then show ?thesis by (simp add: become_leader_def Let_def sm_coherent_def applied_log_def)
qed

lemma start_election_coherent:
  assumes inv: "node_inv n" and co: "sm_coherent SM s0 n"
  shows "sm_coherent SM s0 (fst (start_election SM n))"
proof -
  let ?n1 = "n\<lparr>role := Candidate, current_term := current_term n + 1, voted_for := Some (rn_id n),
        leader_id := None, votes := {rn_id n}\<rparr>"
  let ?n2 = "persist_hard_state (reset_election_timer ?n1)"
  have "node_inv ?n2" using inv by (intro persist_node_inv) (simp add: node_inv_def log_inv_def)
  moreover have "sm_coherent SM s0 ?n2"
    unfolding persist_coherent using co by (simp add: sm_coherent_def applied_log_def)
  ultimately show ?thesis by (simp add: start_election_def Let_def become_leader_coherent)
qed

lemma on_tick_coherent:
  assumes inv: "node_inv n" and co: "sm_coherent SM s0 n"
  shows "sm_coherent SM s0 (fst (on_tick SM n))"
proof (cases rule: on_tick_cases [of SM n])
  case (elect b)
  have "node_inv (n\<lparr>election_elapsed := b\<rparr>)" "sm_coherent SM s0 (n\<lparr>election_elapsed := b\<rparr>)"
    using inv co by (simp_all add: node_inv_def log_inv_def hs_synced_def sm_coherent_def applied_log_def)
  then show ?thesis using elect by (simp add: start_election_coherent)
qed (use co in \<open>simp_all add: sm_coherent_def applied_log_def\<close>)

lemma handle_append_entries_coherent:
  assumes inv: "node_inv n" and co: "sm_coherent SM s0 n"
    and wf: "contiguous prev es" "agrees n es"
  shows "sm_coherent SM s0 (fst (handle_append_entries SM t l prev pt es lc rs n))"
proof -
  let ?n1 = "become_follower t (Some l) n"
  let ?f = "fold splice_entry es ?n1"
  let ?n2 = "recompute_config ?f"
  have n1: "node_inv ?n1" "sm_coherent SM s0 ?n1"
    using inv co by (simp_all add: become_follower_node_inv become_follower_coherent)
  have n2: "sm_coherent SM s0 ?n2 \<and> node_inv ?n2" if pv: "term_at n prev = Some pt"
  proof -
    let ?b = "base_index (store n)"
    have "prev \<le> last_index (store ?n1)"
      using term_at_Some_le [OF node_invD(1) [OF inv] pv] by simp
    then have eq: "take (commit_index n - ?b) (log (store ?f)) = take (commit_index n - ?b) (log (store n))"
      using splice_fold_commit [OF node_invD(1) [OF n1(1)] wf(1), of "commit_index n"]
        node_invD(4) [OF n1(1)] wf(2) by (simp add: agrees_def)
    have "min (last_applied n - ?b) (commit_index n - ?b) = last_applied n - ?b"
      using node_invD(3) [OF inv] by simp
    with arg_cong [OF eq, of "take (last_applied n - ?b)"]
    have "take (last_applied n - ?b) (log (store ?f)) = take (last_applied n - ?b) (log (store n))"
      by (simp only: take_take)
    then have "applied_log ?n2 = applied_log n" by (simp add: applied_log_def base_index_def)
    moreover have "base_state SM s0 (store ?n2) = base_state SM s0 (store ?n1)"
      by (simp add: base_state_def load_snapshot_def)
    ultimately show ?thesis using n1(2) splice_node_inv [OF inv wf pv]
      by (simp add: sm_coherent_def applied_log_def base_index_def)
  qed
  have app: "sm_coherent SM s0 (apply_committed SM (persist_hard_state (?n2\<lparr>commit_index := c\<rparr>)))"
    if "sm_coherent SM s0 ?n2" "node_inv ?n2" "commit_index n \<le> c" "c \<le> last_log_index ?n2" for c
  proof (rule apply_committed_coherent)
    show "log_inv (persist_hard_state (?n2\<lparr>commit_index := c\<rparr>))"
      using that by (intro node_invD(6) [OF persist_node_inv])
        (simp add: node_inv_def log_inv_def last_log_index_def)
    show "sm_coherent SM s0 (persist_hard_state (?n2\<lparr>commit_index := c\<rparr>))"
      unfolding persist_coherent using that(1) by (simp add: sm_coherent_def applied_log_def)
  qed
  moreover have "commit_index n \<le> last_index (store ?n2)" if "node_inv ?n2"
    using node_invD(4) [OF that] by simp
  ultimately show ?thesis using app [of "min lc (last_log_index ?n2)"] n1 n2 co
    by (auto simp: handle_append_entries_def Let_def node_invD last_log_index_def split: option.splits)
qed

lemma handle_install_snapshot_coherent:
  assumes inv: "node_inv n" and co: "sm_coherent SM s0 n"
    and fresh: "base_index (store n) < i \<Longrightarrow> last_applied n \<le> i"
  shows "sm_coherent SM s0 (fst (handle_install_snapshot SM t l i it ic d rs n))"
proof -
  let ?n1 = "become_follower t (Some l) n"
  let ?n3 = "install_base SM i it ic d (install_drop i it ?n1)"
  have "sm_coherent SM s0 (recompute_config (persist_hard_state ?n3))" if gt: "base_index (store n) < i"
  proof -
    have "base_state SM s0 (store ?n3) = sm ?n3"
      by (simp add: base_state_def load_snapshot_def install_base_def save_snapshot_def
          restore_replaces [of s0 d "sm (install_drop i it ?n1)"])
    moreover have "last_applied ?n3 = i" "base_index (store ?n3) = i"
      using fresh [OF gt] by (simp_all add: install_base_def save_snapshot_def base_index_def)
    ultimately have "sm_coherent SM s0 ?n3" by (simp add: sm_coherent_def applied_log_def)
    then have "sm_coherent SM s0 (persist_hard_state ?n3)" unfolding persist_coherent .
    then show ?thesis by (simp add: sm_coherent_def applied_log_def)
  qed
  then show ?thesis using co become_follower_coherent [OF co]
    by (simp add: handle_install_snapshot_eq Let_def not_le)
qed

lemma handle_append_entries_resp_coherent:
  assumes inv: "node_inv n" and co: "sm_coherent SM s0 n"
  shows "sm_coherent SM s0 (fst (handle_append_entries_resp SM f t s m c rs n))"
proof -
  let ?m = "\<lambda>a mi ni. n\<lparr>acked_seq := a, match_index := mi, next_index := ni\<rparr>"
  have "node_inv (?m a mi ni)" "sm_coherent SM s0 (?m a mi ni)" for a mi ni
    using inv co by (simp_all add: node_inv_def log_inv_def hs_synced_def sm_coherent_def applied_log_def)
  then have adv: "sm_coherent SM s0 (serve_reads SM (maybe_advance_commit SM (?m a mi ni)))" for a mi ni
    using maybe_advance_commit_coherent [of "?m a mi ni" s0]
    by (simp add: sm_coherent_def applied_log_def)
  have "sm_coherent SM s0 (serve_reads SM (n\<lparr>acked_seq := a, next_index := ni\<rparr>))" for a ni
    using co by (simp add: sm_coherent_def applied_log_def)
  with adv show ?thesis using co become_follower_coherent [OF co]
    by (simp add: handle_append_entries_resp_def Let_def)
qed

lemma handle_request_vote_coherent:
  assumes co: "sm_coherent SM s0 n"
  shows "sm_coherent SM s0 (fst (handle_request_vote t c li lt n))"
proof -
  have "sm_coherent SM s0 (persist_hard_state (reset_election_timer (m\<lparr>voted_for := Some c\<rparr>)))"
    if "sm_coherent SM s0 m" for m
    unfolding persist_coherent using that by (simp add: sm_coherent_def applied_log_def)
  then show ?thesis using co become_follower_coherent [OF co]
    by (simp add: handle_request_vote_def Let_def)
qed

lemma handle_request_vote_resp_coherent:
  assumes inv: "node_inv n" and co: "sm_coherent SM s0 n"
  shows "sm_coherent SM s0 (fst (handle_request_vote_resp SM f t g n))"
proof -
  have "node_inv (n\<lparr>votes := S\<rparr>)" "sm_coherent SM s0 (n\<lparr>votes := S\<rparr>)" for S
    using inv co by (simp_all add: node_inv_def log_inv_def hs_synced_def sm_coherent_def applied_log_def)
  then show ?thesis using co become_follower_coherent [OF co]
    by (simp add: handle_request_vote_resp_def Let_def become_leader_coherent)
qed

end

text \<open>A snapshot offered to a node that it has not already overtaken.\<close>

fun snapshot_fresh :: "'s raft_node \<Rightarrow> input \<Rightarrow> bool" where
  "snapshot_fresh n (Deliver _ (InstallSnapshot _ _ i _ _ _ _)) =
     (base_index (store n) < i \<longrightarrow> last_applied n \<le> i)"
| "snapshot_fresh n _ = True"

context snapshot_laws
begin

lemma raft_step_coherent:
  assumes inv: "node_inv n" and wf: "input_wf n inp" and fresh: "snapshot_fresh n inp"
    and co: "sm_coherent SM s0 n"
  shows "sm_coherent SM s0 (fst (raft_step SM inp n))"
proof (cases inp)
  case Tick
  then show ?thesis using inv co by (simp add: on_tick_coherent)
next
  case (Deliver f m)
  then show ?thesis using inv co wf fresh
    by (cases m) (simp_all add: handle_append_entries_coherent handle_install_snapshot_coherent
        handle_append_entries_resp_coherent handle_request_vote_coherent
        handle_request_vote_resp_coherent)
next
  case (Propose c)
  let ?m = "fst (broadcast_append (fst (append_local (Command c) n)))"
  have "node_inv ?m" using inv by (intro broadcast_append_node_inv append_local_node_inv)
  moreover have "sm_coherent SM s0 ?m"
    using append_local_coherent [OF node_invD(6) [OF inv] co]
    by (simp add: sm_coherent_def applied_log_def)
  ultimately have "sm_coherent SM s0 (maybe_advance_commit SM ?m)"
    by (rule maybe_advance_commit_coherent)
  then show ?thesis using Propose co by (simp add: case_prod_beta propose_eq Let_def)
next
  case (ProposeConf vs)
  have "sm_coherent SM s0 (fst (broadcast_append (fst (append_local p n))))" for p
    using append_local_coherent [OF node_invD(6) [OF inv] co]
    by (simp add: sm_coherent_def applied_log_def)
  then show ?thesis using ProposeConf co
    by (simp add: case_prod_beta propose_conf_eq Let_def split: conf_state.splits)
next
  case (Read r q)
  then show ?thesis using co
    by (simp add: raft_read_def broadcast_append_def Let_def sm_coherent_def applied_log_def)
next
  case Compact
  then show ?thesis using inv co by (simp add: compact_coherent node_invD)
qed (use co in \<open>simp_all add: take_ready_reads_def take_applied_def sm_coherent_def applied_log_def\<close>)

end

section \<open>Restart\<close>

text \<open>The node that \<open>restore_from\<close> builds before it replays the committed suffix.\<close>

lemma restore_from_eq:
  fixes st :: mem_log_store
  assumes snap: "mem_invar st"
  obtains n4 where "restore_from SM i vs c s st = apply_committed SM (recompute_config n4)"
    "store n4 = st" "last_applied n4 = st_base_index st" "sm n4 = base_state SM s st"
    "commit_index n4 = max (hs_commit_index (st_hard_state st)) (st_base_index st)"
    "current_term n4 = hs_term (st_hard_state st)" "voted_for n4 = hs_voted_for (st_hard_state st)"
proof -
  let ?n0 = "new_with_store i vs c s st"
  let ?n1 = "?n0\<lparr>current_term := hs_term (st_hard_state st), voted_for := hs_voted_for (st_hard_state st)\<rparr>"
  let ?n2 = "case load_snapshot st of
      Some snap \<Rightarrow> ?n1\<lparr>sm := sm_restore SM s (snap_data snap), last_applied := last_included_index snap\<rparr>
    | None \<Rightarrow> ?n1"
  let ?n3 = "?n2\<lparr>base_config := config_at ?n2 (st_base_index st)\<rparr>"
  let ?n4 = "?n3\<lparr>commit_index := max (hs_commit_index (st_hard_state st)) (st_base_index st),
                 last_applied := max (last_applied ?n3) (st_base_index st)\<rparr>"
  show ?thesis
  proof (rule that [of ?n4])
    show "restore_from SM i vs c s st = apply_committed SM (recompute_config ?n4)"
      by (simp add: restore_from_def Let_def load_hard_state_def base_index_def load_snapshot_def)
    show "store ?n4 = st" "last_applied ?n4 = st_base_index st" "sm ?n4 = base_state SM s st"
      "current_term ?n4 = hs_term (st_hard_state st)" "voted_for ?n4 = hs_voted_for (st_hard_state st)"
      using snap by (auto simp: load_snapshot_def base_state_def mem_invar_def)
    show "commit_index ?n4 = max (hs_commit_index (st_hard_state st)) (st_base_index st)" by simp
  qed
qed

text \<open>What a store must satisfy for a node to be rebuilt from it; every store of a node that
  satisfies its invariant does.\<close>

definition durable_ok :: "mem_log_store \<Rightarrow> bool" where
  "durable_ok st \<longleftrightarrow> mem_invar st \<and> st_base_index st \<le> hs_commit_index (st_hard_state st)
     \<and> hs_commit_index (st_hard_state st) \<le> last_index st"

lemma node_inv_durable_ok: "node_inv n \<Longrightarrow> durable_ok (store n)"
  by (simp add: durable_ok_def node_inv_def log_inv_def hs_synced_def load_hard_state_def base_index_def)

lemma restore_from_node_inv:
  assumes "durable_ok st"
  shows "node_inv (restore_from SM i vs c s st)"
proof -
  have "mem_invar st" using assms by (simp add: durable_ok_def)
  then obtain n4 where n4: "restore_from SM i vs c s st = apply_committed SM (recompute_config n4)"
    "store n4 = st" "last_applied n4 = st_base_index st"
    "commit_index n4 = max (hs_commit_index (st_hard_state st)) (st_base_index st)"
    "current_term n4 = hs_term (st_hard_state st)" "voted_for n4 = hs_voted_for (st_hard_state st)"
    by (rule restore_from_eq)
  then have "node_inv (recompute_config n4)" using assms
    by (simp add: node_inv_def log_inv_def hs_synced_def durable_ok_def base_index_def load_hard_state_def)
  then show ?thesis by (simp add: n4(1) apply_committed_node_inv)
qed

context snapshot_laws
begin

lemma restore_from_coherent:
  assumes "durable_ok st"
  shows "sm_coherent SM s (restore_from SM i vs c s st)"
proof -
  have "mem_invar st" using assms by (simp add: durable_ok_def)
  then obtain n4 where n4: "restore_from SM i vs c s st = apply_committed SM (recompute_config n4)"
    "store n4 = st" "last_applied n4 = st_base_index st" "sm n4 = base_state SM s st"
    "commit_index n4 = max (hs_commit_index (st_hard_state st)) (st_base_index st)"
    by (rule restore_from_eq)
  then have "log_inv (recompute_config n4)" "sm_coherent SM s (recompute_config n4)" using assms
    by (simp_all add: log_inv_def durable_ok_def base_index_def sm_coherent_def applied_log_def)
  then show ?thesis by (simp add: n4(1) apply_committed_coherent)
qed

end

text \<open>Replaying from the store of a node that has applied all it has committed gives back its
  state machine.\<close>

lemma restore_from_sm:
  assumes inv: "node_inv n" and co: "sm_coherent SM s n" and all: "last_applied n = commit_index n"
  shows "sm (restore_from SM i vs c s (store n)) = sm n"
proof -
  let ?st = "store n"
  obtain n4 where n4: "restore_from SM i vs c s ?st = apply_committed SM (recompute_config n4)"
    "store n4 = ?st" "last_applied n4 = st_base_index ?st" "sm n4 = base_state SM s ?st"
    "commit_index n4 = max (hs_commit_index (st_hard_state ?st)) (st_base_index ?st)"
    by (rule restore_from_eq [OF node_invD(1) [OF inv]])
  have c: "commit_index n4 = last_applied n"
    using node_invD [OF inv] n4(5) all by (simp add: hs_synced_def load_hard_state_def base_index_def)
  have "log_inv (recompute_config n4)"
    using node_invD [OF inv] n4(2,3) c all by (simp add: log_inv_def base_index_def)
  then have "sm (apply_loop SM (recompute_config n4)) =
      replay SM (take (last_applied n - st_base_index ?st) (log ?st)) (base_state SM s ?st)"
    using sm_apply_loop [of "recompute_config n4" SM] n4(2-4) c by (simp add: base_index_def)
  moreover have "sm (apply_committed SM m) = sm (apply_loop SM m)" for m
    by (cases rule: maybe_compact_cases [of SM "serve_reads SM (apply_loop SM m)"])
      (simp_all add: apply_committed_def)
  ultimately show ?thesis using co n4(1)
    by (simp add: sm_coherent_def applied_log_def base_index_def del: upt_Suc)
qed

section \<open>Between two calls everything committed is applied\<close>

definition caught_up :: "'s raft_node \<Rightarrow> bool" where
  "caught_up n \<longleftrightarrow> commit_index n \<le> last_applied n"

lemma caught_up_apply [simp]: "caught_up (apply_committed SM n)"
  by (simp add: caught_up_def)

lemma caught_up_advance [simp]: "caught_up n \<Longrightarrow> caught_up (maybe_advance_commit SM n)"
  by (simp add: maybe_advance_commit_eq caught_up_def split: option.split)

lemma caught_up_frames [simp]:
  "caught_up (become_follower t l n) = caught_up n"
  "caught_up (persist_hard_state n) = caught_up n"
  "caught_up (reset_election_timer n) = caught_up n"
  "caught_up (serve_reads SM n) = caught_up n"
  "caught_up (compact SM n) = caught_up n"
  "caught_up (fst (append_local p n)) = caught_up n"
  "caught_up (n\<lparr>read_seq := k\<rparr>) = caught_up n"
  by (simp_all add: caught_up_def)

lemma caught_up_leader:
  assumes "caught_up n"
  shows "caught_up (fst (become_leader SM n))"
proof -
  have "caught_up (n\<lparr>role := Leader, leader_id := Some (rn_id n), heartbeat_elapsed := 0,
      next_index := ni, match_index := mi\<rparr>)" for ni mi
    using assms by (simp add: caught_up_def)
  then show ?thesis by (simp add: become_leader_def Let_def)
qed

lemma caught_up_election:
  assumes "caught_up n"
  shows "caught_up (fst (start_election SM n))"
proof -
  have "caught_up (n\<lparr>role := Candidate, current_term := current_term n + 1,
      voted_for := Some (rn_id n), leader_id := None, votes := {rn_id n}\<rparr>)"
    using assms by (simp add: caught_up_def)
  then show ?thesis by (simp add: start_election_def Let_def caught_up_leader)
qed

lemma raft_step_caught_up:
  assumes up: "caught_up n"
  shows "caught_up (fst (raft_step SM inp n))"
proof (cases inp)
  case Tick
  have "caught_up (n\<lparr>election_elapsed := b\<rparr>)" "caught_up (n\<lparr>heartbeat_elapsed := a, election_elapsed := b\<rparr>)"
    "caught_up (n\<lparr>heartbeat_elapsed := a\<rparr>)" for a b
    using up by (simp_all add: caught_up_def)
  then show ?thesis using Tick
    by (cases rule: on_tick_cases [of SM n]) (simp_all add: caught_up_election)
next
  case (Deliver f m)
  have upd: "caught_up (n\<lparr>acked_seq := a, match_index := mi, next_index := ni\<rparr>)"
    "caught_up (n\<lparr>acked_seq := a, next_index := ni\<rparr>)" "caught_up (n\<lparr>votes := S\<rparr>)" for a mi ni S
    using up by (simp_all add: caught_up_def)
  show ?thesis
  proof (cases m)
    case (RequestVote t c li lt)
    then show ?thesis using Deliver up
      by (simp add: handle_request_vote_def Let_def) (simp add: caught_up_def)
  next
    case (RequestVoteResp t g)
    then show ?thesis using Deliver up upd
      by (simp add: handle_request_vote_resp_def Let_def caught_up_leader)
  next
    case (AppendEntries t l p pt es lc rs)
    then show ?thesis using Deliver up
      by (simp add: handle_append_entries_def Let_def) (simp add: caught_up_def)
  next
    case (AppendEntriesResp t s mt c rs)
    then show ?thesis using Deliver up upd
      by (simp add: handle_append_entries_resp_def Let_def)
  next
    case (InstallSnapshot t l i it ic d rs)
    then show ?thesis using Deliver up
      by (simp add: handle_install_snapshot_eq Let_def install_base_def)
        (auto simp: caught_up_def)
  qed
next
  case (Propose c)
  then show ?thesis using up by (simp add: case_prod_beta propose_eq Let_def)
next
  case (ProposeConf vs)
  then show ?thesis using up
    by (simp add: case_prod_beta propose_conf_eq Let_def split: conf_state.splits)
next
  case (Read r q)
  then show ?thesis using up
    by (simp add: raft_read_def broadcast_append_def Let_def caught_up_def)
qed (use up in \<open>simp_all add: take_ready_reads_def take_applied_def caught_up_def\<close>)

lemma caught_up_eq: "node_inv n \<Longrightarrow> caught_up n \<Longrightarrow> last_applied n = commit_index n"
  by (simp add: caught_up_def node_inv_def log_inv_def)

section \<open>A state machine with these laws\<close>

text \<open>
  \<open>SumSm\<close> of the driver's tests: it adds up \<open>i64\<close> commands and snapshots the total as eight
  little-endian bytes.  The total is kept as the two's complement word it is stored in.
\<close>

definition sum_sm :: "u64 state_machine" where
  "sum_sm =
     \<lparr>sm_apply = (\<lambda>total command.
        let total' = total + of_nat (le_value command) in (total', le_bytes 8 (unat total'))),
      sm_query = (\<lambda>total _. le_bytes 8 (unat total)),
      sm_snapshot = (\<lambda>total. le_bytes 8 (unat total)),
      sm_restore = (\<lambda>_ snapshot. of_nat (le_value snapshot))\<rparr>"

interpretation summing: snapshot_laws sum_sm
  by unfold_locales (simp_all add: sum_sm_def)

end
