(* ===== verification/Raft_Run.thy ===== *)
theory Raft_Run
  imports Raft_Props Raft_Apply
begin

text \<open>
  A concrete run of a group of three replicas up to the first elected leader, evaluated step
  by step; the properties of the engine are exercised on it.
\<close>

section \<open>A concrete deployment\<close>

text \<open>Three voters running \<open>sum_sm\<close> with the fixed election timeout 1.\<close>

definition run_cfg :: config where
  "run_cfg = \<lparr>election_timeout_min = 1, election_timeout_max = 1, heartbeat_interval = 1,
    snapshot_threshold = 0\<rparr>"

definition run_dep :: "u64 deployment" where
  "run_dep = \<lparr>d_sm = sum_sm, d_voters = [1, 2, 3], d_cfg = (\<lambda>_. run_cfg), d_init = 0\<rparr>"

abbreviation fresh_node :: "replica_id \<Rightarrow> u64 raft_node" where
  "fresh_node i \<equiv> raft_new i [1, 2, 3] run_cfg 0"

lemma reset_election_timer_fixed:
  assumes "election_timeout_max (cfg n) = election_timeout_min (cfg n)"
  shows "election_timeout (reset_election_timer n) = election_timeout_min (cfg n)"
    "election_elapsed (reset_election_timer n) = 0"
  using reset_election_timer_bounds [of n] assms by (simp_all add: cfg_ok_def)

lemma run_cfg_ok: "cfg_ok run_cfg"
  by (simp add: run_cfg_def cfg_ok_def)

lemma new_timer:
  "election_timeout (new_with_store i vs run_cfg s st) = 1"
  "election_elapsed (new_with_store i vs run_cfg s st) = 0"
  by (simp_all add: new_with_store_def Let_def reset_election_timer_fixed run_cfg_def)

lemma raft_new_node_inv: "node_inv (raft_new i vs c s)"
  by (simp add: raft_new_def node_inv_def log_inv_def hs_synced_def mem_invar_def mem_new_def
      load_hard_state_def base_index_def last_index_def default_hard_state_def)

lemma raft_new_coherent: "sm_coherent SM s (raft_new i vs c s)"
  by (simp add: raft_new_def sm_coherent_def applied_log_def base_state_def load_snapshot_def mem_new_def)

lemma raft_new_caught_up: "caught_up (raft_new i vs c s)"
  by (simp add: raft_new_def caught_up_def)

lemma raft_new_panicked: "cfg_ok c \<Longrightarrow> \<not> panicked (raft_new i vs c s)"
  by (simp add: raft_new_def new_with_store_def Let_def)

lemmas run_eval = raft_new_def Let_def case_prod_beta new_timer on_tick_def start_election_def
  sorted_ids_def sort_dedup_def persist_hard_state_def is_quorum_def maj_def peers_def
  last_log_index_def last_log_term_def mem_new_def last_index_def last_term_def base_index_def
  base_term_def save_hard_state_def handle_request_vote_def handle_request_vote_resp_def

text \<open>Replica 1 times out, replica 2 grants its vote, replica 1 becomes leader of term 1.\<close>

definition run_step1 :: "u64 raft_node \<times> out list" where
  "run_step1 = raft_step sum_sm Tick (fresh_node 1)"

definition run_step2 :: "u64 raft_node \<times> out list" where
  "run_step2 = raft_step sum_sm (Deliver 1 (RequestVote 1 1 0 0)) (fresh_node 2)"

definition run_step3 :: "u64 raft_node \<times> out list" where
  "run_step3 = raft_step sum_sm (Deliver 2 (RequestVoteResp 1 True)) (fst run_step1)"

definition run_net :: "u64 net" where
  "run_net = put_node 1 (fst run_step3) (snd run_step3) (put_node 2 (fst run_step2) (snd run_step2)
     (put_node 1 (fst run_step1) (snd run_step1) (net_init run_dep)))"

lemma run_step1_fields:
  "role (fst run_step1) = Candidate" "votes (fst run_step1) = {1}" "current_term (fst run_step1) = 1"
  "config (fst run_step1) = Simple [1, 2, 3]" "rn_id (fst run_step1) = 1"
  "(2, RequestVote 1 1 0 0) \<in> set (snd run_step1)"
  by (simp_all add: run_step1_def run_eval)

lemma run_step2_out: "(1, RequestVoteResp 1 True) \<in> set (snd run_step2)"
  by (simp add: run_step2_def run_eval)

lemma run_step3_fields:
  "role (fst run_step3) = Leader" "current_term (fst run_step3) = 1"
  by (simp_all add: run_step3_def handle_request_vote_resp_def run_step1_fields is_quorum_def maj_def Let_def)

lemma run_net_reach: "net_reach run_dep fixed_membership run_net"
proof -
  let ?N0 = "net_init run_dep"
  let ?N1 = "put_node 1 (fst run_step1) (snd run_step1) ?N0"
  let ?N2 = "put_node 2 (fst run_step2) (snd run_step2) ?N1"
  have nd0: "nd ?N0 i = fresh_node i" and sm0: "d_sm run_dep = sum_sm" for i
    by (simp_all add: net_init_def run_dep_def)
  have "net_step run_dep fixed_membership ?N0 ?N1"
    by (rule step_input [where inp = Tick]) (simp_all add: nd0 sm0 run_step1_def)
  moreover have "net_step run_dep fixed_membership ?N1 ?N2"
    by (rule step_input [where inp = "Deliver 1 (RequestVote 1 1 0 0)"])
      (use run_step1_fields(6) in \<open>simp_all add: nd0 sm0 run_step2_def\<close>)
  moreover have "net_step run_dep fixed_membership ?N2 run_net"
    unfolding run_net_def
    by (rule step_input [where inp = "Deliver 2 (RequestVoteResp 1 True)"])
      (use run_step2_out in \<open>simp_all add: nd0 sm0 run_step3_def\<close>)
  ultimately show ?thesis by (blast intro: net_reach.intros)
qed

lemma run_step1_store:
  "store (fst run_step1) =
     mem_new\<lparr>st_hard_state := \<lparr>hs_term = 1, hs_voted_for = Some 1, hs_commit_index = 0\<rparr>\<rparr>"
  "commit_index (fst run_step1) = 0"
  by (simp_all add: run_step1_def run_eval)

lemma run_step1_read: "read_seq (fst run_step1) = 0"
  by (simp add: run_step1_def run_eval new_with_store_def)

text \<open>The leader once it has appended its no-op, before it broadcasts.\<close>

definition run_leader :: "u64 raft_node" where
  "run_leader = fst (append_local Noop ((fst run_step1)\<lparr>votes := {2, 1}, role := Leader,
     leader_id := Some 1, heartbeat_elapsed := 0, next_index := [3 \<mapsto> 1, 2 \<mapsto> 1],
     match_index := [3 \<mapsto> 0, 2 \<mapsto> 0]\<rparr>))"

abbreviation run_noop :: entry where
  "run_noop \<equiv> \<lparr>e_term = 1, e_index = 1, e_payload = Noop\<rparr>"

lemma run_leader_fields:
  "store run_leader = (store (fst run_step1))\<lparr>log := [run_noop]\<rparr>"
  "config run_leader = Simple [1, 2, 3]" "rn_id run_leader = 1" "current_term run_leader = 1"
  "commit_index run_leader = 0" "read_seq run_leader = 0"
  "next_index run_leader = [3 \<mapsto> 1, 2 \<mapsto> 1]" "match_index run_leader = [3 \<mapsto> 0, 2 \<mapsto> 0]"
  by (simp_all add: run_leader_def append_local_def Let_def run_step1_store run_step1_fields
      run_step1_read append_entries_def last_log_index_def last_index_def mem_new_def)

lemma run_leader_peers: "peers run_leader = [2, 3]"
  by (simp add: peers_def run_leader_fields)

lemma run_leader_commit: "commit_target run_leader = None"
  by (simp add: commit_target_def commits_at_def acked_at_def is_quorum_def run_leader_peers
      run_leader_fields maj_def last_log_index_def last_index_def run_step1_store)

lemma run_step3_eq: "run_step3 = broadcast_append run_leader"
proof -
  let ?n = "(fst run_step1)\<lparr>votes := {2, 1}\<rparr>"
  let ?l = "?n\<lparr>role := Leader, leader_id := Some 1, heartbeat_elapsed := 0\<rparr>"
  have v: "insert 2 (votes (fst run_step1)) = {2, 1}" by (auto simp: run_step1_fields)
  have q: "is_quorum ?n {2, 1}" by (simp add: is_quorum_def run_step1_fields maj_def)
  have "run_step3 = become_leader sum_sm ?n"
    using q by (simp add: run_step3_def handle_request_vote_resp_def run_step1_fields v Let_def)
  also have "\<dots> = broadcast_append run_leader"
  proof -
    have p: "peers ?l = [2, 3]" by (simp add: peers_def run_step1_fields)
    have l: "last_log_index ?l = 0"
      by (simp add: last_log_index_def last_index_def run_step1_store mem_new_def)
    have "maybe_advance_commit sum_sm run_leader = run_leader"
      by (simp add: maybe_advance_commit_eq run_leader_commit)
    then show ?thesis
      unfolding become_leader_def Let_def run_leader_def using p l by (simp add: run_step1_fields)
  qed
  finally show ?thesis .
qed

lemma run_step3_out:
  "snd run_step3 = map (\<lambda>p. (p, AppendEntries 1 1 0 0 [run_noop] 0 1)) [2, 3]"
  by (simp add: run_step3_eq broadcast_append_def Let_def peers_def run_leader_fields append_for_def
      last_log_index_def last_index_def base_index_def run_step1_store mem_new_def store_entries_def
      term_at_def slot_def)

text \<open>A group of one: the replica elects itself and commits the command 5 at once.\<close>

definition solo_node :: "u64 raft_node" where
  "solo_node = fst (raft_step sum_sm (Propose (le_bytes 8 5))
     (fst (raft_step sum_sm Tick (raft_new 1 [1] run_cfg 0))))"

lemma solo_node_inv: "node_inv solo_node"
  unfolding solo_node_def by (intro raft_step_node_inv raft_new_node_inv) (simp_all only: input_wf.simps)

lemma solo_node_coherent: "sm_coherent sum_sm 0 solo_node"
  unfolding solo_node_def
  by (intro summing.raft_step_coherent raft_step_node_inv raft_new_node_inv raft_new_coherent)
    (simp_all only: input_wf.simps snapshot_fresh.simps)

lemma solo_node_caught_up: "caught_up solo_node"
  unfolding solo_node_def by (intro raft_step_caught_up raft_new_caught_up)

section \<open>A follower that a snapshot reaches late\<close>

text \<open>A follower receives two committed commands, 5 and 7, and applies both.\<close>

abbreviation add_entry :: "index \<Rightarrow> nat \<Rightarrow> entry" where
  "add_entry i v \<equiv> \<lparr>e_term = 1, e_index = i, e_payload = Command (le_bytes 8 v)\<rparr>"

definition late_append :: input where
  "late_append = Deliver 1 (AppendEntries 1 1 0 0 [add_entry 1 5, add_entry 2 7] 2 1)"

definition late_node :: "u64 raft_node" where
  "late_node = fst (raft_step sum_sm late_append (fresh_node 2))"

definition late_follower :: "u64 raft_node" where
  "late_follower = become_follower 1 (Some 1) (fresh_node 2)"

definition late_spliced :: "u64 raft_node" where
  "late_spliced = recompute_config (fold splice_entry [add_entry 1 5, add_entry 2 7] late_follower)"

lemma late_follower_fields:
  "store late_follower =
     mem_new\<lparr>st_hard_state := \<lparr>hs_term = 1, hs_voted_for = None, hs_commit_index = 0\<rparr>\<rparr>"
  "term_at late_follower 0 = Some 0"
  by (simp_all add: late_follower_def raft_new_def become_follower_def Let_def persist_hard_state_def
      save_hard_state_def term_at_def)

lemma late_spliced_fields:
  "store late_spliced = mem_new\<lparr>log := [add_entry 1 5, add_entry 2 7],
     st_hard_state := \<lparr>hs_term = 1, hs_voted_for = None, hs_commit_index = 0\<rparr>\<rparr>"
  "commit_index late_spliced = 0" "last_applied late_spliced = 0" "current_term late_spliced = 1"
  "cfg late_spliced = run_cfg" "voted_for late_spliced = None"
  by (simp add: late_spliced_def splice_entry_def late_follower_fields mem_new_def base_index_def
      term_at_def append_entries_def entry_term_def store_entry_def slot_def)
    (simp_all add: raft_new_def late_follower_def late_spliced_def become_follower_def Let_def)

lemma late_node_eq:
  "late_node = apply_committed sum_sm (persist_hard_state (late_spliced\<lparr>commit_index := 2\<rparr>))"
proof -
  have "\<not> 1 < current_term (fresh_node 2)" by (simp add: raft_new_def)
  moreover have "last_log_index late_spliced = 2"
    by (simp add: last_log_index_def last_index_def late_spliced_fields)
  ultimately show ?thesis
    unfolding late_node_def late_append_def raft_step.simps on_message.simps handle_append_entries_def
      Let_def late_follower_def [symmetric] late_follower_fields late_spliced_def [symmetric]
      late_spliced_fields
    by (simp only: if_False if_True option.case fst_conv) simp
qed

lemma late_node_fields:
  "last_applied late_node = 2" "current_term late_node = 1" "commit_index late_node = 2"
  "store late_node = mem_new\<lparr>log := [add_entry 1 5, add_entry 2 7],
     st_hard_state := \<lparr>hs_term = 1, hs_voted_for = None, hs_commit_index = 2\<rparr>\<rparr>"
proof -
  let ?m = "persist_hard_state (late_spliced\<lparr>commit_index := 2\<rparr>)"
  show "last_applied late_node = 2" "current_term late_node = 1" "commit_index late_node = 2"
    by (simp_all add: late_node_eq late_spliced_fields)
  have "store late_node = store ?m"
    by (simp add: late_node_eq apply_committed_def maybe_compact_def late_spliced_fields run_cfg_def
        Let_def del: upt_Suc)
  then show "store late_node = mem_new\<lparr>log := [add_entry 1 5, add_entry 2 7],
      st_hard_state := \<lparr>hs_term = 1, hs_voted_for = None, hs_commit_index = 2\<rparr>\<rparr>"
    by (simp add: persist_hard_state_def save_hard_state_def late_spliced_fields)
qed

lemma late_append_wf: "input_wf (fresh_node 2) late_append" "snapshot_fresh (fresh_node 2) late_append"
  by (simp_all add: agrees_def raft_new_def late_append_def)

lemma late_node_inv: "node_inv late_node"
  unfolding late_node_def by (rule raft_step_node_inv [OF raft_new_node_inv late_append_wf(1)])

lemma late_node_coherent: "sm_coherent sum_sm 0 late_node"
  unfolding late_node_def
  by (rule summing.raft_step_coherent [OF raft_new_node_inv late_append_wf raft_new_coherent])

lemma late_node_sm: "sm late_node = 12"
  using late_node_coherent
  by (simp add: sm_coherent_def applied_log_def late_node_fields base_index_def mem_new_def
      base_state_def load_snapshot_def replay_def sum_sm_def Let_def)

text \<open>Then the snapshot of index 1 (the total 5) arrives.\<close>

definition late_snapshot :: input where
  "late_snapshot = Deliver 1 (InstallSnapshot 1 1 1 1 (Simple [1, 2, 3]) (le_bytes 8 5) 2)"

definition late_after :: "u64 raft_node" where
  "late_after = fst (raft_step sum_sm late_snapshot late_node)"

definition late_again :: "u64 raft_node" where
  "late_again = become_follower 1 (Some 1) late_node"

lemma late_again_fields:
  "store late_again = store late_node" "last_applied late_again = 2" "commit_index late_again = 2"
  by (simp_all add: late_again_def late_node_fields become_follower_def Let_def)

lemma late_again_term: "term_at late_again 1 = Some 1"
  by (simp add: term_at_def late_again_fields late_node_fields base_index_def mem_new_def entry_term_def
      store_entry_def slot_def)

lemma late_after_fields:
  "sm late_after = 5" "last_applied late_after = 2" "base_index (store late_after) = 1"
  "log (store late_after) = [add_entry 2 7]" "snapshot_data (store late_after) = le_bytes 8 5"
  "has_snapshot (store late_after)"
proof -
  have nl: "\<not> 1 < current_term late_node" "\<not> 1 \<le> base_index (store late_again)"
    by (simp_all add: late_node_fields late_again_fields base_index_def mem_new_def)
  have eq: "late_after = recompute_config (persist_hard_state (late_again
      \<lparr>sm := sm_restore sum_sm (sm late_again) (le_bytes 8 5),
       store := save_snapshot (store late_again)
         \<lparr>last_included_index = 1, last_included_term = 1, snap_data = le_bytes 8 5\<rparr>,
       base_config := Simple [1, 2, 3], commit_index := max (commit_index late_again) 1,
       last_applied := max (last_applied late_again) 1\<rparr>))"
    unfolding late_after_def late_snapshot_def raft_step.simps on_message.simps
      handle_install_snapshot_def Let_def late_again_def [symmetric]
    using nl late_again_term by (simp only: if_False if_True fst_conv simp_thms)
  show "sm late_after = 5" "last_applied late_after = 2" "base_index (store late_after) = 1"
    "log (store late_after) = [add_entry 2 7]" "snapshot_data (store late_after) = le_bytes 8 5"
    "has_snapshot (store late_after)"
    unfolding eq
    by (simp_all add: sum_sm_def late_again_fields late_node_fields persist_hard_state_def
        save_hard_state_def save_snapshot_def base_index_def snapshot_data_def mem_new_def)
qed

lemma late_after_incoherent: "\<not> sm_coherent sum_sm 0 late_after"
  using late_after_fields
  by (simp add: sm_coherent_def applied_log_def base_state_def load_snapshot_def replay_def sum_sm_def
      snapshot_data_def Let_def)

lemma late_snapshot_wf: "input_wf late_node late_snapshot"
  by (simp add: late_snapshot_def late_node_fields term_at_def base_index_def mem_new_def entry_term_def
      store_entry_def slot_def)

end
