(* ===== verification/Raft_Claims.thy ===== *)
theory Raft_Claims
  imports Raft_Run
begin

text \<open>
  The properties of the Raft engine, each with a concrete run or node on which its
  hypotheses hold.
\<close>

section \<open>Elections\<close>

text \<open>
  C1: election safety.  Whatever the network loses, delays, duplicates or reorders, and however
  often replicas crash and restart from their stores, at most one replica is ever leader of a
  given term, over the whole history of a run in which the membership is not changed.
\<close>

theorem election_safety:
  assumes "net_reach D fixed_membership N" "(t, a) \<in> elected N" "(t, b) \<in> elected N"
  shows "a = b"
  using elected_unique [OF net_reach_elect_inv [OF assms(1)] assms(2,3)] .

theorem election_safety_witness:
  "net_reach run_dep fixed_membership run_net \<and> (1, 1) \<in> elected run_net \<and>
   {b. (1, b) \<in> elected run_net} = {1}"
proof -
  have "(1, 1) \<in> elected run_net" by (simp add: run_net_def run_step3_fields)
  then show ?thesis using run_net_reach election_safety [OF run_net_reach, of 1 _ 1] by blast
qed



section \<open>One replica\<close>











text \<open>
  C8: a snapshot that arrives late undoes applied commands.  A follower that has applied the
  committed commands 5 and 7 (total 12) and then receives the leader's older snapshot of index 1
  (total 5) restores the total 5 but keeps \<open>last_applied = 2\<close>, so the command 7 is lost from its
  state machine although it is still in its log: replaying the log no longer gives the state.
\<close>

theorem late_snapshot_loses_commands:
  "node_inv late_node \<and> sm_coherent sum_sm 0 late_node \<and> input_wf late_node late_snapshot
   \<and> sm late_node = 12 \<and> last_applied late_node = 2
   \<and> (let n' = fst (raft_step sum_sm late_snapshot late_node)
      in sm n' = 5 \<and> last_applied n' = 2 \<and> log (store n') = [add_entry 2 7]
       \<and> \<not> sm_coherent sum_sm 0 n')"
  unfolding late_after_def [symmetric] Let_def
  by (intro conjI late_node_inv late_node_coherent late_snapshot_wf late_node_sm late_node_fields(1)
      late_after_fields(1,2,4) late_after_incoherent)

text \<open>
  C9: the commit rule.  \<open>maybe_advance_commit\<close> on a leader moves the commit index to the largest
  index above it that holds an entry of the current term and is acknowledged by a quorum of the
  active configuration, and leaves it alone when there is none.
\<close>

theorem commit_rule:
  assumes "role n = Leader"
  shows "let c = commit_index (maybe_advance_commit SM n);
      ok = (\<lambda>i. term_at n i = Some (current_term n) \<and> is_quorum n (acked_at n i))
    in (c = commit_index n \<or> commit_index n < c \<and> c \<le> last_log_index n \<and> ok c)
     \<and> (\<forall>i > c. i \<le> last_log_index n \<longrightarrow> \<not> ok i)"
proof -
  let ?is = "[Suc (commit_index n)..<Suc (last_log_index n)]"
  let ?c = "commit_index (maybe_advance_commit SM n)"
  have c: "?c = (case commit_target n of None \<Rightarrow> commit_index n | Some i \<Rightarrow> i)"
    using assms by (simp add: maybe_advance_commit_eq split: option.split)
  have le: "commit_index n \<le> ?c"
    using c commit_target_SomeD(1) [of n] by (auto split: option.split simp: less_imp_le)
  have max: "\<not> commits_at n i" if i: "?c < i" "i \<le> last_log_index n" for i
  proof
    assume "commits_at n i"
    then have m: "i \<in> set (filter (commits_at n) ?is)" using i le by (simp del: upt_Suc)
    then have ne: "filter (commits_at n) ?is \<noteq> []" by (metis empty_iff empty_set)
    have "sorted (filter (commits_at n) ?is)" by (intro sorted_wrt_filter sorted_upt)
    then have "i \<le> last (filter (commits_at n) ?is)" using m by (rule sorted_le_last)
    then show False using i(1) c ne by (simp add: commit_target_def Let_def del: upt_Suc)
  qed
  have "?c = commit_index n \<or> commit_index n < ?c \<and> ?c \<le> last_log_index n \<and> commits_at n ?c"
    using c commit_target_SomeD by (cases "commit_target n") auto
  then show ?thesis using max unfolding Let_def commits_at_def by blast
qed

theorem commit_rule_witness:
  "role run_leader = Leader \<and> commit_index (maybe_advance_commit sum_sm run_leader) = 0"
proof -
  have r: "role run_leader = Leader" by (simp add: run_leader_def append_local_def Let_def)
  let ?c = "commit_index (maybe_advance_commit sum_sm run_leader)"
  have "last_log_index run_leader = 1"
    by (simp add: last_log_index_def last_index_def run_leader_fields)
  moreover have "\<not> is_quorum run_leader (acked_at run_leader 1)"
    by (simp add: is_quorum_def acked_at_def run_leader_peers run_leader_fields maj_def)
  ultimately have "?c \<noteq> 1 \<and> ?c \<le> 1"
    using commit_rule [OF r, of sum_sm] by (auto simp: Let_def run_leader_fields)
  then show ?thesis using r by simp
qed





text \<open>
  C12: the randomised election timeout stays in its configured range, for every state of the
  generator, although it is computed with wrapping 32- and 64-bit arithmetic.
\<close>

theorem election_timeout_in_range:
  assumes "election_timeout_min (cfg n) \<le> election_timeout_max (cfg n)"
    and "election_timeout_max (cfg n) - election_timeout_min (cfg n) \<noteq> - 1"
  shows "election_timeout_min (cfg n) \<le> election_timeout (reset_election_timer n)
    \<and> election_timeout (reset_election_timer n) \<le> election_timeout_max (cfg n)"
proof -
  have "cfg_ok (cfg n)" using assms(2) by (simp add: cfg_ok_def eq_neg_iff_add_eq_0)
  then show ?thesis using reset_election_timer_bounds [OF assms(1)] by blast
qed

theorem election_timeout_in_range_witness:
  "let n = raft_new 7 [7] default_config (0 :: u64)
   in 5 \<le> election_timeout (reset_election_timer n) \<and> election_timeout (reset_election_timer n) \<le> 10"
proof -
  have c: "cfg (raft_new 7 [7] default_config (0 :: u64)) = default_config" by (simp add: raft_new_def)
  from election_timeout_in_range [of "raft_new 7 [7] default_config (0 :: u64)"]
  show ?thesis unfolding c Let_def by (simp add: default_config_def)
qed

text \<open>
  C13: membership changes cannot split the group.  A quorum of a joint configuration shares a
  voter with every quorum of the old and with every quorum of the new configuration, so no two
  disjoint majorities decide while the group moves from one to the other.
\<close>

theorem joint_quorums_meet:
  assumes "conf_is_quorum (Joint (sorted_ids old) (sorted_ids new)) A"
  shows "(conf_is_quorum (Simple (sorted_ids old)) B \<longrightarrow> (\<exists>v \<in> set old. v \<in> A \<and> v \<in> B))
    \<and> (conf_is_quorum (Simple (sorted_ids new)) B \<longrightarrow> (\<exists>v \<in> set new. v \<in> A \<and> v \<in> B))"
  using assms simple_conf.quorum_meet [of old A B] simple_conf.quorum_meet [of new A B] by simp

theorem joint_quorums_meet_witness:
  "conf_is_quorum (Joint (sorted_ids [1, 2, 3]) (sorted_ids [3, 4, 5])) {2, 3, 4} \<and>
   (\<exists>v \<in> set [1, 2, 3 :: nat]. v \<in> {2, 3, 4} \<and> v \<in> {1, 3})"
proof -
  have q: "conf_is_quorum (Joint (sorted_ids [1, 2, 3]) (sorted_ids [3, 4, 5])) {2, 3, 4}"
    "conf_is_quorum (Simple (sorted_ids [1, 2, 3])) {1, 3}"
    by (simp_all add: sorted_ids_def sort_dedup_def maj_def)
  show ?thesis by (rule conjI [OF q(1) mp [OF conjunct1 [OF joint_quorums_meet [OF q(1)]] q(2)]])
qed

text \<open>
  C14: the log store is a finite map from indices to entries.  On a well-formed store, appending
  adds the new entries behind the last index, truncating forgets everything from an index on,
  and saving a snapshot hides what it covers; every other lookup is unchanged.
\<close>

theorem store_refines_map:
  assumes "mem_invar s" "contiguous (last_index s) es" "base_index s \<le> last_included_index m"
  shows "store_entry (append_entries s es) i =
      (if last_index s < i \<and> i \<le> last_index s + length es then Some (es ! (i - last_index s - 1))
       else store_entry s i)
    \<and> store_entry (truncate_suffix s k) i = (if i < k then store_entry s i else None)
    \<and> store_entry (save_snapshot s m) i = (if last_included_index m < i then store_entry s i else None)
    \<and> mem_invar (append_entries s es) \<and> mem_invar (truncate_suffix s k) \<and> mem_invar (save_snapshot s m)"
  by (intro conjI mem.entry_of_append [OF assms(1,2)] mem.entry_of_truncate
      mem.entry_of_save_snap [OF assms(1,3)] mem.append_invar [OF assms(1,2)]
      mem.truncate_invar [OF assms(1)] mem.save_snap_invar [OF assms(1,3)])

theorem store_refines_map_witness:
  "store_entry (append_entries mem_new [run_noop]) 1 = Some run_noop"
proof -
  have "mem_invar mem_new" "contiguous (last_index mem_new) [run_noop]"
    "base_index mem_new \<le> last_included_index \<lparr>last_included_index = 0, last_included_term = 0, snap_data = []\<rparr>"
    by (simp_all add: mem_new_def mem_invar_def last_index_def base_index_def)
  from conjunct1 [OF store_refines_map [OF this, of 1 1]] show ?thesis
    by (simp add: mem_new_def last_index_def)
qed

end
