(* ===== verification/Btree_Map.thy ===== *)
theory Btree_Map
  imports Prelude
begin

text \<open>
  The ordered map of the Rust standard library (\<open>std::collections::BTreeMap\<close>) as the list of
  its entries in ascending key order, which is also the order its iterators visit them.
\<close>

type_synonym ('k, 'v) btree = "('k \<times> 'v) list"

definition bt_get :: "('k, 'v) btree \<Rightarrow> 'k \<Rightarrow> 'v option" where
  "bt_get m k = map_of m k"

fun bt_insert :: "'k::linorder \<Rightarrow> 'v \<Rightarrow> ('k, 'v) btree \<Rightarrow> ('k, 'v) btree" where
  "bt_insert k v [] = [(k, v)]"
| "bt_insert k v ((k', v') # m) =
     (if k < k' then (k, v) # (k', v') # m
      else if k = k' then (k, v) # m
      else (k', v') # bt_insert k v m)"

definition bt_remove :: "'k \<Rightarrow> ('k, 'v) btree \<Rightarrow> ('k, 'v) btree" where
  "bt_remove k m = filter (\<lambda>p. fst p \<noteq> k) m"

definition bt_keys :: "('k, 'v) btree \<Rightarrow> 'k list" where
  "bt_keys m = map fst m"

text \<open>The entries are in strictly ascending key order.\<close>

definition bt_inv :: "('k::linorder, 'v) btree \<Rightarrow> bool" where
  "bt_inv m \<longleftrightarrow> sorted_wrt (<) (map fst m)"

lemma bt_get_Nil [simp]: "bt_get [] k = None"
  by (simp add: bt_get_def)

lemma bt_inv_Nil [simp]: "bt_inv []"
  by (simp add: bt_inv_def)

lemma set_bt_insert: "fst ` set (bt_insert k v m) = insert k (fst ` set m)"
  by (induction k v m rule: bt_insert.induct) (simp_all add: insert_commute)

lemma bt_get_insert [simp]: "bt_get (bt_insert k v m) = (bt_get m)(k \<mapsto> v)"
  by (induction m) (auto simp: bt_get_def fun_eq_iff)

lemma bt_get_remove [simp]: "bt_get (bt_remove k m) = (bt_get m)(k := None)"
  by (induction m) (auto simp: bt_get_def bt_remove_def fun_eq_iff)

lemma bt_inv_insert [simp]:
  assumes "bt_inv m"
  shows "bt_inv (bt_insert k v m)"
  using assms unfolding bt_inv_def
proof (induction m)
  case (Cons p m)
  then have "\<forall>x \<in> fst ` set (bt_insert k v m). fst p < x" if "fst p < k"
    using that by (simp add: set_bt_insert)
  with Cons show ?case by (cases p) (auto simp: not_less dest: order.strict_trans)
qed simp

lemma bt_inv_remove [simp]: "bt_inv m \<Longrightarrow> bt_inv (bt_remove k m)"
  by (induction m) (auto simp: bt_inv_def bt_remove_def)

lemma bt_inv_distinct: "bt_inv m \<Longrightarrow> distinct (map fst m)"
  by (simp add: bt_inv_def strict_sorted_iff)

lemma bt_mem_iff: "bt_inv m \<Longrightarrow> (k, v) \<in> set m \<longleftrightarrow> bt_get m k = Some v"
  by (simp add: bt_get_def bt_inv_distinct)

lemma bt_keys_iff: "k \<in> set (bt_keys m) \<longleftrightarrow> bt_get m k \<noteq> None"
  by (simp add: bt_keys_def bt_get_def map_of_eq_None_iff)

end
