(* ===== verification/Sim.thy ===== *)
theory Sim
  imports Btree_Map
begin

text \<open>
  The deterministic cluster harness of \<open>crates/cs-consensus/src/sim.rs\<close>: a set of nodes, a
  FIFO network with partitions, ticks and deliveries.  A node is whatever implements the trait
  \<open>SimNode\<close>; here a record of its operations.  An operation returns \<open>None\<close> where the source
  panics: an unknown replica, a node that panics, or more deliveries than \<open>max_deliveries\<close>.

  The locale \<open>simulates\<close> states when the nodes of a cluster run a protocol: each tick and each
  delivery is a move of an abstract network.  Every operation of the harness then is a
  sequence of moves of that network, so what is proved of the network holds of the cluster.
\<close>

section \<open>The harness\<close>

record ('n, 'm) sim_node =
  sim_id :: "'n \<Rightarrow> nat"
  sim_tick :: "'n \<Rightarrow> ('n \<times> (nat \<times> 'm) list) option"
  sim_message :: "nat \<Rightarrow> 'm \<Rightarrow> 'n \<Rightarrow> ('n \<times> (nat \<times> 'm) list) option"

record ('n, 'm) cluster =
  nodes :: "(nat, 'n) btree"
  inflight :: "(nat \<times> nat \<times> 'm) list"
  isolated :: "nat set"
  max_deliveries :: nat

definition cluster_new :: "('n, 'm) sim_node \<Rightarrow> 'n list \<Rightarrow> ('n, 'm) cluster" where
  "cluster_new S ns =
     \<lparr>nodes = fold (\<lambda>n. bt_insert (sim_id S n) n) ns [], inflight = [], isolated = {},
      max_deliveries = 100000\<rparr>"

definition cluster_ids :: "('n, 'm) cluster \<Rightarrow> nat list" where
  "cluster_ids C = bt_keys (nodes C)"

definition cluster_node :: "('n, 'm) cluster \<Rightarrow> nat \<Rightarrow> 'n option" where
  "cluster_node C i = bt_get (nodes C) i"

definition isolate :: "nat \<Rightarrow> ('n, 'm) cluster \<Rightarrow> ('n, 'm) cluster" where
  "isolate i C = C\<lparr>isolated := insert i (isolated C)\<rparr>"

definition heal :: "nat \<Rightarrow> ('n, 'm) cluster \<Rightarrow> ('n, 'm) cluster" where
  "heal i C = C\<lparr>isolated := isolated C - {i}\<rparr>"

definition link_up :: "('n, 'm) cluster \<Rightarrow> nat \<Rightarrow> nat \<Rightarrow> bool" where
  "link_up C f t \<longleftrightarrow> f \<notin> isolated C \<and> t \<notin> isolated C"

definition enqueue :: "nat \<Rightarrow> (nat \<times> 'm) list \<Rightarrow> ('n, 'm) cluster \<Rightarrow> ('n, 'm) cluster" where
  "enqueue f outs C =
     fold (\<lambda>(t, m) C. if bt_get (nodes C) t \<noteq> None \<and> link_up C f t
                      then C\<lparr>inflight := inflight C @ [(f, t, m)]\<rparr> else C) outs C"

definition act :: "nat \<Rightarrow> ('n \<Rightarrow> 'n \<times> 'r \<times> (nat \<times> 'm) list) \<Rightarrow> ('n, 'm) cluster \<Rightarrow> (('n, 'm) cluster \<times> 'r) option" where
  "act i f C =
     (case bt_get (nodes C) i of
        None \<Rightarrow> None
      | Some n \<Rightarrow> let (n', r, outs) = f n
                  in Some (enqueue i outs (C\<lparr>nodes := bt_insert i n' (nodes C)\<rparr>), r))"

text \<open>\<open>tick_all\<close> collects the ids first and then visits them in ascending order.\<close>

fun tick_ids :: "('n, 'm) sim_node \<Rightarrow> nat list \<Rightarrow> ('n, 'm) cluster \<Rightarrow> ('n, 'm) cluster option" where
  "tick_ids S [] C = Some C"
| "tick_ids S (i # is) C =
     (case bt_get (nodes C) i of
        None \<Rightarrow> None
      | Some n \<Rightarrow>
          (case sim_tick S n of
             None \<Rightarrow> None
           | Some (n', outs) \<Rightarrow> tick_ids S is (enqueue i outs (C\<lparr>nodes := bt_insert i n' (nodes C)\<rparr>))))"

definition tick_all :: "('n, 'm) sim_node \<Rightarrow> ('n, 'm) cluster \<Rightarrow> ('n, 'm) cluster option" where
  "tick_all S C = tick_ids S (cluster_ids C) C"

lemma enqueue_fields [simp]:
  "nodes (enqueue f outs C) = nodes C" "isolated (enqueue f outs C) = isolated C"
  "max_deliveries (enqueue f outs C) = max_deliveries C"
  unfolding enqueue_def by (induction outs arbitrary: C) (auto simp: split_def)

function deliver_from :: "('n, 'm) sim_node \<Rightarrow> nat \<Rightarrow> ('n, 'm) cluster \<Rightarrow> (('n, 'm) cluster \<times> nat) option" where
  "deliver_from S delivered C =
     (case inflight C of
        [] \<Rightarrow> Some (C, delivered)
      | (f, t, m) # rest \<Rightarrow>
          let C1 = C\<lparr>inflight := rest\<rparr>; delivered' = delivered + 1
          in if \<not> delivered' \<le> max_deliveries C then None
             else if \<not> link_up C1 f t then deliver_from S delivered' C1
             else case bt_get (nodes C1) t of
                    None \<Rightarrow> None
                  | Some n \<Rightarrow>
                      (case sim_message S f m n of
                         None \<Rightarrow> None
                       | Some (n', outs) \<Rightarrow>
                           deliver_from S delivered' (enqueue t outs (C1\<lparr>nodes := bt_insert t n' (nodes C1)\<rparr>))))"
  by pat_completeness auto
termination
  by (relation "measure (\<lambda>(S, delivered, C). max_deliveries C - delivered)") auto

declare deliver_from.simps [simp del]

definition deliver_all :: "('n, 'm) sim_node \<Rightarrow> ('n, 'm) cluster \<Rightarrow> (('n, 'm) cluster \<times> nat) option" where
  "deliver_all S C = deliver_from S 0 C"

definition cluster_step :: "('n, 'm) sim_node \<Rightarrow> ('n, 'm) cluster \<Rightarrow> ('n, 'm) cluster option" where
  "cluster_step S C = Option.bind (tick_all S C) (\<lambda>C1. map_option fst (deliver_all S C1))"

primrec cluster_run :: "('n, 'm) sim_node \<Rightarrow> nat \<Rightarrow> ('n, 'm) cluster \<Rightarrow> ('n, 'm) cluster option" where
  "cluster_run S 0 C = Some C"
| "cluster_run S (Suc rounds) C = Option.bind (cluster_step S C) (cluster_run S rounds)"

section \<open>Quiescence and the bound on deliveries\<close>

lemma deliver_from_quiet:
  "deliver_from S d C = Some (C', k) \<Longrightarrow> inflight C' = [] \<and> k \<le> max d (max_deliveries C) \<and> d \<le> k \<and>
     isolated C' = isolated C \<and> max_deliveries C' = max_deliveries C"
proof (induction S d C arbitrary: C' k rule: deliver_from.induct)
  case (1 S d C)
  show ?case
  proof (cases "inflight C")
    case Nil
    then show ?thesis using "1.prems" by (subst (asm) deliver_from.simps) auto
  next
    case (Cons p rest)
    obtain f t m where p: "p = (f, t, m)" by (cases p)
    let ?C1 = "C\<lparr>inflight := rest\<rparr>"
    have le: "d + 1 \<le> max_deliveries C"
      using "1.prems" Cons p by (subst (asm) deliver_from.simps) (auto simp: Let_def split: if_splits)
    show ?thesis
    proof (cases "link_up ?C1 f t")
      case False
      then have "deliver_from S (d + 1) ?C1 = Some (C', k)"
        using "1.prems" Cons p le by (subst (asm) deliver_from.simps) (simp add: Let_def)
      from "1.IH"(1) [OF Cons p [symmetric] refl refl refl _ False this] le show ?thesis by simp
    next
      case True
      from "1.prems" Cons p le True obtain n n' outs where n: "bt_get (nodes ?C1) t = Some n"
        "sim_message S f m n = Some (n', outs)"
        "deliver_from S (d + 1) (enqueue t outs (?C1\<lparr>nodes := bt_insert t n' (nodes ?C1)\<rparr>)) = Some (C', k)"
        by (subst (asm) deliver_from.simps) (auto simp: Let_def split: option.splits)
      from "1.IH"(2) [OF Cons p [symmetric] refl refl refl _ _ n(1) n(2) refl n(3)] le True show ?thesis by simp
    qed
  qed
qed

section \<open>A cluster runs a protocol\<close>

locale simulates =
  fixes S :: "('n, 'm) sim_node" and reach :: "'w \<Rightarrow> bool"
    and rel :: "(nat, 'n) btree \<Rightarrow> (nat \<times> nat \<times> 'm) list \<Rightarrow> 'w \<Rightarrow> bool"
  assumes rel_tick: "reach w \<Longrightarrow> rel ns fl w \<Longrightarrow> bt_get ns i = Some n \<Longrightarrow> sim_tick S n = Some (n', outs) \<Longrightarrow>
      \<exists>w'. reach w' \<and> rel (bt_insert i n' ns) (fl @ map (\<lambda>(t, m). (i, t, m)) outs) w'"
    and rel_message: "reach w \<Longrightarrow> rel ns ((f, t, m) # fl) w \<Longrightarrow> bt_get ns t = Some n \<Longrightarrow>
      sim_message S f m n = Some (n', outs) \<Longrightarrow>
      \<exists>w'. reach w' \<and> rel (bt_insert t n' ns) (fl @ map (\<lambda>(u, m). (t, u, m)) outs) w'"
    and rel_lose: "reach w \<Longrightarrow> rel ns (a @ p # b) w \<Longrightarrow> \<exists>w'. reach w' \<and> rel ns (a @ b) w'"
begin

definition simulated :: "('n, 'm) cluster \<Rightarrow> bool" where
  "simulated C \<longleftrightarrow> (\<exists>w. reach w \<and> rel (nodes C) (inflight C) w)"

text \<open>\<open>enqueue\<close> sends the outputs and loses some of them.\<close>

lemma enqueue_simulated:
  assumes "reach w" "rel (nodes C) (inflight C @ map (\<lambda>(t, m). (f, t, m)) outs) w"
  shows "simulated (enqueue f outs C)"
  using assms
proof (induction outs arbitrary: C w)
  case Nil
  then show ?case by (auto simp: enqueue_def simulated_def)
next
  case (Cons x outs)
  obtain t m where o: "x = (t, m)" by (cases x)
  let ?rest = "map (\<lambda>(t, m). (f, t, m)) outs"
  show ?case
  proof (cases "bt_get (nodes C) t \<noteq> None \<and> link_up C f t")
    case True
    let ?C = "C\<lparr>inflight := inflight C @ [(f, t, m)]\<rparr>"
    have "rel (nodes ?C) (inflight ?C @ ?rest) w" using Cons.prems(2) o by simp
    from Cons.IH [OF Cons.prems(1) this] show ?thesis using True o by (simp add: enqueue_def)
  next
    case False
    have "rel (nodes C) (inflight C @ (f, t, m) # ?rest) w" using Cons.prems(2) o by simp
    from rel_lose [OF Cons.prems(1) this] obtain w' where "reach w'" "rel (nodes C) (inflight C @ ?rest) w'" by blast
    from Cons.IH [OF this] show ?thesis using False o by (auto simp: enqueue_def)
  qed
qed

lemma act_simulated:
  assumes C: "simulated C"
    and f: "\<And>w ns fl n n' r outs. reach w \<Longrightarrow> rel ns fl w \<Longrightarrow> bt_get ns i = Some n \<Longrightarrow> f n = (n', r, outs) \<Longrightarrow>
      \<exists>w'. reach w' \<and> rel (bt_insert i n' ns) (fl @ map (\<lambda>(t, m). (i, t, m)) outs) w'"
    and a: "act i f C = Some (C', r)"
  shows "simulated C'"
proof -
  obtain w where w: "reach w" "rel (nodes C) (inflight C) w" using C by (auto simp: simulated_def)
  obtain n n' outs where n: "bt_get (nodes C) i = Some n" "f n = (n', r, outs)"
    "C' = enqueue i outs (C\<lparr>nodes := bt_insert i n' (nodes C)\<rparr>)"
    using a by (auto simp: act_def Let_def split: option.splits prod.splits)
  from f [OF w n(1,2)] obtain w' where "reach w'"
    "rel (bt_insert i n' (nodes C)) (inflight C @ map (\<lambda>(t, m). (i, t, m)) outs) w'" by blast
  then show ?thesis unfolding n(3) by (intro enqueue_simulated [of w']) simp_all
qed

lemma tick_ids_simulated: "simulated C \<Longrightarrow> tick_ids S is C = Some C' \<Longrightarrow> simulated C'"
proof (induction "is" arbitrary: C)
  case (Cons i "is")
  obtain w where w: "reach w" "rel (nodes C) (inflight C) w" using Cons.prems(1) by (auto simp: simulated_def)
  obtain n n' outs where n: "bt_get (nodes C) i = Some n" "sim_tick S n = Some (n', outs)"
    "tick_ids S is (enqueue i outs (C\<lparr>nodes := bt_insert i n' (nodes C)\<rparr>)) = Some C'"
    using Cons.prems(2) by (auto simp: Let_def split: option.splits prod.splits)
  from rel_tick [OF w n(1,2)] obtain w' where "reach w'"
    "rel (bt_insert i n' (nodes C)) (inflight C @ map (\<lambda>(t, m). (i, t, m)) outs) w'" by blast
  then have "simulated (enqueue i outs (C\<lparr>nodes := bt_insert i n' (nodes C)\<rparr>))"
    by (intro enqueue_simulated [of w']) simp_all
  from Cons.IH [OF this n(3)] show ?case .
qed simp

lemma deliver_from_simulated: "simulated C \<Longrightarrow> deliver_from S d C = Some (C', k) \<Longrightarrow> simulated C'"
proof (induction "max_deliveries C - d" arbitrary: d C rule: less_induct)
  case less
  obtain w where w: "reach w" "rel (nodes C) (inflight C) w" using less.prems(1) by (auto simp: simulated_def)
  show ?case
  proof (cases "inflight C")
    case Nil
    then show ?thesis using less.prems by (subst (asm) deliver_from.simps) auto
  next
    case (Cons p rest)
    obtain f t m where p: "p = (f, t, m)" by (cases p)
    let ?C1 = "C\<lparr>inflight := rest\<rparr>"
    have le: "d + 1 \<le> max_deliveries C"
      using less.prems(2) Cons p by (subst (asm) deliver_from.simps) (auto simp: Let_def split: if_splits)
    show ?thesis
    proof (cases "link_up ?C1 f t")
      case False
      have "deliver_from S (d + 1) ?C1 = Some (C', k)"
        using less.prems(2) Cons p le False by (subst (asm) deliver_from.simps) (simp add: Let_def)
      moreover have "simulated ?C1"
        using rel_lose [OF w(1), of "nodes C" "[]" p rest] w(2) Cons by (auto simp: simulated_def)
      ultimately show ?thesis using less.hyps [of ?C1 "d + 1"] le by simp
    next
      case True
      from less.prems(2) Cons p le True obtain n n' outs where n: "bt_get (nodes ?C1) t = Some n"
        "sim_message S f m n = Some (n', outs)"
        "deliver_from S (d + 1) (enqueue t outs (?C1\<lparr>nodes := bt_insert t n' (nodes ?C1)\<rparr>)) = Some (C', k)"
        by (subst (asm) deliver_from.simps) (auto simp: Let_def split: option.splits)
      have "rel (nodes C) ((f, t, m) # rest) w" using w(2) Cons p by simp
      from rel_message [OF w(1) this _ n(2)] n(1) obtain w' where "reach w'"
        "rel (bt_insert t n' (nodes C)) (rest @ map (\<lambda>(u, m). (t, u, m)) outs) w'" by auto
      then have "simulated (enqueue t outs (?C1\<lparr>nodes := bt_insert t n' (nodes ?C1)\<rparr>))"
        by (intro enqueue_simulated [of w']) simp_all
      from less.hyps [OF _ this n(3)] show ?thesis using le by simp
    qed
  qed
qed

lemma cluster_run_simulated: "simulated C \<Longrightarrow> cluster_run S rounds C = Some C' \<Longrightarrow> simulated C'"
proof (induction rounds arbitrary: C)
  case (Suc rounds)
  then obtain C1 C2 k where "tick_ids S (cluster_ids C) C = Some C1" "deliver_from S 0 C1 = Some (C2, k)"
    "cluster_run S rounds C2 = Some C'"
    by (auto simp: cluster_step_def tick_all_def deliver_all_def split: Option.bind_splits)
  then show ?case using Suc.prems(1) tick_ids_simulated deliver_from_simulated Suc.IH by blast
qed simp

end

end
