(* ===== verification/Raft_Cluster.thy ===== *)
theory Raft_Cluster
  imports Raft_Claims Sim
begin

text \<open>
  Raft replicas in the cluster harness.  A script of harness calls (rounds of ticks and
  deliveries, partitions, client calls) is a run of the network model, so its safety
  properties hold of every cluster the harness can produce.
\<close>

section \<open>The nodes\<close>

definition not_panicked :: "'s raft_node \<times> out list \<Rightarrow> ('s raft_node \<times> out list) option" where
  "not_panicked r = (if panicked (fst r) then None else Some r)"

text \<open>\<open>impl SimNode for RaftNode\<close>.\<close>

definition raft_sim :: "'s state_machine \<Rightarrow> ('s raft_node, message) sim_node" where
  "raft_sim SM =
     \<lparr>sim_id = rn_id, sim_tick = (\<lambda>n. not_panicked (on_tick SM n)),
      sim_message = (\<lambda>f m n. not_panicked (on_message SM f m n))\<rparr>"

datatype harness_call =
    Rounds nat
  | Isolate replica_id
  | Heal replica_id
  | Call replica_id input

text \<open>What a test does: \<open>run\<close>, \<open>isolate\<close>, \<open>heal\<close>, and \<open>act\<close> with a call of the node's interface.\<close>

fun harness :: "'s state_machine \<Rightarrow> harness_call \<Rightarrow> ('s raft_node, message) cluster \<Rightarrow>
    ('s raft_node, message) cluster option" where
  "harness SM (Rounds k) C = cluster_run (raft_sim SM) k C"
| "harness SM (Isolate i) C = Some (isolate i C)"
| "harness SM (Heal i) C = Some (heal i C)"
| "harness SM (Call i inp) C =
     map_option fst (act i (\<lambda>n. let (n', outs) = raft_step SM inp n in (n', (), outs)) C)"

primrec script :: "'s state_machine \<Rightarrow> harness_call list \<Rightarrow> ('s raft_node, message) cluster \<Rightarrow>
    ('s raft_node, message) cluster option" where
  "script SM [] C = Some C"
| "script SM (h # hs) C = Option.bind (harness SM h C) (script SM hs)"

text \<open>A client calls the interface but delivers no messages of its own.\<close>

fun client_call :: "(input \<Rightarrow> bool) \<Rightarrow> harness_call \<Rightarrow> bool" where
  "client_call ok (Call i (Deliver f m)) = False"
| "client_call ok (Call i inp) = ok inp"
| "client_call ok h = True"

definition raft_cluster :: "'s deployment \<Rightarrow> ('s raft_node, message) cluster" where
  "raft_cluster D =
     cluster_new (raft_sim (d_sm D)) (map (\<lambda>i. raft_new i (d_voters D) (d_cfg D i) (d_init D)) (d_voters D))"

section \<open>The harness runs the network\<close>

definition raft_rel :: "(nat, 's raft_node) btree \<Rightarrow> (nat \<times> nat \<times> message) list \<Rightarrow> 's net \<Rightarrow> bool" where
  "raft_rel ns fl N \<longleftrightarrow> (\<forall>i n. bt_get ns i = Some n \<longrightarrow> nd N i = n) \<and> set fl \<subseteq> soup N"

lemma raft_rel_put:
  "raft_rel ns fl N \<Longrightarrow> set fl' \<subseteq> set fl \<Longrightarrow>
     raft_rel (bt_insert i n' ns) (fl' @ map (\<lambda>(t, m). (i, t, m)) outs) (put_node i n' outs N)"
  by (auto simp: raft_rel_def)

lemma raft_rel_step:
  assumes "net_reach D ok N" "raft_rel ns fl N" "bt_get ns i = Some n" "ok inp" "set fl' \<subseteq> set fl"
    and "raft_step (d_sm D) inp n = (n', outs)" "\<And>f m. inp = Deliver f m \<Longrightarrow> (f, i, m) \<in> set fl"
  shows "\<exists>N'. net_reach D ok N' \<and> raft_rel (bt_insert i n' ns) (fl' @ map (\<lambda>(t, m). (i, t, m)) outs) N'"
proof (intro exI conjI)
  have "nd N i = n" "\<And>f m. inp = Deliver f m \<Longrightarrow> (f, i, m) \<in> soup N"
    using assms(2,3,7) by (auto simp: raft_rel_def)
  then have "net_step D ok N (put_node i n' outs N)" using net_step.step_input [of ok inp i N D n' outs] assms(4,6) by simp
  then show "net_reach D ok (put_node i n' outs N)" by (rule net_reach.reach_step [OF assms(1)])
qed (rule raft_rel_put [OF assms(2,5)])

locale open_network =
  fixes D :: "'s deployment" and ok :: "input \<Rightarrow> bool"
  assumes ticks: "ok Tick" and messages: "ok (Deliver f m)"

sublocale open_network \<subseteq> harness: simulates "raft_sim (d_sm D)" "net_reach D ok" raft_rel
proof
  fix N ns fl i n n' outs
  assume a: "net_reach D ok N" "raft_rel ns fl N" "bt_get ns i = Some n" "sim_tick (raft_sim (d_sm D)) n = Some (n', outs)"
  then have "raft_step (d_sm D) Tick n = (n', outs)"
    by (auto simp: raft_sim_def not_panicked_def split: if_splits)
  from raft_rel_step [OF a(1-3) ticks subset_refl this]
  show "\<exists>N'. net_reach D ok N' \<and> raft_rel (bt_insert i n' ns) (fl @ map (\<lambda>(t, m). (i, t, m)) outs) N'" by simp
next
  fix N ns f t m fl n n' outs
  assume a: "net_reach D ok N" "raft_rel ns ((f, t, m) # fl) N" "bt_get ns t = Some n"
    "sim_message (raft_sim (d_sm D)) f m n = Some (n', outs)"
  then have "raft_step (d_sm D) (Deliver f m) n = (n', outs)"
    by (auto simp: raft_sim_def not_panicked_def split: if_splits)
  from raft_rel_step [OF a(1-3) messages _ this, of fl]
  show "\<exists>N'. net_reach D ok N' \<and> raft_rel (bt_insert t n' ns) (fl @ map (\<lambda>(u, m). (t, u, m)) outs) N'" by auto
next
  fix N ns a p b
  assume "net_reach D ok N" "raft_rel ns (a @ p # b) N"
  then show "\<exists>N'. net_reach D ok N' \<and> raft_rel ns (a @ b) N'" by (auto simp: raft_rel_def)
qed

context open_network
begin

lemma harness_simulated:
  assumes "harness.simulated C" "client_call ok h" "harness (d_sm D) h C = Some C'"
  shows "harness.simulated C'"
proof (cases h)
  case (Call i inp)
  let ?f = "\<lambda>n. let (n', outs) = raft_step (d_sm D) inp n in (n', (), outs)"
  have ok: "ok inp" "\<And>f m. inp \<noteq> Deliver f m" using assms(2) Call by (cases inp; simp)+
  from assms(3) Call obtain u where "act i ?f C = Some (C', u)" by auto
  then show ?thesis
  proof (rule harness.act_simulated [OF assms(1), rotated])
    fix N ns fl n n' r outs
    assume a: "net_reach D ok N" "raft_rel ns fl N" "bt_get ns i = Some n" "?f n = (n', r, outs)"
    then have "raft_step (d_sm D) inp n = (n', outs)" by (auto split: prod.splits)
    from raft_rel_step [OF a(1-3) ok(1) subset_refl this] ok(2)
    show "\<exists>w'. net_reach D ok w' \<and> raft_rel (bt_insert i n' ns) (fl @ map (\<lambda>(t, m). (i, t, m)) outs) w'" by blast
  qed
qed (use assms in \<open>auto simp: isolate_def heal_def harness.simulated_def elim!: harness.cluster_run_simulated
        [unfolded harness.simulated_def, rotated]\<close>)

lemma script_simulated:
  "harness.simulated C \<Longrightarrow> list_all (client_call ok) hs \<Longrightarrow> script (d_sm D) hs C = Some C' \<Longrightarrow> harness.simulated C'"
proof (induction hs arbitrary: C)
  case (Cons h hs)
  then obtain C1 where C1: "harness (d_sm D) h C = Some C1" "script (d_sm D) hs C1 = Some C'"
    by (auto split: Option.bind_splits)
  have "harness.simulated C1" by (rule harness_simulated [OF Cons.prems(1) _ C1(1)]) (use Cons.prems(2) in simp)
  from Cons.IH [OF this _ C1(2)] Cons.prems(2) show ?case by simp
qed simp

end

interpretation fixed_group: open_network D fixed_membership for D :: "'s deployment"
  by unfold_locales simp_all

lemma bt_get_fold_insert:
  "bt_get (fold (\<lambda>n. bt_insert (k n) n) ns m) i = Some n \<Longrightarrow> n \<in> set ns \<and> k n = i \<or> bt_get m i = Some n"
  by (induction ns arbitrary: m) (fastforce split: if_splits)+

lemma raft_cluster_simulated: "fixed_group.harness.simulated D (raft_cluster D)"
proof -
  have "raft_rel (nodes (raft_cluster D)) (inflight (raft_cluster D)) (net_init D)"
    by (auto simp: raft_rel_def raft_cluster_def cluster_new_def net_init_def raft_sim_def raft_new_def Let_def
        dest!: bt_get_fold_insert)
  then show ?thesis unfolding fixed_group.harness.simulated_def using net_reach.reach_init by blast
qed

section \<open>Claims\<close>


definition solo_dep :: "u64 deployment" where
  "solo_dep = \<lparr>d_sm = sum_sm, d_voters = [1], d_cfg = (\<lambda>_. run_cfg), d_init = 0\<rparr>"

lemma solo_tick:
  "role (fst (on_tick sum_sm (raft_new 1 [1] run_cfg 0))) = Leader"
  by (simp add: run_eval become_leader_def)


end
