(* ===== verification/Wire.thy ===== *)
theory Wire
  imports Bytes "HOL-Library.Sublist"
begin

text \<open>
  Binary decoders over a byte cursor, shared by the codecs of \<open>cs-consensus\<close> and
  \<open>cs-distrib\<close>: the outcome of a fallible call, the cursor, the sequencing that Rust's \<open>?\<close>
  performs, and the contract between an encoder and a decoder (locale \<open>wire\<close>): what was
  written is read back, and a message cut short is an error, never a wrong value.

  \<open>usize\<close> arithmetic wraps at \<open>2 ^ 64\<close> as in a release build.  A buffer holds fewer than
  \<open>2 ^ 63\<close> bytes, which Rust guarantees of every allocation.
\<close>

named_theorems codec_intros \<open>a decoder reads the field its encoder wrote, one pair of facts per field type\<close>

section \<open>Outcomes\<close>

datatype ('a, 'e) outcome = Ok 'a | Err 'e | Panic

abbreviation isize_max :: nat where
  "isize_max \<equiv> 2 ^ 63 - 1"

abbreviation usize_mod :: nat where
  "usize_mod \<equiv> 2 ^ 64"

section \<open>Readers\<close>

record cursor =
  buf :: bytes
  pos :: nat

type_synonym ('a, 'e) reader = "cursor \<Rightarrow> ('a \<times> cursor, 'e) outcome"

definition ret :: "'a \<Rightarrow> ('a, 'e) reader" where
  "ret x c = Ok (x, c)"

definition raise :: "'e \<Rightarrow> ('a, 'e) reader" where
  "raise e c = Err e"

definition and_then :: "('a, 'e) reader \<Rightarrow> ('a \<Rightarrow> ('b, 'e) reader) \<Rightarrow> ('b, 'e) reader" where
  "and_then g f c = (case g c of Ok (x, c') \<Rightarrow> f x c' | Err e \<Rightarrow> Err e | Panic \<Rightarrow> Panic)"

text \<open>\<open>for _ in 0..n { v.push(r()?) }\<close>\<close>

primrec read_n :: "nat \<Rightarrow> ('a, 'e) reader \<Rightarrow> ('a list, 'e) reader" where
  "read_n 0 r = ret []"
| "read_n (Suc n) r = and_then r (\<lambda>x. and_then (read_n n r) (\<lambda>xs. ret (x # xs)))"

text \<open>\<open>buf.get(pos..end)\<close> for the \<open>n\<close> bytes behind the cursor.\<close>

definition get_slice :: "'e \<Rightarrow> nat \<Rightarrow> (bytes, 'e) reader" where
  "get_slice e n c =
     (let stop = (pos c + n) mod usize_mod
      in if pos c \<le> stop \<and> stop \<le> length (buf c)
         then Ok (take (stop - pos c) (drop (pos c) (buf c)), c\<lparr>pos := stop\<rparr>)
         else Err e)"

text \<open>\<open>Vec::with_capacity(n)\<close> for elements of \<open>sz\<close> bytes panics when the bytes exceed \<open>isize::MAX\<close>.\<close>

definition with_capacity :: "nat \<Rightarrow> nat \<Rightarrow> (unit, 'e) reader" where
  "with_capacity sz n c = (if n * sz \<le> isize_max then Ok ((), c) else Panic)"

section \<open>Reading back what was written\<close>

definition codes :: "('a, 'e) reader \<Rightarrow> bytes \<Rightarrow> 'a \<Rightarrow> bool" where
  "codes g bs x \<longleftrightarrow>
     (\<forall>pre post. length (pre @ bs @ post) < 2 ^ 63 \<longrightarrow>
        g \<lparr>buf = pre @ bs @ post, pos = length pre\<rparr>
          = Ok (x, \<lparr>buf = pre @ bs @ post, pos = length pre + length bs\<rparr>)) \<and>
     (\<forall>pre t. strict_prefix t bs \<and> length (pre @ t) < 2 ^ 63 \<longrightarrow>
        (\<exists>e. g \<lparr>buf = pre @ t, pos = length pre\<rparr> = Err e))"

lemma codesI:
  assumes "\<And>pre post. length (pre @ bs @ post) < 2 ^ 63 \<Longrightarrow>
      g \<lparr>buf = pre @ bs @ post, pos = length pre\<rparr>
        = Ok (x, \<lparr>buf = pre @ bs @ post, pos = length pre + length bs\<rparr>)"
    and "\<And>pre t. strict_prefix t bs \<Longrightarrow> length (pre @ t) < 2 ^ 63 \<Longrightarrow>
      \<exists>e. g \<lparr>buf = pre @ t, pos = length pre\<rparr> = Err e"
  shows "codes g bs x"
  using assms unfolding codes_def by blast

lemma codes_ok:
  "codes g bs x \<Longrightarrow> length (pre @ bs @ post) < 2 ^ 63 \<Longrightarrow>
    g \<lparr>buf = pre @ bs @ post, pos = length pre\<rparr>
      = Ok (x, \<lparr>buf = pre @ bs @ post, pos = length pre + length bs\<rparr>)"
  unfolding codes_def by blast

lemma codes_cut:
  "codes g bs x \<Longrightarrow> strict_prefix t bs \<Longrightarrow> length (pre @ t) < 2 ^ 63 \<Longrightarrow>
    \<exists>e. g \<lparr>buf = pre @ t, pos = length pre\<rparr> = Err e"
  unfolding codes_def by blast

lemma codes_ret [intro]: "codes (ret x) [] x"
  by (simp add: codes_def ret_def)

lemma codes_bind:
  assumes g: "codes g bs x" and f: "codes (f x) bs' y"
  shows "codes (and_then g f) (bs @ bs') y"
proof (rule codesI)
  fix pre post :: bytes
  assume l: "length (pre @ (bs @ bs') @ post) < 2 ^ 63"
  have "f x \<lparr>buf = (pre @ bs) @ bs' @ post, pos = length (pre @ bs)\<rparr>
      = Ok (y, \<lparr>buf = (pre @ bs) @ bs' @ post, pos = length (pre @ bs) + length bs'\<rparr>)"
    by (rule codes_ok [OF f]) (use l in simp)
  moreover have "g \<lparr>buf = pre @ bs @ (bs' @ post), pos = length pre\<rparr>
      = Ok (x, \<lparr>buf = pre @ bs @ (bs' @ post), pos = length pre + length bs\<rparr>)"
    by (rule codes_ok [OF g]) (use l in simp)
  ultimately show "and_then g f \<lparr>buf = pre @ (bs @ bs') @ post, pos = length pre\<rparr>
      = Ok (y, \<lparr>buf = pre @ (bs @ bs') @ post, pos = length pre + length (bs @ bs')\<rparr>)"
    by (simp add: and_then_def add.assoc)
next
  fix pre t :: bytes
  assume t: "strict_prefix t (bs @ bs')" and l: "length (pre @ t) < 2 ^ 63"
  show "\<exists>e. and_then g f \<lparr>buf = pre @ t, pos = length pre\<rparr> = Err e"
  proof (cases "strict_prefix t bs")
    case True
    then show ?thesis using codes_cut [OF g True l] by (auto simp: and_then_def)
  next
    case False
    from t have "prefix t bs \<or> (\<exists>u. t = bs @ u \<and> prefix u bs')"
      unfolding strict_prefix_def prefix_append by blast
    with False obtain u where u: "t = bs @ u" "prefix u bs'"
      unfolding strict_prefix_def by (metis append_Nil2 prefix_bot.bot_least)
    then have su: "strict_prefix u bs'" using t by (auto simp: strict_prefix_def)
    have "g \<lparr>buf = pre @ bs @ u, pos = length pre\<rparr>
        = Ok (x, \<lparr>buf = pre @ bs @ u, pos = length pre + length bs\<rparr>)"
      by (rule codes_ok [OF g]) (use l u in simp)
    moreover obtain e where "f x \<lparr>buf = (pre @ bs) @ u, pos = length (pre @ bs)\<rparr> = Err e"
      using codes_cut [OF f su, of "pre @ bs"] l u by auto
    ultimately show ?thesis using u by (simp add: and_then_def)
  qed
qed

lemma codes_done: "x = y \<Longrightarrow> codes (ret x) [] y"
  by (simp add: codes_ret)

lemma codes_guard:
  assumes "n * sz \<le> isize_max" "codes f bs y"
  shows "codes (and_then (with_capacity sz n) (\<lambda>_. f)) bs y"
  using assms unfolding codes_def and_then_def with_capacity_def by simp

lemma codes_map:
  assumes "codes g bs x"
  shows "codes (and_then g (\<lambda>v. ret (h v))) bs (h x)"
  using codes_bind [OF assms, of "\<lambda>v. ret (h v)" "[]" "h x"] codes_ret [of "h x"] by simp

lemma codes_read_n:
  assumes "\<And>x. x \<in> set xs \<Longrightarrow> codes r (put x) x"
  shows "codes (read_n (length xs) r) (concat (map put xs)) xs"
  using assms
proof (induction xs)
  case (Cons x xs)
  have "codes (and_then (read_n (length xs) r) (\<lambda>ys. ret (x # ys))) (concat (map put xs)) (x # xs)"
    by (rule codes_map) (use Cons in simp)
  with Cons.prems(1) [of x] show ?case by (simp add: codes_bind)
qed (simp add: codes_ret)

lemma codes_get_slice:
  assumes "length bs < 2 ^ 63"
  shows "codes (get_slice e (length bs)) bs bs"
proof (rule codesI)
  fix pre t :: bytes
  assume t: "strict_prefix t bs" and l: "length (pre @ t) < 2 ^ 63"
  then have "length t < length bs" by (simp add: prefix_length_less)
  then show "\<exists>ea. get_slice e (length bs) \<lparr>buf = pre @ t, pos = length pre\<rparr> = Err ea"
    using assms l by (simp add: get_slice_def Let_def)
qed (simp add: get_slice_def Let_def)

section \<open>Readers that never panic\<close>

text \<open>A reader is tame when on every cursor inside its buffer it returns, and leaves the cursor inside.\<close>

definition tame :: "('a, 'e) reader \<Rightarrow> bool" where
  "tame g \<longleftrightarrow>
     (\<forall>c. pos c \<le> length (buf c) \<longrightarrow>
        g c \<noteq> Panic \<and> (\<forall>x c'. g c = Ok (x, c') \<longrightarrow> buf c' = buf c \<and> pos c' \<le> length (buf c)))"

lemma tame_ret [intro, simp]: "tame (ret x)"
  by (simp add: tame_def ret_def)

lemma tame_raise [intro, simp]: "tame (raise e)"
  by (simp add: tame_def raise_def)

lemma tameI:
  assumes "\<And>c x c'. pos c \<le> length (buf c) \<Longrightarrow> g c = Ok (x, c') \<Longrightarrow> buf c' = buf c \<and> pos c' \<le> length (buf c)"
    and "\<And>c. pos c \<le> length (buf c) \<Longrightarrow> g c \<noteq> Panic"
  shows "tame g"
  using assms unfolding tame_def by blast

lemma tame_Ok: "tame g \<Longrightarrow> pos c \<le> length (buf c) \<Longrightarrow> g c = Ok (x, c') \<Longrightarrow> buf c' = buf c \<and> pos c' \<le> length (buf c)"
  unfolding tame_def by blast

lemma tame_not_Panic: "tame g \<Longrightarrow> pos c \<le> length (buf c) \<Longrightarrow> g c \<noteq> Panic"
  unfolding tame_def by blast

lemma tame_bind [intro]:
  assumes g: "tame g" and f: "\<And>x. tame (f x)"
  shows "tame (and_then g f)"
proof (rule tameI)
  fix c c' :: cursor and y
  assume c: "pos c \<le> length (buf c)" and "and_then g f c = Ok (y, c')"
  then obtain x c1 where x: "g c = Ok (x, c1)" "f x c1 = Ok (y, c')"
    by (auto simp: and_then_def split: outcome.splits)
  then show "buf c' = buf c \<and> pos c' \<le> length (buf c)"
    using tame_Ok [OF g c x(1)] tame_Ok [OF f _ x(2)] by simp
next
  fix c :: cursor
  assume c: "pos c \<le> length (buf c)"
  show "and_then g f c \<noteq> Panic"
  proof (cases "g c")
    case (Ok r)
    then obtain x c1 where x: "g c = Ok (x, c1)" by (cases r) simp
    with tame_Ok [OF g c x] tame_not_Panic [OF f, of c1 x] show ?thesis by (simp add: and_then_def)
  next
    case Panic
    with tame_not_Panic [OF g c] show ?thesis by simp
  qed (simp add: and_then_def)
qed

lemma tame_get_slice [intro, simp]: "tame (get_slice e n)"
  by (simp add: tame_def get_slice_def Let_def)

lemma tame_read_n [intro]: "tame r \<Longrightarrow> tame (read_n n r)"
  by (induction n) (auto intro!: tame_bind)

section \<open>Inputs on which a reader panics\<close>

definition panics :: "('a, 'e) reader \<Rightarrow> bytes \<Rightarrow> bool" where
  "panics g bs \<longleftrightarrow> (\<forall>pre. length (pre @ bs) < 2 ^ 63 \<longrightarrow> g \<lparr>buf = pre @ bs, pos = length pre\<rparr> = Panic)"

lemma panics_capacity: "isize_max < n * sz \<Longrightarrow> panics (and_then (with_capacity sz n) f) bs"
  by (simp add: panics_def and_then_def with_capacity_def)

lemma panics_first: "panics g bs \<Longrightarrow> panics (and_then g f) bs"
  by (simp add: panics_def and_then_def)

lemma panics_later:
  assumes "codes g bs x" "panics (f x) bs'"
  shows "panics (and_then g f) (bs @ bs')"
  unfolding panics_def
proof (intro allI impI)
  fix pre :: bytes
  assume l: "length (pre @ bs @ bs') < 2 ^ 63"
  have "f x \<lparr>buf = (pre @ bs) @ bs', pos = length (pre @ bs)\<rparr> = Panic"
    using assms(2) l unfolding panics_def by (metis append_assoc)
  then show "and_then g f \<lparr>buf = pre @ bs @ bs', pos = length pre\<rparr> = Panic"
    using codes_ok [OF assms(1) l] by (simp add: and_then_def)
qed

section \<open>The contract of a codec\<close>

locale wire =
  fixes put :: "'a \<Rightarrow> bytes" and get :: "('a, 'e) reader" and ok :: "'a \<Rightarrow> bool"
  assumes coded: "ok x \<Longrightarrow> codes get (put x) x"
begin

lemma get_put:
  assumes "ok x" "length (put x @ post) < 2 ^ 63"
  shows "get \<lparr>buf = put x @ post, pos = 0\<rparr> = Ok (x, \<lparr>buf = put x @ post, pos = length (put x)\<rparr>)"
  using codes_ok [OF coded [OF assms(1)], of "[]" post] assms(2) by simp

lemma get_cut:
  assumes "ok x" "strict_prefix t (put x)" "length t < 2 ^ 63"
  shows "\<exists>e. get \<lparr>buf = t, pos = 0\<rparr> = Err e"
  using codes_cut [OF coded [OF assms(1)] assms(2), of "[]"] assms(3) by simp

lemma prefix_free:
  assumes "ok x" "ok y" "put x @ p = put y @ q" "length (put x @ p) < 2 ^ 63"
  shows "x = y \<and> p = q"
proof -
  have "x = y" using get_put [OF assms(1), of p] get_put [OF assms(2), of q] assms(3,4) by simp
  with assms(3) show ?thesis by simp
qed

lemma put_inj: "ok x \<Longrightarrow> ok y \<Longrightarrow> put x = put y \<Longrightarrow> length (put x) < 2 ^ 63 \<Longrightarrow> x = y"
  using prefix_free [of x y "[]" "[]"] by simp

text \<open>A field in front of other fields, and the last field of a message.\<close>

lemma field_coded: "ok x \<Longrightarrow> codes (f x) bs y \<Longrightarrow> codes (and_then get f) (put x @ bs) y"
  by (rule codes_bind [OF coded])

lemma last_coded: "ok x \<Longrightarrow> codes (f x) [] y \<Longrightarrow> codes (and_then get f) (put x) y"
  using field_coded [of x f "[]" y] by simp

lemma fields_coded:
  assumes "list_all ok xs" "codes (f xs) bs y"
  shows "codes (and_then (read_n (length xs) get) f) (concat (map put xs) @ bs) y"
  using assms coded by (auto simp: list_all_iff intro!: codes_bind [OF codes_read_n])

lemma field_panics: "ok x \<Longrightarrow> panics (f x) bs \<Longrightarrow> panics (and_then get f) (put x @ bs)"
  by (rule panics_later [OF coded])

lemma list_coded:
  assumes "\<And>x. x \<in> set xs \<Longrightarrow> ok x"
  shows "codes (read_n (length xs) get) (concat (map put xs)) xs"
  using assms coded by (intro codes_read_n) blast

end

end
