(* ===== verification/Epaxos.thy ===== *)
theory Epaxos
  imports Btree_Map "HOL-Library.Product_Lexorder"
begin

text \<open>
  The EPaxos replica of \<open>crates/cs-consensus/src/epaxos.rs\<close>: instances and their states,
  the PreAccept / Accept / Commit rounds, and the execution of committed instances in
  dependency order (\<open>execute_committed\<close> and the iterative \<open>tarjan_scc\<close>).

  Slots, sequence numbers, ballots and replica identities are counters and naturals here.
  An operation returns \<open>None\<close> where the source would panic (a missing map entry, an empty
  stack) or not return; that this never happens is proved later.  Vectors used as stacks
  (\<open>call\<close> and \<open>stack\<close> of \<open>tarjan_scc\<close>) have their top at the head of the list.
\<close>

section \<open>Data\<close>

datatype instance_id = Instance (ins_replica: nat) (ins_slot: nat)

text \<open>The derived order compares the fields in declaration order.\<close>

instantiation instance_id :: linorder
begin

definition less_eq_instance_id :: "instance_id \<Rightarrow> instance_id \<Rightarrow> bool" where
  "less_eq_instance_id a b \<longleftrightarrow> (ins_replica a, ins_slot a) \<le> (ins_replica b, ins_slot b)"

definition less_instance_id :: "instance_id \<Rightarrow> instance_id \<Rightarrow> bool" where
  "less_instance_id a b \<longleftrightarrow> (ins_replica a, ins_slot a) < (ins_replica b, ins_slot b)"

instance
  by standard (auto simp: less_eq_instance_id_def less_instance_id_def instance_id.expand)

end

record 's ep_state_machine =
  ep_interferes :: "'s \<Rightarrow> bytes \<Rightarrow> bytes \<Rightarrow> bool"
  ep_execute :: "'s \<Rightarrow> bytes \<Rightarrow> 's \<times> bytes"

datatype status = PreAccepted | Accepted | Committed | Executed

fun status_rank :: "status \<Rightarrow> nat" where
  "status_rank PreAccepted = 0"
| "status_rank Accepted = 1"
| "status_rank Committed = 2"
| "status_rank Executed = 3"

lemma status_rank_inject [simp]: "status_rank a = status_rank b \<longleftrightarrow> a = b"
  by (cases a; cases b) simp_all

instantiation status :: linorder
begin

definition less_eq_status :: "status \<Rightarrow> status \<Rightarrow> bool" where
  "less_eq_status a b \<longleftrightarrow> status_rank a \<le> status_rank b"

definition less_status :: "status \<Rightarrow> status \<Rightarrow> bool" where
  "less_status a b \<longleftrightarrow> status_rank a < status_rank b"

instance
  by standard (auto simp: less_eq_status_def less_status_def)

end

record instance_state =
  is_command :: bytes
  is_seq :: nat
  is_deps :: "instance_id set"
  is_status :: status
  is_ballot :: nat

datatype ep_message =
    PreAccept instance_id nat bytes nat "instance_id set"
  | PreAcceptReply instance_id nat nat "instance_id set"
  | Accept instance_id nat bytes nat "instance_id set"
  | AcceptReply instance_id nat
  | Commit instance_id bytes nat "instance_id set"

type_synonym ep_out = "nat \<times> ep_message"

record collect =
  co_command :: bytes
  co_init_seq :: nat
  co_init_deps :: "instance_id set"
  co_replies :: nat
  co_agreed :: nat
  co_union_seq :: nat
  co_union_deps :: "instance_id set"
  co_accepting :: bool
  co_accept_oks :: nat

record 's ep_replica =
  ep_id :: nat
  ep_replicas :: "nat list"
  next_slot :: nat
  cmds :: "(instance_id, instance_state) btree"
  collects :: "(instance_id, collect) btree"
  ep_sm :: 's

section \<open>Replica\<close>

definition ep_new :: "nat \<Rightarrow> nat list \<Rightarrow> 's \<Rightarrow> 's ep_replica option" where
  "ep_new i rs s =
     (let rs' = sort_dedup rs
      in if i \<in> set rs'
         then Some \<lparr>ep_id = i, ep_replicas = rs', next_slot = 0, cmds = [], collects = [], ep_sm = s\<rparr>
         else None)"

definition ep_peers :: "'s ep_replica \<Rightarrow> nat list" where
  "ep_peers r = filter (\<lambda>p. p \<noteq> ep_id r) (ep_replicas r)"

definition slow_quorum :: "'s ep_replica \<Rightarrow> nat" where
  "slow_quorum r = length (ep_replicas r) div 2 + 1"

definition fast_quorum :: "'s ep_replica \<Rightarrow> nat" where
  "fast_quorum r = (let n = length (ep_replicas r); f = (n - 1) div 2 in f + (f + 1) div 2)"

definition status_of :: "(instance_id, instance_state) btree \<Rightarrow> instance_id \<Rightarrow> status option" where
  "status_of m i = map_option is_status (bt_get m i)"

definition deps_and_seq :: "'s ep_state_machine \<Rightarrow> 's ep_replica \<Rightarrow> bytes \<Rightarrow> instance_id \<Rightarrow>
    nat \<times> instance_id set" where
  "deps_and_seq SM r command exclude =
     (let (deps, max_seq) =
        fold (\<lambda>(inst, st) (deps, max_seq).
                if inst = exclude then (deps, max_seq)
                else if ep_interferes SM (ep_sm r) command (is_command st)
                     then (insert inst deps, max max_seq (is_seq st))
                     else (deps, max_seq))
             (cmds r) ({}, 0)
      in (max_seq + 1, deps))"

definition record_inst :: "instance_id \<Rightarrow> bytes \<Rightarrow> nat \<Rightarrow> instance_id set \<Rightarrow> status \<Rightarrow> nat \<Rightarrow>
    's ep_replica \<Rightarrow> 's ep_replica" where
  "record_inst inst command sq deps status ballot r =
     (let fresh = \<lparr>is_command = command, is_seq = sq, is_deps = deps, is_status = status,
                   is_ballot = ballot\<rparr>;
          entry = (case bt_get (cmds r) inst of None \<Rightarrow> fresh | Some st \<Rightarrow> st);
          entry' = (if status \<ge> is_status entry then fresh else entry)
      in r\<lparr>cmds := bt_insert inst entry' (cmds r)\<rparr>)"

definition ep_propose :: "'s ep_state_machine \<Rightarrow> bytes \<Rightarrow> 's ep_replica \<Rightarrow> 's ep_replica \<times> ep_out list" where
  "ep_propose SM command r =
     (let inst = Instance (ep_id r) (next_slot r);
          r1 = r\<lparr>next_slot := next_slot r + 1\<rparr>;
          (sq, deps) = deps_and_seq SM r1 command inst;
          r2 = record_inst inst command sq deps PreAccepted 0 r1;
          r3 = r2\<lparr>collects := bt_insert inst
                 \<lparr>co_command = command, co_init_seq = sq, co_init_deps = deps, co_replies = 1,
                  co_agreed = 1, co_union_seq = sq, co_union_deps = deps, co_accepting = False,
                  co_accept_oks = 1\<rparr> (collects r2)\<rparr>
      in (r3, map (\<lambda>p. (p, PreAccept inst 0 command sq deps)) (ep_peers r3)))"

section \<open>Tarjan's strongly connected components\<close>

record node_info =
  ni_index :: nat
  ni_lowlink :: nat
  ni_on_stack :: bool

record tarjan_state =
  t_info :: "instance_id \<rightharpoonup> node_info"
  t_stack :: "instance_id list"
  t_sccs :: "instance_id list list"
  t_next :: nat
  t_call :: "(instance_id \<times> nat \<times> instance_id list) list"

fun pop_component :: "instance_id \<Rightarrow> instance_id list \<Rightarrow> (instance_id \<rightharpoonup> node_info) \<Rightarrow> instance_id list \<Rightarrow>
    (instance_id list \<times> instance_id list \<times> (instance_id \<rightharpoonup> node_info)) option" where
  "pop_component v [] info component = None"
| "pop_component v (w # stack) info component =
     (case info w of
        None \<Rightarrow> None
      | Some wi \<Rightarrow>
          let info' = info(w \<mapsto> wi\<lparr>ni_on_stack := False\<rparr>); component' = component @ [w]
          in if w = v then Some (component', stack, info') else pop_component v stack info' component')"

definition tarjan_enter :: "instance_id \<Rightarrow> nat \<Rightarrow> tarjan_state \<Rightarrow> tarjan_state" where
  "tarjan_enter v i st =
     (if i = 0
      then st\<lparr>t_info := (t_info st)(v \<mapsto> \<lparr>ni_index = t_next st, ni_lowlink = t_next st, ni_on_stack = True\<rparr>),
              t_next := t_next st + 1, t_stack := v # t_stack st\<rparr>
      else st)"

definition tarjan_edge :: "(instance_id \<Rightarrow> instance_id list option) \<Rightarrow> instance_id \<Rightarrow> instance_id \<Rightarrow>
    tarjan_state \<Rightarrow> tarjan_state option" where
  "tarjan_edge succ v w st =
     (case t_info st w of
        None \<Rightarrow> (case succ w of
                   None \<Rightarrow> None
                 | Some ws \<Rightarrow> Some (st\<lparr>t_call := (w, 0, ws) # t_call st\<rparr>))
      | Some wi \<Rightarrow>
          if ni_on_stack wi
          then (case t_info st v of
                  None \<Rightarrow> None
                | Some vi \<Rightarrow> Some (st\<lparr>t_info := (t_info st)
                    (v \<mapsto> vi\<lparr>ni_lowlink := min (ni_lowlink vi) (ni_index wi)\<rparr>)\<rparr>))
          else Some st)"

definition tarjan_close :: "instance_id \<Rightarrow> tarjan_state \<Rightarrow> tarjan_state option" where
  "tarjan_close v st =
     (case t_info st v of
        None \<Rightarrow> None
      | Some vi \<Rightarrow>
          if ni_lowlink vi = ni_index vi
          then (case pop_component v (t_stack st) (t_info st) [] of
                  None \<Rightarrow> None
                | Some (component, stack', info') \<Rightarrow>
                    Some (st\<lparr>t_info := info', t_stack := stack', t_sccs := t_sccs st @ [component]\<rparr>))
          else Some st)"

definition tarjan_return :: "instance_id \<Rightarrow> tarjan_state \<Rightarrow> tarjan_state option" where
  "tarjan_return v st =
     (case t_call st of
        [] \<Rightarrow> Some st
      | (parent, _, _) # _ \<Rightarrow>
          (case (t_info st v, t_info st parent) of
             (Some vi, Some pi) \<Rightarrow> Some (st\<lparr>t_info := (t_info st)
               (parent \<mapsto> pi\<lparr>ni_lowlink := min (ni_lowlink pi) (ni_lowlink vi)\<rparr>)\<rparr>)
           | _ \<Rightarrow> None))"

definition tarjan_step :: "(instance_id \<Rightarrow> instance_id list option) \<Rightarrow> tarjan_state \<Rightarrow> tarjan_state option" where
  "tarjan_step succ st =
     (case t_call st of
        [] \<Rightarrow> Some st
      | (v, i, succs) # rest \<Rightarrow>
          let st1 = tarjan_enter v i st
          in if i < length succs
             then tarjan_edge succ v (succs ! i) (st1\<lparr>t_call := (v, i + 1, succs) # rest\<rparr>)
             else Option.bind (tarjan_close v st1)
                    (\<lambda>st2. tarjan_return v (st2\<lparr>t_call := rest\<rparr>)))"

partial_function (option) tarjan_loop :: "(instance_id \<Rightarrow> instance_id list option) \<Rightarrow> tarjan_state \<Rightarrow>
    tarjan_state option" where
  "tarjan_loop succ st =
     (if t_call st = [] then Some st
      else Option.bind (tarjan_step succ st) (tarjan_loop succ))"

fun tarjan_starts :: "(instance_id \<Rightarrow> instance_id list option) \<Rightarrow> instance_id list \<Rightarrow> tarjan_state \<Rightarrow>
    tarjan_state option" where
  "tarjan_starts succ [] st = Some st"
| "tarjan_starts succ (v # vs) st =
     (if t_info st v \<noteq> None then tarjan_starts succ vs st
      else case succ v of
             None \<Rightarrow> None
           | Some ws \<Rightarrow> Option.bind (tarjan_loop succ (st\<lparr>t_call := [(v, 0, ws)]\<rparr>))
                          (tarjan_starts succ vs))"

definition tarjan_scc :: "instance_id set \<Rightarrow> (instance_id \<Rightarrow> instance_id list option) \<Rightarrow>
    instance_id list list option" where
  "tarjan_scc nodes succ =
     map_option t_sccs (tarjan_starts succ (sorted_list_of_set nodes)
       \<lparr>t_info = Map.empty, t_stack = [], t_sccs = [], t_next = 0, t_call = []\<rparr>)"

section \<open>Execution\<close>

definition dep_blocks :: "(instance_id, instance_state) btree \<Rightarrow> instance_id set \<Rightarrow> instance_id \<Rightarrow> bool" where
  "dep_blocks m eligible d =
     (case status_of m d of
        Some Executed \<Rightarrow> False
      | Some _ \<Rightarrow> d \<notin> eligible
      | None \<Rightarrow> True)"

fun eligible_sweep :: "(instance_id, instance_state) btree \<Rightarrow> instance_id list \<Rightarrow> instance_id set \<Rightarrow> bool \<Rightarrow>
    (instance_id set \<times> bool) option" where
  "eligible_sweep m [] eligible removed = Some (eligible, removed)"
| "eligible_sweep m (i # is) eligible removed =
     (case bt_get m i of
        None \<Rightarrow> None
      | Some st \<Rightarrow>
          if \<exists>d \<in> is_deps st. dep_blocks m eligible d
          then eligible_sweep m is (eligible - {i}) True
          else eligible_sweep m is eligible removed)"

partial_function (option) eligible_loop :: "(instance_id, instance_state) btree \<Rightarrow> instance_id set \<Rightarrow>
    instance_id set option" where
  "eligible_loop m eligible =
     Option.bind (eligible_sweep m (sorted_list_of_set eligible) eligible False)
       (\<lambda>(eligible', removed). if removed then eligible_loop m eligible' else Some eligible')"

declare tarjan_loop.simps [code] eligible_loop.simps [code]

definition committed_set :: "(instance_id, instance_state) btree \<Rightarrow> instance_id set" where
  "committed_set m = fst ` set (filter (\<lambda>(i, st). is_status st = Committed) m)"

definition scc_succ :: "(instance_id, instance_state) btree \<Rightarrow> instance_id set \<Rightarrow> instance_id \<Rightarrow>
    instance_id list option" where
  "scc_succ m eligible i =
     map_option (\<lambda>st. filter (\<lambda>d. d \<in> eligible) (sorted_list_of_set (is_deps st))) (bt_get m i)"

fun exec_insts :: "'s ep_state_machine \<Rightarrow> instance_id list \<Rightarrow> 's ep_replica \<Rightarrow> 's ep_replica option" where
  "exec_insts SM [] r = Some r"
| "exec_insts SM (i # is) r =
     (case bt_get (cmds r) i of
        None \<Rightarrow> None
      | Some st \<Rightarrow>
          if is_status st = Executed then exec_insts SM is r
          else exec_insts SM is
                 (r\<lparr>ep_sm := fst (ep_execute SM (ep_sm r) (is_command st)),
                    cmds := bt_insert i (st\<lparr>is_status := Executed\<rparr>) (cmds r)\<rparr>))"

definition inst_key :: "(instance_id, instance_state) btree \<Rightarrow> instance_id \<Rightarrow> nat \<times> instance_id" where
  "inst_key m i = (case bt_get m i of Some st \<Rightarrow> (is_seq st, i) | None \<Rightarrow> (0, i))"

fun exec_sccs :: "'s ep_state_machine \<Rightarrow> instance_id list list \<Rightarrow> 's ep_replica \<Rightarrow> 's ep_replica option" where
  "exec_sccs SM [] r = Some r"
| "exec_sccs SM (scc # sccs) r =
     (if list_all (\<lambda>i. bt_get (cmds r) i \<noteq> None) scc
      then Option.bind (exec_insts SM (sort_key (inst_key (cmds r)) scc) r) (exec_sccs SM sccs)
      else None)"

definition execute_committed :: "'s ep_state_machine \<Rightarrow> 's ep_replica \<Rightarrow> 's ep_replica option" where
  "execute_committed SM r =
     Option.bind (eligible_loop (cmds r) (committed_set (cmds r))) (\<lambda>eligible.
       if eligible = {} then Some r
       else Option.bind (tarjan_scc eligible (scc_succ (cmds r) eligible)) (\<lambda>order.
              exec_sccs SM order r))"

section \<open>The message handlers\<close>

definition commit_as_leader :: "'s ep_state_machine \<Rightarrow> instance_id \<Rightarrow> bytes \<Rightarrow> nat \<Rightarrow> instance_id set \<Rightarrow>
    's ep_replica \<Rightarrow> ('s ep_replica \<times> ep_out list) option" where
  "commit_as_leader SM inst command sq deps r =
     (let r1 = r\<lparr>collects := bt_remove inst (collects r)\<rparr>;
          r2 = record_inst inst command sq deps Committed 0 r1
      in map_option (\<lambda>r3. (r3, map (\<lambda>p. (p, Commit inst command sq deps)) (ep_peers r3)))
           (execute_committed SM r2))"

definition on_preaccept :: "'s ep_state_machine \<Rightarrow> nat \<Rightarrow> instance_id \<Rightarrow> nat \<Rightarrow> bytes \<Rightarrow> nat \<Rightarrow>
    instance_id set \<Rightarrow> 's ep_replica \<Rightarrow> 's ep_replica \<times> ep_out list" where
  "on_preaccept SM from_id inst ballot command sq deps r =
     (let (local_seq, local_deps) = deps_and_seq SM r command inst;
          merged_seq = max sq local_seq;
          merged_deps = deps \<union> local_deps
      in (record_inst inst command merged_seq merged_deps PreAccepted ballot r,
          [(from_id, PreAcceptReply inst ballot merged_seq merged_deps)]))"

definition on_preaccept_reply :: "'s ep_state_machine \<Rightarrow> instance_id \<Rightarrow> nat \<Rightarrow> nat \<Rightarrow> instance_id set \<Rightarrow>
    's ep_replica \<Rightarrow> ('s ep_replica \<times> ep_out list) option" where
  "on_preaccept_reply SM inst ballot sq deps r =
     (case bt_get (collects r) inst of
        None \<Rightarrow> Some (r, [])
      | Some c \<Rightarrow>
          if co_accepting c then Some (r, [])
          else
            let c1 = c\<lparr>co_replies := co_replies c + 1,
                       co_agreed := (if sq = co_init_seq c \<and> deps = co_init_deps c
                                     then co_agreed c + 1 else co_agreed c),
                       co_union_seq := max (co_union_seq c) sq,
                       co_union_deps := co_union_deps c \<union> deps\<rparr>;
                r1 = r\<lparr>collects := bt_insert inst c1 (collects r)\<rparr>;
                fq = fast_quorum r1;
                slq = slow_quorum r1
            in if co_replies c1 < fq then Some (r1, [])
               else if co_agreed c1 \<ge> fq
               then commit_as_leader SM inst (co_command c1) (co_init_seq c1) (co_init_deps c1) r1
               else if co_replies c1 \<ge> slq
               then let r2 = r1\<lparr>collects := bt_insert inst
                                (c1\<lparr>co_accepting := True, co_accept_oks := 1\<rparr>) (collects r1)\<rparr>;
                        r3 = record_inst inst (co_command c1) (co_union_seq c1) (co_union_deps c1)
                               Accepted 0 r2
                    in Some (r3, map (\<lambda>p. (p, Accept inst 0 (co_command c1) (co_union_seq c1)
                                               (co_union_deps c1))) (ep_peers r3))
               else Some (r1, []))"

definition on_accept :: "nat \<Rightarrow> instance_id \<Rightarrow> nat \<Rightarrow> bytes \<Rightarrow> nat \<Rightarrow> instance_id set \<Rightarrow>
    's ep_replica \<Rightarrow> 's ep_replica \<times> ep_out list" where
  "on_accept from_id inst ballot command sq deps r =
     (record_inst inst command sq deps Accepted ballot r, [(from_id, AcceptReply inst ballot)])"

definition on_accept_reply :: "'s ep_state_machine \<Rightarrow> instance_id \<Rightarrow> nat \<Rightarrow>
    's ep_replica \<Rightarrow> ('s ep_replica \<times> ep_out list) option" where
  "on_accept_reply SM inst ballot r =
     (case bt_get (collects r) inst of
        None \<Rightarrow> Some (r, [])
      | Some c \<Rightarrow>
          if \<not> co_accepting c then Some (r, [])
          else
            let c1 = c\<lparr>co_accept_oks := co_accept_oks c + 1\<rparr>;
                r1 = r\<lparr>collects := bt_insert inst c1 (collects r)\<rparr>
            in if co_accept_oks c1 < slow_quorum r then Some (r1, [])
               else commit_as_leader SM inst (co_command c1) (co_union_seq c1) (co_union_deps c1) r1)"

definition on_commit :: "'s ep_state_machine \<Rightarrow> instance_id \<Rightarrow> bytes \<Rightarrow> nat \<Rightarrow> instance_id set \<Rightarrow>
    's ep_replica \<Rightarrow> ('s ep_replica \<times> ep_out list) option" where
  "on_commit SM inst command sq deps r =
     map_option (\<lambda>r1. (r1, []))
       (execute_committed SM (record_inst inst command sq deps Committed 0 r))"

fun ep_on_message :: "'s ep_state_machine \<Rightarrow> nat \<Rightarrow> ep_message \<Rightarrow> 's ep_replica \<Rightarrow>
    ('s ep_replica \<times> ep_out list) option" where
  "ep_on_message SM f (PreAccept inst ballot command sq deps) r =
     Some (on_preaccept SM f inst ballot command sq deps r)"
| "ep_on_message SM f (PreAcceptReply inst ballot sq deps) r =
     on_preaccept_reply SM inst ballot sq deps r"
| "ep_on_message SM f (Accept inst ballot command sq deps) r =
     Some (on_accept f inst ballot command sq deps r)"
| "ep_on_message SM f (AcceptReply inst ballot) r = on_accept_reply SM inst ballot r"
| "ep_on_message SM f (Commit inst command sq deps) r = on_commit SM inst command sq deps r"

end
