(* ===== verification/Codec.thy ===== *)
theory Codec
  imports Wire Raft_Data Epaxos
begin

text \<open>
  The wire codec of \<open>crates/cs-consensus/src/codec.rs\<close> for Raft and EPaxos messages and for
  log entries.  A \<open>put_\<close> function gives the bytes the source appends to its output buffer; a
  \<open>get_\<close> function is the method of \<open>Cursor\<close> of that name.

  The counters of the messages are \<open>u64\<close> on the wire, so the encoder keeps them modulo
  \<open>2 ^ 64\<close>; the \<open>_ok\<close> predicates say which values have that width.  The in-memory size of an
  \<open>Entry\<close>, which the decoder multiplies with a length from the wire when it reserves a vector,
  is chosen by the compiler and is the parameter \<open>esz\<close>.
\<close>

section \<open>Writers\<close>

definition put_u8 :: "byte \<Rightarrow> bytes" where
  "put_u8 v = [v]"

definition put_u64 :: "nat \<Rightarrow> bytes" where
  "put_u64 v = be_bytes 8 v"

definition put_bytes :: "bytes \<Rightarrow> bytes" where
  "put_bytes b = put_u64 (length b) @ b"

definition put_ids :: "replica_id list \<Rightarrow> bytes" where
  "put_ids ids = put_u64 (length ids) @ concat (map put_u64 ids)"

fun put_conf :: "conf_state \<Rightarrow> bytes" where
  "put_conf (Simple v) = put_u8 0 @ put_ids v"
| "put_conf (Joint old new) = put_u8 1 @ put_ids old @ put_ids new"

fun put_payload :: "entry_payload \<Rightarrow> bytes" where
  "put_payload (Command c) = put_u8 0 @ put_bytes c"
| "put_payload Noop = put_u8 1"
| "put_payload (Config c) = put_u8 2 @ put_conf c"

definition put_entry :: "entry \<Rightarrow> bytes" where
  "put_entry e = put_u64 (e_term e) @ put_u64 (e_index e) @ put_payload (e_payload e)"

fun encode :: "message \<Rightarrow> bytes" where
  "encode (RequestVote trm candidate last_log_index last_log_term) =
     put_u8 0 @ put_u64 trm @ put_u64 candidate @ put_u64 last_log_index @ put_u64 last_log_term"
| "encode (RequestVoteResp trm granted) = put_u8 1 @ put_u64 trm @ put_u8 (of_bool granted)"
| "encode (AppendEntries trm leader prev_log_index prev_log_term entries leader_commit rseq) =
     put_u8 2 @ put_u64 trm @ put_u64 leader @ put_u64 prev_log_index @ put_u64 prev_log_term @
     put_u64 (length entries) @ concat (map put_entry entries) @
     put_u64 leader_commit @ put_u64 rseq"
| "encode (AppendEntriesResp trm success matched conflict rseq) =
     put_u8 3 @ put_u64 trm @ put_u8 (of_bool success) @ put_u64 matched @ put_u64 conflict @
     put_u64 rseq"
| "encode (InstallSnapshot trm leader inc_index inc_term inc_config data rseq) =
     put_u8 4 @ put_u64 trm @ put_u64 leader @ put_u64 inc_index @ put_u64 inc_term @
     put_conf inc_config @ put_bytes data @ put_u64 rseq"

definition encode_entry :: "entry \<Rightarrow> bytes" where
  "encode_entry e = put_entry e"

section \<open>Readers\<close>

type_synonym 'a dec = "('a, string) reader"

definition get_u8 :: "byte dec" where
  "get_u8 c =
     (if pos c < length (buf c) then Ok (buf c ! pos c, c\<lparr>pos := pos c + 1\<rparr>) else Err ''eof u8'')"

definition get_u64 :: "nat dec" where
  "get_u64 = and_then (get_slice ''eof u64'' 8) (\<lambda>s. ret (be_value s))"

definition get_bytes :: "bytes dec" where
  "get_bytes = and_then get_u64 (get_slice ''eof bytes'')"

definition get_ids :: "replica_id list dec" where
  "get_ids = and_then get_u64 (\<lambda>n. and_then (with_capacity 8 n) (\<lambda>_. read_n n get_u64))"

definition get_conf :: "conf_state dec" where
  "get_conf = and_then get_u8 (\<lambda>tag.
     if tag = 0 then and_then get_ids (\<lambda>v. ret (Simple v))
     else if tag = 1 then and_then get_ids (\<lambda>old. and_then get_ids (\<lambda>new. ret (Joint old new)))
     else raise ''bad conf tag'')"

definition get_payload :: "entry_payload dec" where
  "get_payload = and_then get_u8 (\<lambda>tag.
       if tag = 0 then and_then get_bytes (\<lambda>b. ret (Command b))
       else if tag = 1 then ret Noop
       else if tag = 2 then and_then get_conf (\<lambda>cf. ret (Config cf))
       else raise ''bad payload tag'')"

definition get_entry :: "entry dec" where
  "get_entry =
     and_then get_u64 (\<lambda>trm.
     and_then get_u64 (\<lambda>idx.
     and_then get_payload (\<lambda>payload.
     ret \<lparr>e_term = trm, e_index = idx, e_payload = payload\<rparr>)))"

definition get_message :: "nat \<Rightarrow> message dec" where
  "get_message esz = and_then get_u8 (\<lambda>tag.
     if tag = 0 then
       and_then get_u64 (\<lambda>trm. and_then get_u64 (\<lambda>candidate.
       and_then get_u64 (\<lambda>lli. and_then get_u64 (\<lambda>llt.
       ret (RequestVote trm candidate lli llt)))))
     else if tag = 1 then
       and_then get_u64 (\<lambda>trm. and_then get_u8 (\<lambda>g. ret (RequestVoteResp trm (g \<noteq> 0))))
     else if tag = 2 then
       and_then get_u64 (\<lambda>trm. and_then get_u64 (\<lambda>leader.
       and_then get_u64 (\<lambda>pli. and_then get_u64 (\<lambda>plt.
       and_then get_u64 (\<lambda>n. and_then (with_capacity esz n) (\<lambda>_.
       and_then (read_n n get_entry) (\<lambda>es.
       and_then get_u64 (\<lambda>lc. and_then get_u64 (\<lambda>rseq.
       ret (AppendEntries trm leader pli plt es lc rseq))))))))))
     else if tag = 3 then
       and_then get_u64 (\<lambda>trm. and_then get_u8 (\<lambda>s. and_then get_u64 (\<lambda>mi.
       and_then get_u64 (\<lambda>ci. and_then get_u64 (\<lambda>rseq.
       ret (AppendEntriesResp trm (s \<noteq> 0) mi ci rseq))))))
     else if tag = 4 then
       and_then get_u64 (\<lambda>trm. and_then get_u64 (\<lambda>leader.
       and_then get_u64 (\<lambda>lii. and_then get_u64 (\<lambda>lit.
       and_then get_conf (\<lambda>cf. and_then get_bytes (\<lambda>data. and_then get_u64 (\<lambda>rseq.
       ret (InstallSnapshot trm leader lii lit cf data rseq))))))))
     else raise ''bad message tag'')"

text \<open>What a decoder returns of a buffer: the value, without the cursor.\<close>

fun value_of :: "('a \<times> cursor, 'e) outcome \<Rightarrow> ('a, 'e) outcome" where
  "value_of (Ok (x, c)) = Ok x"
| "value_of (Err e) = Err e"
| "value_of Panic = Panic"

definition decode :: "nat \<Rightarrow> bytes \<Rightarrow> (message, string) outcome" where
  "decode esz bs = value_of (get_message esz \<lparr>buf = bs, pos = 0\<rparr>)"

definition decode_entry :: "bytes \<Rightarrow> (entry, string) outcome" where
  "decode_entry bs = value_of (get_entry \<lparr>buf = bs, pos = 0\<rparr>)"

section \<open>The EPaxos messages\<close>

definition put_instance :: "instance_id \<Rightarrow> bytes" where
  "put_instance i = put_u64 (ins_replica i) @ put_u64 (ins_slot i)"

definition put_inst_set :: "instance_id set \<Rightarrow> bytes" where
  "put_inst_set deps = put_u64 (card deps) @ concat (map put_instance (sorted_list_of_set deps))"

definition get_instance :: "instance_id dec" where
  "get_instance = and_then get_u64 (\<lambda>r. and_then get_u64 (\<lambda>s. ret (Instance r s)))"

primrec insert_n :: "nat \<Rightarrow> instance_id set \<Rightarrow> instance_id set dec" where
  "insert_n 0 s = ret s"
| "insert_n (Suc n) s = and_then get_instance (\<lambda>i. insert_n n (insert i s))"

definition get_inst_set :: "instance_id set dec" where
  "get_inst_set = and_then get_u64 (\<lambda>n. insert_n n {})"

fun encode_epaxos :: "ep_message \<Rightarrow> bytes" where
  "encode_epaxos (PreAccept inst ballot command sq deps) =
     put_u8 0 @ put_instance inst @ put_u64 ballot @ put_bytes command @ put_u64 sq @ put_inst_set deps"
| "encode_epaxos (PreAcceptReply inst ballot sq deps) =
     put_u8 1 @ put_instance inst @ put_u64 ballot @ put_u64 sq @ put_inst_set deps"
| "encode_epaxos (Accept inst ballot command sq deps) =
     put_u8 2 @ put_instance inst @ put_u64 ballot @ put_bytes command @ put_u64 sq @ put_inst_set deps"
| "encode_epaxos (AcceptReply inst ballot) = put_u8 3 @ put_instance inst @ put_u64 ballot"
| "encode_epaxos (Commit inst command sq deps) =
     put_u8 4 @ put_instance inst @ put_bytes command @ put_u64 sq @ put_inst_set deps"

definition get_ep_message :: "ep_message dec" where
  "get_ep_message = and_then get_u8 (\<lambda>tag.
     if tag = 0 then
       and_then get_instance (\<lambda>i. and_then get_u64 (\<lambda>b. and_then get_bytes (\<lambda>c.
       and_then get_u64 (\<lambda>s. and_then get_inst_set (\<lambda>d. ret (PreAccept i b c s d))))))
     else if tag = 1 then
       and_then get_instance (\<lambda>i. and_then get_u64 (\<lambda>b.
       and_then get_u64 (\<lambda>s. and_then get_inst_set (\<lambda>d. ret (PreAcceptReply i b s d)))))
     else if tag = 2 then
       and_then get_instance (\<lambda>i. and_then get_u64 (\<lambda>b. and_then get_bytes (\<lambda>c.
       and_then get_u64 (\<lambda>s. and_then get_inst_set (\<lambda>d. ret (Accept i b c s d))))))
     else if tag = 3 then
       and_then get_instance (\<lambda>i. and_then get_u64 (\<lambda>b. ret (AcceptReply i b)))
     else if tag = 4 then
       and_then get_instance (\<lambda>i. and_then get_bytes (\<lambda>c.
       and_then get_u64 (\<lambda>s. and_then get_inst_set (\<lambda>d. ret (Commit i c s d)))))
     else raise ''bad epaxos message tag'')"

definition decode_epaxos :: "bytes \<Rightarrow> (ep_message, string) outcome" where
  "decode_epaxos bs = value_of (get_ep_message \<lparr>buf = bs, pos = 0\<rparr>)"

section \<open>Values that fit the wire\<close>

abbreviation u64_ok :: "nat \<Rightarrow> bool" where
  "u64_ok v \<equiv> v < 2 ^ 64"

abbreviation vec_ok :: "nat \<Rightarrow> nat \<Rightarrow> bool" where
  "vec_ok sz n \<equiv> n < 2 ^ 63 \<and> n * sz \<le> isize_max"

definition ids_ok :: "replica_id list \<Rightarrow> bool" where
  "ids_ok ids \<longleftrightarrow> vec_ok 8 (length ids) \<and> list_all u64_ok ids"

fun conf_ok :: "conf_state \<Rightarrow> bool" where
  "conf_ok (Simple v) = ids_ok v"
| "conf_ok (Joint old new) = (ids_ok old \<and> ids_ok new)"

fun payload_ok :: "entry_payload \<Rightarrow> bool" where
  "payload_ok (Command b) = (length b < 2 ^ 63)"
| "payload_ok Noop = True"
| "payload_ok (Config cf) = conf_ok cf"

definition entry_ok :: "entry \<Rightarrow> bool" where
  "entry_ok e \<longleftrightarrow> u64_ok (e_term e) \<and> u64_ok (e_index e) \<and> payload_ok (e_payload e)"

fun msg_ok :: "nat \<Rightarrow> message \<Rightarrow> bool" where
  "msg_ok esz (RequestVote a b c d) = (u64_ok a \<and> u64_ok b \<and> u64_ok c \<and> u64_ok d)"
| "msg_ok esz (RequestVoteResp a g) = u64_ok a"
| "msg_ok esz (AppendEntries a b c d es e f) =
     (u64_ok a \<and> u64_ok b \<and> u64_ok c \<and> u64_ok d \<and> vec_ok esz (length es) \<and> list_all entry_ok es \<and>
      u64_ok e \<and> u64_ok f)"
| "msg_ok esz (AppendEntriesResp a g b c d) = (u64_ok a \<and> u64_ok b \<and> u64_ok c \<and> u64_ok d)"
| "msg_ok esz (InstallSnapshot a b c d cf bs e) =
     (u64_ok a \<and> u64_ok b \<and> u64_ok c \<and> u64_ok d \<and> conf_ok cf \<and> length bs < 2 ^ 63 \<and> u64_ok e)"

definition inst_ok :: "instance_id \<Rightarrow> bool" where
  "inst_ok i \<longleftrightarrow> u64_ok (ins_replica i) \<and> u64_ok (ins_slot i)"

definition inst_set_ok :: "instance_id set \<Rightarrow> bool" where
  "inst_set_ok s \<longleftrightarrow> finite s \<and> u64_ok (card s) \<and> (\<forall>i \<in> s. inst_ok i)"

fun ep_msg_ok :: "ep_message \<Rightarrow> bool" where
  "ep_msg_ok (PreAccept i b c s d) =
     (inst_ok i \<and> u64_ok b \<and> length c < 2 ^ 63 \<and> u64_ok s \<and> inst_set_ok d)"
| "ep_msg_ok (PreAcceptReply i b s d) = (inst_ok i \<and> u64_ok b \<and> u64_ok s \<and> inst_set_ok d)"
| "ep_msg_ok (Accept i b c s d) =
     (inst_ok i \<and> u64_ok b \<and> length c < 2 ^ 63 \<and> u64_ok s \<and> inst_set_ok d)"
| "ep_msg_ok (AcceptReply i b) = (inst_ok i \<and> u64_ok b)"
| "ep_msg_ok (Commit i c s d) = (inst_ok i \<and> length c < 2 ^ 63 \<and> u64_ok s \<and> inst_set_ok d)"

section \<open>Round trips\<close>

lemma codes_u8: "codes get_u8 (put_u8 v) v"
  by (rule codesI) (auto simp: get_u8_def put_u8_def strict_prefix_def prefix_Cons nth_append)

lemma codes_u64:
  assumes "u64_ok v"
  shows "codes get_u64 (put_u64 v) v"
proof -
  have "codes (get_slice ''eof u64'' (length (put_u64 v))) (put_u64 v) (put_u64 v)"
    by (rule codes_get_slice) (simp add: put_u64_def)
  then have "codes (get_slice ''eof u64'' 8) (put_u64 v) (put_u64 v)" by (simp add: put_u64_def)
  from codes_map [OF this, of be_value] assms show ?thesis
    by (simp add: get_u64_def put_u64_def)
qed

interpretation u8: wire put_u8 get_u8 "\<lambda>_. True"
  by unfold_locales (rule codes_u8)

interpretation u64: wire put_u64 get_u64 u64_ok
  by unfold_locales (rule codes_u64)

lemmas [codec_intros] = codes_done u8.field_coded [OF TrueI] u8.last_coded [OF TrueI]
  u64.field_coded u64.last_coded

interpretation blob: wire put_bytes get_bytes "\<lambda>b. length b < 2 ^ 63"
  unfolding put_bytes_def get_bytes_def
  by unfold_locales (auto intro!: u64.field_coded codes_get_slice)

lemma codes_ids: "ids_ok ids \<Longrightarrow> codes get_ids (put_ids ids) ids"
  unfolding get_ids_def put_ids_def
  by (intro u64.field_coded codes_guard u64.list_coded) (auto simp: ids_ok_def list_all_iff)

interpretation ids: wire put_ids get_ids ids_ok
  by unfold_locales (rule codes_ids)

lemmas [codec_intros] = blob.field_coded blob.last_coded ids.field_coded ids.last_coded

lemma codes_conf: "conf_ok cf \<Longrightarrow> codes get_conf (put_conf cf) cf"
  by (cases cf) (auto simp: get_conf_def intro!: codec_intros)

interpretation conf: wire put_conf get_conf conf_ok
  by unfold_locales (rule codes_conf)

lemmas [codec_intros] = conf.field_coded conf.last_coded

interpretation payload: wire put_payload get_payload payload_ok
proof
  show "codes get_payload (put_payload p) p" if "payload_ok p" for p
    using that by (cases p) (auto simp: get_payload_def intro!: codec_intros)
qed

lemmas [codec_intros] = payload.field_coded payload.last_coded

lemma codes_entry: "entry_ok e \<Longrightarrow> codes get_entry (put_entry e) e"
  unfolding get_entry_def put_entry_def entry_ok_def
  by (auto intro!: codec_intros)

interpretation log_entry: wire put_entry get_entry entry_ok
  by unfold_locales (rule codes_entry)

lemmas [codec_intros] = log_entry.fields_coded codes_guard

lemma codes_message: "msg_ok esz m \<Longrightarrow> codes (get_message esz) (encode m) m"
  by (cases m) (auto simp: get_message_def intro!: codec_intros)

interpretation raft_msg: wire encode "get_message esz" "msg_ok esz" for esz
  by unfold_locales (rule codes_message)

interpretation inst: wire put_instance get_instance inst_ok
  unfolding put_instance_def get_instance_def inst_ok_def
  by unfold_locales (auto intro!: codec_intros)

lemma insert_n_read_n: "insert_n n s c =
    (case read_n n get_instance c of Ok (xs, c') \<Rightarrow> Ok (s \<union> set xs, c') | Err e \<Rightarrow> Err e | Panic \<Rightarrow> Panic)"
  by (induction n arbitrary: s c) (auto simp: and_then_def ret_def split: outcome.splits)

lemma insert_n_eq: "insert_n n s = and_then (read_n n get_instance) (\<lambda>xs. ret (s \<union> set xs))"
  by (rule ext) (simp add: insert_n_read_n and_then_def ret_def split: outcome.splits)

lemma length_put_inst_set [simp]: "length (put_inst_set s) = 8 + 16 * card s"
proof -
  have "length (concat (map put_instance xs)) = 16 * length xs" for xs
    by (induction xs) (simp_all add: put_instance_def put_u64_def)
  then show ?thesis by (simp add: put_inst_set_def put_u64_def)
qed

lemma codes_inst_set:
  assumes "inst_set_ok s"
  shows "codes get_inst_set (put_inst_set s) s"
proof -
  let ?xs = "sorted_list_of_set s"
  have s: "finite s" "set ?xs = s" "length ?xs = card s" "list_all inst_ok ?xs"
    using assms by (simp_all add: inst_set_ok_def list_all_iff)
  have "codes (insert_n (card s) {}) (concat (map put_instance ?xs)) s"
    using codes_map [OF inst.list_coded [of ?xs], of set] s
    by (simp add: insert_n_eq list_all_iff)
  then show ?thesis using assms unfolding get_inst_set_def put_inst_set_def
    by (intro u64.field_coded) (simp_all add: inst_set_ok_def)
qed

interpretation inst_set: wire put_inst_set get_inst_set inst_set_ok
  by unfold_locales (rule codes_inst_set)

lemmas [codec_intros] = inst.field_coded inst.last_coded inst_set.field_coded inst_set.last_coded

lemma codes_ep_message: "ep_msg_ok m \<Longrightarrow> codes get_ep_message (encode_epaxos m) m"
  by (cases m) (auto simp: get_ep_message_def intro!: codec_intros)

interpretation ep_msg: wire encode_epaxos get_ep_message ep_msg_ok
  by unfold_locales (rule codes_ep_message)

section \<open>No EPaxos frame makes the decoder panic\<close>

lemma tame_u8 [intro]: "tame get_u8"
  by (simp add: tame_def get_u8_def)

lemma tame_u64 [intro]: "tame get_u64"
  unfolding get_u64_def by (intro tame_bind tame_get_slice tame_ret)

lemma tame_bytes [intro]: "tame get_bytes"
  unfolding get_bytes_def by (intro tame_bind tame_get_slice tame_u64)

lemma tame_instance [intro]: "tame get_instance"
  unfolding get_instance_def by (intro tame_bind tame_u64 tame_ret)

lemma tame_inst_set [intro]: "tame get_inst_set"
  unfolding get_inst_set_def insert_n_eq by (intro tame_bind tame_u64 tame_ret tame_read_n tame_instance)

lemma tame_ep_message: "tame get_ep_message"
proof -
  have if_tame: "tame (if b then g else h)" if "tame g" "tame h" for b and g h :: "ep_message dec"
    using that by simp
  show ?thesis unfolding get_ep_message_def
    by (intro tame_bind if_tame tame_u8 tame_u64 tame_bytes tame_instance tame_inst_set tame_ret tame_raise)
qed

lemma decode_epaxos_no_panic: "decode_epaxos bs \<noteq> Panic"
proof -
  have "get_ep_message \<lparr>buf = bs, pos = 0\<rparr> \<noteq> Panic" by (rule tame_not_Panic [OF tame_ep_message]) simp
  then show ?thesis unfolding decode_epaxos_def
    by (cases "get_ep_message \<lparr>buf = bs, pos = 0\<rparr>") auto
qed

section \<open>Claims\<close>

lemma decode_encode:
  assumes "msg_ok esz m" "length (encode m @ post) < 2 ^ 63"
  shows "decode esz (encode m @ post) = Ok m"
  using raft_msg.get_put [OF assms] by (simp add: decode_def)

lemma decode_cut:
  assumes "msg_ok esz m" "strict_prefix t (encode m)" "length t < 2 ^ 63"
  shows "\<exists>e. decode esz t = Err e"
  using raft_msg.get_cut [OF assms] by (auto simp: decode_def)

text \<open>
  C15: Raft frames round trip.  A message whose counters fit 64 bits decodes to itself, the
  bytes of two different messages are never a prefix of one another, and a frame cut short is a
  decode error and never another message.
\<close>

theorem raft_codec_roundtrip:
  assumes "msg_ok esz m" "length (encode m) < 2 ^ 63"
  shows "decode esz (encode m) = Ok m \<and>
    (\<forall>t. strict_prefix t (encode m) \<longrightarrow> (\<exists>e. decode esz t = Err e)) \<and>
    (\<forall>m' p. msg_ok esz m' \<longrightarrow> encode m = encode m' @ p \<longrightarrow> m = m' \<and> p = [])"
proof (intro conjI allI impI)
  show "decode esz (encode m) = Ok m" using decode_encode [OF assms(1), of "[]"] assms(2) by simp
  show "\<exists>e. decode esz t = Err e" if "strict_prefix t (encode m)" for t
    using decode_cut [OF assms(1) that] prefix_length_less [OF that] assms(2) by simp
  fix m' p assume "msg_ok esz m'" "encode m = encode m' @ p"
  with raft_msg.prefix_free [OF assms(1), of m' "[]" p] assms(2) show "m = m'" "p = []" by auto
qed

theorem raft_codec_roundtrip_witness:
  "decode 64 (encode (AppendEntries 3 1 4 2
      [\<lparr>e_term = 3, e_index = 5, e_payload = Config (Joint [1, 2] [2, 3])\<rparr>] 4 9))
    = Ok (AppendEntries 3 1 4 2
      [\<lparr>e_term = 3, e_index = 5, e_payload = Config (Joint [1, 2] [2, 3])\<rparr>] 4 9)"
proof -
  let ?m = "AppendEntries 3 1 4 2 [\<lparr>e_term = 3, e_index = 5, e_payload = Config (Joint [1, 2] [2, 3])\<rparr>] 4 9"
  have "msg_ok 64 ?m" by (simp add: entry_ok_def ids_ok_def)
  moreover have "length (encode ?m) < 2 ^ 63"
    by (simp add: put_u8_def put_u64_def put_entry_def put_ids_def)
  ultimately show ?thesis by (intro conjunct1 [OF raft_codec_roundtrip])
qed

text \<open>
  C16: EPaxos frames round trip and the decoder is total.  A message whose counters fit 64 bits
  decodes to itself and cut short it is a decode error; on arbitrary bytes the decoder returns a
  message or an error and never panics.
\<close>

theorem epaxos_codec_total:
  "(ep_msg_ok m \<and> length (encode_epaxos m) < 2 ^ 63 \<longrightarrow>
      decode_epaxos (encode_epaxos m) = Ok m \<and>
      (\<forall>t. strict_prefix t (encode_epaxos m) \<longrightarrow> (\<exists>e. decode_epaxos t = Err e))) \<and>
   (\<forall>bs. decode_epaxos bs \<noteq> Panic)"
proof (intro conjI impI allI)
  assume m: "ep_msg_ok m \<and> length (encode_epaxos m) < 2 ^ 63"
  then show "decode_epaxos (encode_epaxos m) = Ok m"
    using ep_msg.get_put [of m "[]"] by (simp add: decode_epaxos_def)
  show "\<exists>e. decode_epaxos t = Err e" if "strict_prefix t (encode_epaxos m)" for t
    using ep_msg.get_cut [of m t] that m prefix_length_less [OF that] by (auto simp: decode_epaxos_def)
qed (rule decode_epaxos_no_panic)

theorem epaxos_codec_total_witness:
  "decode_epaxos (encode_epaxos (Commit (Instance 1 0) [7] 2 {Instance 0 0, Instance 2 4}))
    = Ok (Commit (Instance 1 0) [7] 2 {Instance 0 0, Instance 2 4})"
proof -
  let ?m = "Commit (Instance 1 0) [7] 2 {Instance 0 0, Instance 2 4}"
  have "ep_msg_ok ?m" by (simp add: inst_ok_def inst_set_ok_def)
  moreover have "length (encode_epaxos ?m) < 2 ^ 63"
    by (simp add: put_u8_def put_u64_def put_instance_def put_bytes_def)
  ultimately show ?thesis using epaxos_codec_total [of ?m] by blast
qed

text \<open>
  C17: a forged length crashes the Raft decoder.  The 42 bytes of an \<open>InstallSnapshot\<close> whose
  configuration announces \<open>2 ^ 60\<close> replica ids make \<open>Vec::with_capacity\<close> panic, before the
  decoder looks whether any of them are there.
\<close>

theorem raft_decode_forged_length:
  "let frame = put_u8 4 @ put_u64 1 @ put_u64 1 @ put_u64 1 @ put_u64 1 @ put_u8 0 @ put_u64 (2 ^ 60)
   in length frame = 42 \<and> decode esz frame = Panic"
proof -
  let ?frame = "put_u8 4 @ put_u64 1 @ put_u64 1 @ put_u64 1 @ put_u64 1 @ put_u8 0 @ put_u64 (2 ^ 60)"
  have l: "length ?frame = 42" by (simp add: put_u8_def put_u64_def)
  have "panics get_ids (put_u64 (2 ^ 60) @ [])"
    unfolding get_ids_def by (intro u64.field_panics panics_capacity) simp_all
  then have "panics get_conf (put_u8 0 @ put_u64 (2 ^ 60))"
    unfolding get_conf_def by (intro u8.field_panics) (simp_all add: panics_first)
  then have "panics (get_message esz) ?frame"
    unfolding get_message_def by (intro u8.field_panics TrueI) (simp add: u64.field_panics panics_first)
  then have "get_message esz \<lparr>buf = ?frame, pos = 0\<rparr> = Panic"
    unfolding panics_def using l by (elim allE [of _ "[]"]) simp
  then show ?thesis using l by (simp add: decode_def)
qed

end
