(* ===== verification/Epaxos_Scc.thy ===== *)
theory Epaxos_Scc
  imports Epaxos
begin

text \<open>
  Correctness of the iterative \<open>tarjan_scc\<close> of \<open>epaxos.rs\<close>: on a finite graph closed under
  successors it returns, without hitting an \<open>unwrap\<close>, a list of components that partitions
  the nodes, each component is strongly connected, and every edge leads to the same or an
  earlier component.
\<close>

section \<open>The graph\<close>

definition edge :: "(instance_id \<Rightarrow> instance_id list option) \<Rightarrow> (instance_id \<times> instance_id) set" where
  "edge succ = {(v, w). \<exists>ws. succ v = Some ws \<and> w \<in> set ws}"

definition graph_ok :: "instance_id set \<Rightarrow> (instance_id \<Rightarrow> instance_id list option) \<Rightarrow> bool" where
  "graph_ok nodes succ \<longleftrightarrow> finite nodes \<and> (\<forall>v \<in> nodes. \<exists>ws. succ v = Some ws \<and> set ws \<subseteq> nodes)"

lemma edge_nth: "succ v = Some ws \<Longrightarrow> i < length ws \<Longrightarrow> (v, ws ! i) \<in> edge succ"
  by (auto simp: edge_def)

lemma edge_Some: "succ v = Some ws \<Longrightarrow> (v, w) \<in> edge succ \<longleftrightarrow> w \<in> set ws"
  by (simp add: edge_def)

section \<open>The invariant\<close>

text \<open>
  \<open>gs\<close> are the frames of the call stack whose node is already visited (the grey nodes), with
  the cursor counting the edges that are fully accounted for.
\<close>

type_synonym frame = "instance_id \<times> nat \<times> instance_id list"

definition idx :: "(instance_id \<rightharpoonup> node_info) \<Rightarrow> instance_id \<Rightarrow> nat" where
  "idx info v = (case info v of Some i \<Rightarrow> ni_index i | None \<Rightarrow> 0)"

definition low :: "(instance_id \<rightharpoonup> node_info) \<Rightarrow> instance_id \<Rightarrow> nat" where
  "low info v = (case info v of Some i \<Rightarrow> ni_lowlink i | None \<Rightarrow> 0)"

abbreviation grey :: "frame list \<Rightarrow> instance_id set" where
  "grey gs \<equiv> fst ` set gs"

definition ti_shape :: "instance_id set \<Rightarrow> (instance_id \<rightharpoonup> node_info) \<Rightarrow> instance_id list \<Rightarrow>
    instance_id list list \<Rightarrow> nat \<Rightarrow> bool" where
  "ti_shape nodes info S cs nxt \<longleftrightarrow>
     dom info = set S \<union> set (concat cs) \<and> distinct (S @ concat cs) \<and> dom info \<subseteq> nodes
   \<and> (\<forall>x i. info x = Some i \<longrightarrow> ni_on_stack i = (x \<in> set S))
   \<and> sorted_wrt (\<lambda>x y. idx info y < idx info x) S \<and> (\<forall>x \<in> set S. idx info x < nxt)"

definition ti_frames :: "(instance_id \<Rightarrow> instance_id list option) \<Rightarrow> (instance_id \<rightharpoonup> node_info) \<Rightarrow>
    instance_id list \<Rightarrow> frame list \<Rightarrow> bool" where
  "ti_frames succ info S gs \<longleftrightarrow>
     (\<forall>(v, i, ws) \<in> set gs. succ v = Some ws \<and> i \<le> length ws \<and> v \<in> set S
        \<and> (\<forall>k < i. ws ! k \<in> dom info) \<and> (\<forall>x \<in> set S. idx info v \<le> idx info x \<longrightarrow> (v, x) \<in> (edge succ)\<^sup>*))
   \<and> sorted_wrt (\<lambda>f g. idx info (fst g) < idx info (fst f)) gs"

definition ti_black :: "(instance_id \<Rightarrow> instance_id list option) \<Rightarrow> (instance_id \<rightharpoonup> node_info) \<Rightarrow>
    instance_id list \<Rightarrow> frame list \<Rightarrow> bool" where
  "ti_black succ info S gs \<longleftrightarrow>
     (\<forall>x \<in> set S - grey gs. (\<exists>y \<in> set S. idx info y < idx info x \<and> (x, y) \<in> (edge succ)\<^sup>*)
        \<and> (\<forall>w. (x, w) \<in> edge succ \<longrightarrow> w \<in> dom info))"

definition ti_low :: "(instance_id \<Rightarrow> instance_id list option) \<Rightarrow> (instance_id \<rightharpoonup> node_info) \<Rightarrow>
    instance_id list \<Rightarrow> frame list \<Rightarrow> bool" where
  "ti_low succ info S gs \<longleftrightarrow>
     (\<forall>(v, i, ws) \<in> set gs. low info v \<le> idx info v
        \<and> (\<exists>y \<in> set S. idx info y = low info v \<and> (v, y) \<in> (edge succ)\<^sup>*)
        \<and> (\<forall>k < i. ws ! k \<in> set S \<longrightarrow> low info v \<le> idx info (ws ! k)))
   \<and> (\<forall>x \<in> set S - grey gs. \<forall>w \<in> set S. (x, w) \<in> edge succ \<longrightarrow>
        (\<forall>v \<in> grey gs. idx info v < idx info x \<longrightarrow>
           (\<forall>u \<in> grey gs. idx info u < idx info x \<longrightarrow> idx info u \<le> idx info v) \<longrightarrow>
           low info v \<le> idx info w))"

definition sccs_ok :: "(instance_id \<Rightarrow> instance_id list option) \<Rightarrow> instance_id list list \<Rightarrow> bool" where
  "sccs_ok succ cs \<longleftrightarrow>
     (\<forall>c \<in> set cs. \<forall>x \<in> set c. \<forall>y \<in> set c. (x, y) \<in> (edge succ)\<^sup>*)
   \<and> (\<forall>p < length cs. \<forall>x \<in> set (cs ! p). \<forall>w. (x, w) \<in> edge succ \<longrightarrow> (\<exists>q \<le> p. w \<in> set (cs ! q)))"

definition tinv :: "instance_id set \<Rightarrow> (instance_id \<Rightarrow> instance_id list option) \<Rightarrow> tarjan_state \<Rightarrow>
    frame list \<Rightarrow> bool" where
  "tinv nodes succ st gs \<longleftrightarrow>
     ti_shape nodes (t_info st) (t_stack st) (t_sccs st) (t_next st)
   \<and> ti_frames succ (t_info st) (t_stack st) gs \<and> ti_black succ (t_info st) (t_stack st) gs
   \<and> ti_low succ (t_info st) (t_stack st) gs \<and> sccs_ok succ (t_sccs st)"

lemma sccs_okD:
  assumes "sccs_ok succ cs"
  shows "c \<in> set cs \<Longrightarrow> x \<in> set c \<Longrightarrow> y \<in> set c \<Longrightarrow> (x, y) \<in> (edge succ)\<^sup>*"
    and "p < length cs \<Longrightarrow> x \<in> set (cs ! p) \<Longrightarrow> (x, w) \<in> edge succ \<Longrightarrow> \<exists>q \<le> p. w \<in> set (cs ! q)"
  using assms by (simp_all add: sccs_ok_def)

lemma sccs_ok_snoc:
  assumes ok: "sccs_ok succ cs" and conn: "\<And>x y. x \<in> set c \<Longrightarrow> y \<in> set c \<Longrightarrow> (x, y) \<in> (edge succ)\<^sup>*"
    and out: "\<And>x w. x \<in> set c \<Longrightarrow> (x, w) \<in> edge succ \<Longrightarrow> w \<in> set c \<or> w \<in> set (concat cs)"
  shows "sccs_ok succ (cs @ [c])"
  unfolding sccs_ok_def
proof (intro conjI allI impI ballI)
  fix d x y
  assume "d \<in> set (cs @ [c])" "x \<in> set d" "y \<in> set d"
  then show "(x, y) \<in> (edge succ)\<^sup>*" using conn sccs_okD(1) [OF ok] by auto
next
  fix p x w
  assume p: "p < length (cs @ [c])" and x: "x \<in> set ((cs @ [c]) ! p)" and e: "(x, w) \<in> edge succ"
  show "\<exists>q \<le> p. w \<in> set ((cs @ [c]) ! q)"
  proof (cases "p < length cs")
    case True
    then have "x \<in> set (cs ! p)" using x by (simp add: nth_append)
    then obtain q where "q \<le> p" "w \<in> set (cs ! q)" using sccs_okD(2) [OF ok True] e by blast
    then show ?thesis using True by (intro exI [of _ q]) (simp add: nth_append)
  next
    case False
    then have pl: "p = length cs" using p by simp
    then have "w \<in> set c \<or> w \<in> set (concat cs)" using out x e by simp
    then show ?thesis
    proof
      assume "w \<in> set c"
      then show ?thesis using pl by (intro exI [of _ p]) simp
    next
      assume "w \<in> set (concat cs)"
      then obtain d where "d \<in> set cs" "w \<in> set d" by auto
      then obtain q where "q < length cs" "w \<in> set (cs ! q)" by (metis in_set_conv_nth)
      then show ?thesis using pl by (intro exI [of _ q]) (simp add: nth_append)
    qed
  qed
qed

lemma tinvD:
  assumes "tinv nodes succ st gs"
  shows "dom (t_info st) = set (t_stack st) \<union> set (concat (t_sccs st))"
    "distinct (t_stack st @ concat (t_sccs st))" "dom (t_info st) \<subseteq> nodes"
    "t_info st x = Some i \<Longrightarrow> ni_on_stack i \<longleftrightarrow> x \<in> set (t_stack st)"
    "sorted_wrt (\<lambda>x y. idx (t_info st) y < idx (t_info st) x) (t_stack st)"
    "x \<in> set (t_stack st) \<Longrightarrow> idx (t_info st) x < t_next st"
    "sorted_wrt (\<lambda>f g. idx (t_info st) (fst g) < idx (t_info st) (fst f)) gs"
    "sccs_ok succ (t_sccs st)"
  using assms by (auto simp: tinv_def ti_shape_def ti_frames_def)

lemma tinv_frameD:
  assumes "tinv nodes succ st gs" "(v, i, ws) \<in> set gs"
  shows "succ v = Some ws" "i \<le> length ws" "v \<in> set (t_stack st)" "k < i \<Longrightarrow> ws ! k \<in> dom (t_info st)"
    "x \<in> set (t_stack st) \<Longrightarrow> idx (t_info st) v \<le> idx (t_info st) x \<Longrightarrow> (v, x) \<in> (edge succ)\<^sup>*"
    "low (t_info st) v \<le> idx (t_info st) v"
    "\<exists>y \<in> set (t_stack st). idx (t_info st) y = low (t_info st) v \<and> (v, y) \<in> (edge succ)\<^sup>*"
    "k < i \<Longrightarrow> ws ! k \<in> set (t_stack st) \<Longrightarrow> low (t_info st) v \<le> idx (t_info st) (ws ! k)"
  using assms by (auto simp: tinv_def ti_frames_def ti_low_def)

lemma tinv_grey_dom:
  assumes "tinv nodes succ st gs"
  shows "grey gs \<subseteq> dom (t_info st)"
proof
  fix x assume "x \<in> grey gs"
  then obtain f where "f \<in> set gs" "x = fst f" by blast
  then have "(x, fst (snd f), snd (snd f)) \<in> set gs" by simp
  then show "x \<in> dom (t_info st)" using tinv_frameD(3) [OF assms] tinvD(1) [OF assms] by blast
qed

lemma tinv_blackD:
  assumes "tinv nodes succ st gs" "x \<in> set (t_stack st)" "x \<notin> grey gs"
  shows "\<exists>y \<in> set (t_stack st). idx (t_info st) y < idx (t_info st) x \<and> (x, y) \<in> (edge succ)\<^sup>*"
    "(x, w) \<in> edge succ \<Longrightarrow> w \<in> dom (t_info st)"
    "(x, w) \<in> edge succ \<Longrightarrow> w \<in> set (t_stack st) \<Longrightarrow> v \<in> grey gs \<Longrightarrow> idx (t_info st) v < idx (t_info st) x \<Longrightarrow>
      (\<And>u. u \<in> grey gs \<Longrightarrow> idx (t_info st) u < idx (t_info st) x \<Longrightarrow> idx (t_info st) u \<le> idx (t_info st) v) \<Longrightarrow>
      low (t_info st) v \<le> idx (t_info st) w"
  using assms unfolding tinv_def ti_black_def ti_low_def by blast+

lemma tinvI:
  assumes "dom (t_info st) = set (t_stack st) \<union> set (concat (t_sccs st))"
    "distinct (t_stack st @ concat (t_sccs st))" "dom (t_info st) \<subseteq> nodes"
    "\<And>x i. t_info st x = Some i \<Longrightarrow> ni_on_stack i \<longleftrightarrow> x \<in> set (t_stack st)"
    "sorted_wrt (\<lambda>x y. idx (t_info st) y < idx (t_info st) x) (t_stack st)"
    "\<And>x. x \<in> set (t_stack st) \<Longrightarrow> idx (t_info st) x < t_next st"
    "sorted_wrt (\<lambda>f g. idx (t_info st) (fst g) < idx (t_info st) (fst f)) gs"
    "\<And>v i ws. (v, i, ws) \<in> set gs \<Longrightarrow> succ v = Some ws \<and> i \<le> length ws \<and> v \<in> set (t_stack st)"
    "\<And>v i ws k. (v, i, ws) \<in> set gs \<Longrightarrow> k < i \<Longrightarrow> ws ! k \<in> dom (t_info st) \<and>
      (ws ! k \<in> set (t_stack st) \<longrightarrow> low (t_info st) v \<le> idx (t_info st) (ws ! k))"
    "\<And>v i ws x. (v, i, ws) \<in> set gs \<Longrightarrow> x \<in> set (t_stack st) \<Longrightarrow> idx (t_info st) v \<le> idx (t_info st) x \<Longrightarrow>
      (v, x) \<in> (edge succ)\<^sup>*"
    "\<And>v i ws. (v, i, ws) \<in> set gs \<Longrightarrow> low (t_info st) v \<le> idx (t_info st) v \<and>
      (\<exists>y \<in> set (t_stack st). idx (t_info st) y = low (t_info st) v \<and> (v, y) \<in> (edge succ)\<^sup>*)"
    "\<And>x. x \<in> set (t_stack st) \<Longrightarrow> x \<notin> grey gs \<Longrightarrow>
      \<exists>y \<in> set (t_stack st). idx (t_info st) y < idx (t_info st) x \<and> (x, y) \<in> (edge succ)\<^sup>*"
    "\<And>x w. x \<in> set (t_stack st) \<Longrightarrow> x \<notin> grey gs \<Longrightarrow> (x, w) \<in> edge succ \<Longrightarrow> w \<in> dom (t_info st)"
    "\<And>x w v. x \<in> set (t_stack st) \<Longrightarrow> x \<notin> grey gs \<Longrightarrow> (x, w) \<in> edge succ \<Longrightarrow> w \<in> set (t_stack st) \<Longrightarrow>
      v \<in> grey gs \<Longrightarrow> idx (t_info st) v < idx (t_info st) x \<Longrightarrow>
      (\<And>u. u \<in> grey gs \<Longrightarrow> idx (t_info st) u < idx (t_info st) x \<Longrightarrow> idx (t_info st) u \<le> idx (t_info st) v) \<Longrightarrow>
      low (t_info st) v \<le> idx (t_info st) w"
    "sccs_ok succ (t_sccs st)"
  shows "tinv nodes succ st gs"
  unfolding tinv_def
proof (intro conjI)
  show "ti_shape nodes (t_info st) (t_stack st) (t_sccs st) (t_next st)"
    unfolding ti_shape_def using assms(1-6) by blast
  show "ti_frames succ (t_info st) (t_stack st) gs"
    unfolding ti_frames_def using assms(7-10) by blast
  show "ti_black succ (t_info st) (t_stack st) gs"
    unfolding ti_black_def using assms(12,13) by blast
  show "ti_low succ (t_info st) (t_stack st) gs"
    unfolding ti_low_def
  proof (intro conjI)
    show "\<forall>(v, i, ws) \<in> set gs. low (t_info st) v \<le> idx (t_info st) v
        \<and> (\<exists>y \<in> set (t_stack st). idx (t_info st) y = low (t_info st) v \<and> (v, y) \<in> (edge succ)\<^sup>*)
        \<and> (\<forall>k < i. ws ! k \<in> set (t_stack st) \<longrightarrow> low (t_info st) v \<le> idx (t_info st) (ws ! k))"
      using assms(9,11) by blast
  qed (use assms(14) in blast)
qed (rule assms(15))

section \<open>Entering a node\<close>

fun bump :: "frame list \<Rightarrow> frame list" where
  "bump [] = []"
| "bump ((v, i, ws) # gs) = (v, Suc i, ws) # gs"

lemma grey_bump [simp]: "grey (bump gs) = grey gs"
  by (cases gs rule: bump.cases) auto

lemma bump_frame:
  assumes "(v, i, ws) \<in> set (bump gs)"
  obtains "(v, i, ws) \<in> set gs" | j gs' where "gs = (v, j, ws) # gs'" "i = Suc j"
  using assms by (cases gs rule: bump.cases) auto

lemma sorted_bump:
  "sorted_wrt (\<lambda>f g. idx info (fst g) < idx info (fst f)) (bump gs) =
   sorted_wrt (\<lambda>f g. idx info (fst g) < idx info (fst f)) gs"
  by (cases gs rule: bump.cases) auto

text \<open>The grey frames all reach the newest one.\<close>

lemma grey_reaches_top:
  assumes inv: "tinv nodes succ st ((u, j, us) # gs)" and v: "(v, i, ws) \<in> set ((u, j, us) # gs)"
  shows "(v, u) \<in> (edge succ)\<^sup>*"
proof -
  have "idx (t_info st) v \<le> idx (t_info st) u"
    using v tinvD(7) [OF inv] by auto
  then show ?thesis using tinv_frameD [OF inv v] tinv_frameD(3) [OF inv, of u j us] by simp
qed

lemma tinv_enter:
  assumes inv: "tinv nodes succ st gs" and new: "t_info st w = None" and w: "w \<in> nodes" "succ w = Some ws"
    and top: "\<And>v i vs gs'. gs = (v, i, vs) # gs' \<Longrightarrow> i < length vs \<and> vs ! i = w"
  shows "tinv nodes succ (st\<lparr>t_info := (t_info st)
      (w \<mapsto> \<lparr>ni_index = t_next st, ni_lowlink = t_next st, ni_on_stack = True\<rparr>),
      t_next := t_next st + 1, t_stack := w # t_stack st\<rparr>) ((w, 0, ws) # bump gs)"
    (is "tinv nodes succ ?st ?gs")
proof -
  let ?S = "t_stack st" and ?info = "t_info st"
  have wS: "w \<notin> set ?S" "w \<notin> set (concat (t_sccs st))" using tinvD(1) [OF inv] new by blast+
  let ?info' = "?info(w \<mapsto> \<lparr>ni_index = t_next st, ni_lowlink = t_next st, ni_on_stack = True\<rparr>)"
  have idx': "idx ?info' x = (if x = w then t_next st else idx ?info x)"
    and low': "low ?info' x = (if x = w then t_next st else low ?info x)" for x
    by (simp_all add: idx_def low_def)
  have old: "x \<in> set ?S \<Longrightarrow> x \<noteq> w" for x using wS by auto
  have grey: "grey gs \<subseteq> set ?S" using tinv_frameD(3) [OF inv] by auto
  have lowlt: "low ?info v < t_next st" if "(v, i, vs) \<in> set gs" for v i vs
    using tinv_frameD(3,6) [OF inv that] tinvD(6) [OF inv, of v] by simp
  show ?thesis
  proof (rule tinvI)
    show "dom (t_info ?st) = set (t_stack ?st) \<union> set (concat (t_sccs ?st))"
      using tinvD(1) [OF inv] by auto
    show "distinct (t_stack ?st @ concat (t_sccs ?st))" using tinvD(2) [OF inv] wS by simp
    show "dom (t_info ?st) \<subseteq> nodes" using tinvD(3) [OF inv] w by simp
    show "ni_on_stack i = (x \<in> set (t_stack ?st))" if "t_info ?st x = Some i" for x i
      using that tinvD(4) [OF inv, of x i] by (auto split: if_splits)
    show "sorted_wrt (\<lambda>x y. idx (t_info ?st) y < idx (t_info ?st) x) (t_stack ?st)"
      using sorted_wrt_mono_rel [OF _ tinvD(5) [OF inv],
          of "\<lambda>x y. idx (t_info ?st) y < idx (t_info ?st) x"] tinvD(6) [OF inv] old
      by (simp add: idx')
    show "idx (t_info ?st) x < t_next ?st" if "x \<in> set (t_stack ?st)" for x
      using that tinvD(6) [OF inv, of x] by (auto simp: idx')
    show "sorted_wrt (\<lambda>f g. idx (t_info ?st) (fst g) < idx (t_info ?st) (fst f)) ?gs"
    proof -
      have so: "sorted_wrt (\<lambda>f g. idx ?info (fst g) < idx ?info (fst f)) (bump gs)"
        using tinvD(7) [OF inv] by (simp add: sorted_bump)
      have f: "fst f \<noteq> w \<and> idx ?info (fst f) < t_next st" if "f \<in> set (bump gs)" for f
      proof -
        have "fst f \<in> grey gs" using that grey_bump [of gs] by blast
        then show ?thesis using grey old tinvD(6) [OF inv, of "fst f"] by blast
      qed
      have "sorted_wrt (\<lambda>f g. idx ?info' (fst g) < idx ?info' (fst f)) (bump gs)"
        by (rule sorted_wrt_mono_rel [OF _ so]) (simp add: idx' f)
      moreover have "idx ?info' (fst f) < idx ?info' w" if "f \<in> set (bump gs)" for f
        using f [OF that] by (simp add: idx')
      ultimately show ?thesis by simp
    qed
    show "succ v = Some vs \<and> i \<le> length vs \<and> v \<in> set (t_stack ?st)" if "(v, i, vs) \<in> set ?gs" for v i vs
    proof (cases "(v, i, vs) = (w, 0, ws)")
      case False
      then have "(v, i, vs) \<in> set (bump gs)" using that by auto
      then show ?thesis
      proof (cases rule: bump_frame)
        case 1
        then show ?thesis using tinv_frameD(1-3) [OF inv] by simp
      next
        case (2 j gs')
        then show ?thesis using tinv_frameD(1-3) [OF inv, of v j vs] top [of v j vs gs'] by simp
      qed
    qed (use w in simp)
    show "vs ! k \<in> dom (t_info ?st) \<and>
        (vs ! k \<in> set (t_stack ?st) \<longrightarrow> low (t_info ?st) v \<le> idx (t_info ?st) (vs ! k))"
      if "(v, i, vs) \<in> set ?gs" "k < i" for v i vs k
    proof -
      have "(v, i, vs) \<in> set (bump gs)" using that by auto
      then have "v \<noteq> w \<and> low ?info v < t_next st \<and> (vs ! k = w \<or> vs ! k \<in> dom ?info \<and>
          (vs ! k \<in> set ?S \<longrightarrow> low ?info v \<le> idx ?info (vs ! k)))"
      proof (cases rule: bump_frame)
        case 1
        then show ?thesis using tinv_frameD(3,4,8) [OF inv 1] that(2) lowlt [OF 1] old by blast
      next
        case (2 j gs')
        then have m: "(v, j, vs) \<in> set gs" by simp
        have "k = j \<or> k < j" using that(2) 2 by auto
        then show ?thesis
          using tinv_frameD(3,4,8) [OF inv m] lowlt [OF m] old top [OF 2(1)] by blast
      qed
      then show ?thesis by (auto simp: idx' low')
    qed
    show "(v, x) \<in> (edge succ)\<^sup>*"
      if f: "(v, i, vs) \<in> set ?gs" and x: "x \<in> set (t_stack ?st)" "idx (t_info ?st) v \<le> idx (t_info ?st) x" for v i vs x
    proof (cases "v = w")
      case True
      then have "x = w" using x tinvD(6) [OF inv, of x] by (auto simp: idx' split: if_splits)
      then show ?thesis using True by simp
    next
      case False
      then have vb: "(v, i, vs) \<in> set (bump gs)" using f by auto
      then obtain i' where vg: "(v, i', vs) \<in> set gs" by (cases rule: bump_frame) auto
      show ?thesis
      proof (cases "x = w")
        case True
        from vg obtain u j us gs' where g: "gs = (u, j, us) # gs'" by (cases gs) auto
        have "(v, u) \<in> (edge succ)\<^sup>*" using grey_reaches_top [of nodes succ st u j us gs'] inv vg g by blast
        moreover have "(u, w) \<in> edge succ"
          using top [OF g] tinv_frameD(1) [OF inv, of u j us] g by (auto simp: edge_def)
        ultimately show ?thesis using True by simp
      next
        case False
        then show ?thesis using tinv_frameD(5) [OF inv vg, of x] x \<open>v \<noteq> w\<close> by (simp add: idx')
      qed
    qed
    show "low (t_info ?st) v \<le> idx (t_info ?st) v \<and>
        (\<exists>y \<in> set (t_stack ?st). idx (t_info ?st) y = low (t_info ?st) v \<and> (v, y) \<in> (edge succ)\<^sup>*)"
      if f: "(v, i, vs) \<in> set ?gs" for v i vs
    proof (cases "v = w")
      case False
      then have vb: "(v, i, vs) \<in> set (bump gs)" using f by auto
      then obtain i' where vg: "(v, i', vs) \<in> set gs" by (cases rule: bump_frame) auto
      then show ?thesis using tinv_frameD(6,7) [OF inv vg] False old by (auto simp: idx' low')
    qed (simp add: idx' low')
    show "\<exists>y \<in> set (t_stack ?st). idx (t_info ?st) y < idx (t_info ?st) x \<and> (x, y) \<in> (edge succ)\<^sup>*"
      if "x \<in> set (t_stack ?st)" "x \<notin> grey ?gs" for x
    proof -
      have "x \<in> set ?S" "x \<notin> grey gs" "x \<noteq> w" using that grey_bump [of gs] by auto
      then show ?thesis using tinv_blackD(1) [OF inv, of x] old by (auto simp: idx')
    qed
    show "u \<in> dom (t_info ?st)" if "x \<in> set (t_stack ?st)" "x \<notin> grey ?gs" "(x, u) \<in> edge succ" for x u
    proof -
      have "x \<in> set ?S" "x \<notin> grey gs" using that grey_bump [of gs] by auto
      then show ?thesis using tinv_blackD(2) [OF inv] that(3) by simp
    qed
    show "low (t_info ?st) v \<le> idx (t_info ?st) u"
      if x: "x \<in> set (t_stack ?st)" "x \<notin> grey ?gs" "(x, u) \<in> edge succ" "u \<in> set (t_stack ?st)"
        "v \<in> grey ?gs" "idx (t_info ?st) v < idx (t_info ?st) x"
        and own: "\<And>u. u \<in> grey ?gs \<Longrightarrow> idx (t_info ?st) u < idx (t_info ?st) x \<Longrightarrow> idx (t_info ?st) u \<le> idx (t_info ?st) v"
      for x u v
    proof -
      have xS: "x \<in> set ?S" "x \<notin> grey gs" "x \<noteq> w" using x grey_bump [of gs] by auto
      have vw: "v \<noteq> w" using x(6) xS tinvD(6) [OF inv xS(1)] by (auto simp: idx')
      then have vg: "v \<in> grey gs" using x(5) grey_bump [of gs] by auto
      have "u \<in> dom ?info" using tinv_blackD(2) [OF inv xS(1,2) x(3)] .
      then have uw: "u \<noteq> w" using new by auto
      then have "u \<in> set ?S" using x(4) by simp
      moreover have "idx ?info z \<le> idx ?info v" if "z \<in> grey gs" "idx ?info z < idx ?info x" for z
        using own [of z] that grey old vw xS(3) grey_bump [of gs] by (auto simp: idx')
      ultimately show ?thesis
        using tinv_blackD(3) [OF inv xS(1,2) x(3) _ vg] x(6) vw uw xS(3) by (simp add: idx' low')
    qed
  qed (use tinvD(8) [OF inv] in simp)
qed

section \<open>Looking at an edge\<close>

lemma tinv_advance:
  assumes inv: "tinv nodes succ st ((v, i, ws) # gs)" and i: "i < length ws"
    and d: "ws ! i \<in> dom (t_info st)"
    and lo: "ws ! i \<in> set (t_stack st) \<Longrightarrow> low (t_info st) v \<le> idx (t_info st) (ws ! i)"
  shows "tinv nodes succ st ((v, Suc i, ws) # gs)"
proof (rule tinvI)
  have fr: "\<exists>j. (u, j, us) \<in> set ((v, i, ws) # gs)" if "(u, k, us) \<in> set ((v, Suc i, ws) # gs)" for u k us
    using that by auto
  show "succ u = Some us \<and> k \<le> length us \<and> u \<in> set (t_stack st)"
    if "(u, k, us) \<in> set ((v, Suc i, ws) # gs)" for u k us
    using that i tinv_frameD(1-3) [OF inv, of u k us] tinv_frameD(1-3) [OF inv, of v i ws] by auto
  show "us ! k \<in> dom (t_info st) \<and> (us ! k \<in> set (t_stack st) \<longrightarrow> low (t_info st) u \<le> idx (t_info st) (us ! k))"
    if m: "(u, j, us) \<in> set ((v, Suc i, ws) # gs)" "k < j" for u j us k
  proof (cases "(u, j, us) \<in> set gs")
    case True
    then show ?thesis using tinv_frameD(4,8) [OF inv, of u j us k] m(2) by simp
  next
    case False
    then have "u = v" "us = ws" "k = i \<or> k < i" using m by auto
    then show ?thesis using tinv_frameD(4,8) [OF inv, of v i ws k] d lo by auto
  qed
  show "(u, x) \<in> (edge succ)\<^sup>*" if "(u, k, us) \<in> set ((v, Suc i, ws) # gs)"
    "x \<in> set (t_stack st)" "idx (t_info st) u \<le> idx (t_info st) x" for u k us x
    using fr [OF that(1)] tinv_frameD(5) [OF inv] that(2,3) by blast
  show "low (t_info st) u \<le> idx (t_info st) u \<and>
      (\<exists>y \<in> set (t_stack st). idx (t_info st) y = low (t_info st) u \<and> (u, y) \<in> (edge succ)\<^sup>*)"
    if "(u, k, us) \<in> set ((v, Suc i, ws) # gs)" for u k us
    using fr [OF that] tinv_frameD(6,7) [OF inv] by blast
qed (use tinvD [OF inv] tinv_blackD [OF inv] in \<open>simp_all\<close>)

text \<open>Lowering a link to the index of a stacked node that is reachable.\<close>

lemma idx_lower [simp]: "info v = Some vi \<Longrightarrow> idx (info(v \<mapsto> vi\<lparr>ni_lowlink := l\<rparr>)) = idx info"
  by (auto simp: idx_def fun_eq_iff)

lemma low_lower: "low (info(v \<mapsto> vi\<lparr>ni_lowlink := l\<rparr>)) = (low info)(v := l)"
  by (auto simp: low_def fun_eq_iff)

lemma tinv_lower:
  assumes inv: "tinv nodes succ st gs" and v: "(v, i, ws) \<in> set gs" "t_info st v = Some vi"
    and y: "y \<in> set (t_stack st)" "(v, y) \<in> (edge succ)\<^sup>*" "idx (t_info st) y = l"
  shows "tinv nodes succ (st\<lparr>t_info := (t_info st)(v \<mapsto> vi\<lparr>ni_lowlink := min (ni_lowlink vi) l\<rparr>)\<rparr>) gs"
    (is "tinv nodes succ ?st gs")
proof -
  let ?info' = "(t_info st)(v \<mapsto> vi\<lparr>ni_lowlink := min (ni_lowlink vi) l\<rparr>)"
  have s1: "t_info ?st = ?info'" "t_stack ?st = t_stack st" "t_sccs ?st = t_sccs st" "t_next ?st = t_next st"
    by simp_all
  have lv: "low (t_info st) v = ni_lowlink vi" using v(2) by (simp add: low_def)
  have idx': "idx ?info' = idx (t_info st)" using v(2) by simp
  have low': "low ?info' = (low (t_info st))(v := min (low (t_info st) v) l)" by (simp add: low_lower lv)
  have le: "low ?info' u \<le> low (t_info st) u" for u by (simp add: low')
  have dom': "dom ?info' = dom (t_info st)" using v(2) by auto
  show ?thesis
  proof (rule tinvI)
    show "ni_on_stack j = (x \<in> set (t_stack ?st))" if "t_info ?st x = Some j" for x j
      using that tinvD(4) [OF inv, of x j] tinvD(4) [OF inv v(2)] by (auto split: if_splits)
    show "us ! k \<in> dom (t_info ?st) \<and>
        (us ! k \<in> set (t_stack ?st) \<longrightarrow> low (t_info ?st) u \<le> idx (t_info ?st) (us ! k))"
      if "(u, j, us) \<in> set gs" "k < j" for u j us k
      using tinv_frameD(4,8) [OF inv that(1,2)] le [of u] unfolding s1 idx' dom' by fastforce
    show "low (t_info ?st) u \<le> idx (t_info ?st) u \<and>
        (\<exists>y \<in> set (t_stack ?st). idx (t_info ?st) y = low (t_info ?st) u \<and> (u, y) \<in> (edge succ)\<^sup>*)"
      if u: "(u, j, us) \<in> set gs" for u j us
    proof (cases "u = v \<and> l < low (t_info st) v")
      case True
      then show ?thesis using y tinv_frameD(6) [OF inv u] unfolding s1 idx' low' by auto
    next
      case False
      then have "low ?info' u = low (t_info st) u" by (auto simp: low')
      then show ?thesis using tinv_frameD(6,7) [OF inv u] unfolding s1 idx' by simp
    qed
    show "low (t_info ?st) u \<le> idx (t_info ?st) w"
      if x: "x \<in> set (t_stack ?st)" "x \<notin> grey gs" "(x, w) \<in> edge succ" "w \<in> set (t_stack ?st)"
        "u \<in> grey gs" "idx (t_info ?st) u < idx (t_info ?st) x"
        "\<And>z. z \<in> grey gs \<Longrightarrow> idx (t_info ?st) z < idx (t_info ?st) x \<Longrightarrow> idx (t_info ?st) z \<le> idx (t_info ?st) u"
      for x w u
    proof -
      have "low (t_info st) u \<le> idx (t_info st) w"
        using x unfolding s1 idx' by (intro tinv_blackD(3) [OF inv, of x w u]) blast+
      then show ?thesis using le [of u] unfolding s1 idx' by simp
    qed
    show "x \<in> set (t_stack ?st) \<Longrightarrow> x \<notin> grey gs \<Longrightarrow> (x, w) \<in> edge succ \<Longrightarrow> w \<in> dom (t_info ?st)" for x w
      using tinv_blackD(2) [OF inv] unfolding s1 dom' by blast
    show "\<exists>y \<in> set (t_stack ?st). idx (t_info ?st) y < idx (t_info ?st) x \<and> (x, y) \<in> (edge succ)\<^sup>*"
      if "x \<in> set (t_stack ?st)" "x \<notin> grey gs" for x
      using tinv_blackD(1) [OF inv, of x] that unfolding s1 idx' by blast
    show "(u, x) \<in> (edge succ)\<^sup>*" if "(u, j, us) \<in> set gs" "x \<in> set (t_stack ?st)"
      "idx (t_info ?st) u \<le> idx (t_info ?st) x" for u j us x
      using tinv_frameD(5) [OF inv that(1)] that(2,3) unfolding s1 idx' by blast
  qed (unfold s1 idx' dom', use tinvD [OF inv] tinv_frameD(1-3) [OF inv] in \<open>blast+\<close>)
qed

section \<open>Leaving a node\<close>

text \<open>The grey node that owns a finished node of the stack is the newest one below it.\<close>

lemma top_owner:
  assumes inv: "tinv nodes succ st ((v, i, ws) # gs)" and u: "u \<in> grey ((v, i, ws) # gs)"
  shows "idx (t_info st) u \<le> idx (t_info st) v"
  using tinvD(7) [OF inv] u by auto

lemma second_owner:
  assumes inv: "tinv nodes succ st ((v, i, ws) # (p, j, ps) # gs)" and u: "u \<in> grey ((p, j, ps) # gs)"
    and le: "idx (t_info st) p \<le> idx (t_info st) u"
  shows "u = p"
  using tinvD(7) [OF inv] u le by fastforce

lemma tinv_blacken:
  assumes inv: "tinv nodes succ st ((v, length ws, ws) # gs)"
    and lo: "low (t_info st) v < idx (t_info st) v"
    and par: "\<And>p j ps gs'. gs = (p, j, ps) # gs' \<Longrightarrow> low (t_info st) p \<le> low (t_info st) v"
  shows "tinv nodes succ st gs"
proof (rule tinvI)
  let ?gs = "(v, length ws, ws) # gs"
  have sub: "f \<in> set gs \<Longrightarrow> f \<in> set ?gs" for f by simp
  have vf: "(v, length ws, ws) \<in> set ?gs" by simp
  have edges: "(v, w) \<in> edge succ \<Longrightarrow> \<exists>k < length ws. w = ws ! k" for w
    using tinv_frameD(1) [OF inv vf] by (auto simp: edge_Some in_set_conv_nth)
  show "\<exists>y \<in> set (t_stack st). idx (t_info st) y < idx (t_info st) x \<and> (x, y) \<in> (edge succ)\<^sup>*"
    if "x \<in> set (t_stack st)" "x \<notin> grey gs" for x
  proof (cases "x = v")
    case True
    then show ?thesis using tinv_frameD(7) [OF inv vf] lo by force
  next
    case False
    then show ?thesis using tinv_blackD(1) [OF inv that(1)] that(2) by simp
  qed
  show "w \<in> dom (t_info st)" if "x \<in> set (t_stack st)" "x \<notin> grey gs" "(x, w) \<in> edge succ" for x w
  proof (cases "x = v")
    case True
    then show ?thesis using edges tinv_frameD(4) [OF inv vf] that(3) by blast
  next
    case False
    then show ?thesis using tinv_blackD(2) [OF inv that(1)] that(2,3) by simp
  qed
  show "low (t_info st) u \<le> idx (t_info st) w"
    if x: "x \<in> set (t_stack st)" "x \<notin> grey gs" and e: "(x, w) \<in> edge succ" "w \<in> set (t_stack st)"
      and u: "u \<in> grey gs" "idx (t_info st) u < idx (t_info st) x"
      and own: "\<And>z. z \<in> grey gs \<Longrightarrow> idx (t_info st) z < idx (t_info st) x \<Longrightarrow> idx (t_info st) z \<le> idx (t_info st) u"
    for x w u
  proof (cases "idx (t_info st) v \<le> idx (t_info st) x")
    case True
    obtain p j ps gs' where gs: "gs = (p, j, ps) # gs'" using u(1) by (cases gs) auto
    have "idx (t_info st) p < idx (t_info st) v" using tinvD(7) [OF inv] gs by simp
    then have "idx (t_info st) p \<le> idx (t_info st) u" using own [of p] True gs by simp
    then have "u = p" using second_owner [of nodes succ st v _ ws p j ps gs' u] inv gs u(1) by simp
    then have "low (t_info st) u \<le> low (t_info st) v" using par [OF gs] by simp
    moreover have "low (t_info st) v \<le> idx (t_info st) w"
    proof (cases "x = v")
      case True
      then show ?thesis using edges e tinv_frameD(8) [OF inv vf] by blast
    next
      case False
      moreover have "idx (t_info st) v \<noteq> idx (t_info st) x"
        using False x(1) tinv_frameD(3) [OF inv vf] tinvD(5) [OF inv]
        by (metis in_set_conv_nth less_irrefl linorder_neqE_nat sorted_wrt_iff_nth_less)
      ultimately have "x \<notin> grey ?gs" "idx (t_info st) v < idx (t_info st) x" using x(2) True by simp_all
      then show ?thesis
        using tinv_blackD(3) [OF inv x(1) _ e, of v] top_owner [OF inv] by simp
    qed
    ultimately show ?thesis by simp
  next
    case False
    then have "x \<notin> grey ?gs" using x(2) by auto
    moreover have "idx (t_info st) z \<le> idx (t_info st) u"
      if "z \<in> grey ?gs" "idx (t_info st) z < idx (t_info st) x" for z
      using that own [of z] False by auto
    ultimately show ?thesis using tinv_blackD(3) [OF inv x(1) _ e, of u] u by simp
  qed
  show "succ u = Some us \<and> j \<le> length us \<and> u \<in> set (t_stack st)" if "(u, j, us) \<in> set gs" for u j us
    using tinv_frameD(1-3) [OF inv sub [OF that]] by blast
  show "us ! k \<in> dom (t_info st) \<and> (us ! k \<in> set (t_stack st) \<longrightarrow> low (t_info st) u \<le> idx (t_info st) (us ! k))"
    if "(u, j, us) \<in> set gs" "k < j" for u j us k
    using tinv_frameD(4,8) [OF inv sub [OF that(1)] that(2)] by blast
  show "(u, x) \<in> (edge succ)\<^sup>*"
    if "(u, j, us) \<in> set gs" "x \<in> set (t_stack st)" "idx (t_info st) u \<le> idx (t_info st) x" for u j us x
    using tinv_frameD(5) [OF inv sub [OF that(1)] that(2,3)] .
  show "low (t_info st) u \<le> idx (t_info st) u \<and>
      (\<exists>y \<in> set (t_stack st). idx (t_info st) y = low (t_info st) u \<and> (u, y) \<in> (edge succ)\<^sup>*)"
    if "(u, j, us) \<in> set gs" for u j us
    using tinv_frameD(6,7) [OF inv sub [OF that]] by blast
qed (use tinvD [OF inv] in \<open>simp_all\<close>)

lemma stack_reaches_top:
  assumes inv: "tinv nodes succ st ((v, i, ws) # gs)" and x: "x \<in> set (t_stack st)"
  shows "(x, v) \<in> (edge succ)\<^sup>*"
  using x
proof (induction "idx (t_info st) x" arbitrary: x rule: less_induct)
  case less
  show ?case
  proof (cases "x \<in> grey ((v, i, ws) # gs)")
    case True
    then obtain f where "f \<in> set ((v, i, ws) # gs)" "fst f = x" by blast
    then have "(x, fst (snd f), snd (snd f)) \<in> set ((v, i, ws) # gs)" by (metis prod.collapse)
    then show ?thesis by (rule grey_reaches_top [OF inv])
  next
    case False
    then obtain y where "y \<in> set (t_stack st)" "idx (t_info st) y < idx (t_info st) x" "(x, y) \<in> (edge succ)\<^sup>*"
      using tinv_blackD(1) [OF inv less.prems] by blast
    then show ?thesis using less.hyps [of y] by (meson rtrancl_trans)
  qed
qed

text \<open>Popping a component clears the stack flags of its nodes and nothing else.\<close>

definition unstack :: "instance_id set \<Rightarrow> (instance_id \<rightharpoonup> node_info) \<Rightarrow> instance_id \<rightharpoonup> node_info" where
  "unstack A info x = (if x \<in> A then map_option (\<lambda>i. i\<lparr>ni_on_stack := False\<rparr>) (info x) else info x)"

lemma idx_unstack [simp]: "idx (unstack A info) = idx info"
  by (auto simp: idx_def unstack_def fun_eq_iff split: option.splits)

lemma low_unstack [simp]: "low (unstack A info) = low info"
  by (auto simp: low_def unstack_def fun_eq_iff split: option.splits)

lemma dom_unstack [simp]: "dom (unstack A info) = dom info"
  by (auto simp: unstack_def dom_def)

lemma pop_component_eq:
  assumes "v \<notin> set xs" "set (xs @ [v]) \<subseteq> dom info"
  shows "pop_component v (xs @ v # S) info acc = Some (acc @ xs @ [v], S, unstack (set (xs @ [v])) info)"
  using assms
proof (induction xs arbitrary: info acc)
  case Nil
  then obtain i where "info v = Some i" by auto
  then show ?case by (auto simp: unstack_def fun_eq_iff)
next
  case (Cons x xs)
  then obtain i where i: "info x = Some i" by auto
  let ?info = "info(x \<mapsto> i\<lparr>ni_on_stack := False\<rparr>)"
  have "unstack (set (xs @ [v])) ?info = unstack (set ((x # xs) @ [v])) info"
    using i by (auto simp: unstack_def fun_eq_iff)
  moreover have "pop_component v (xs @ v # S) ?info (acc @ [x])
      = Some ((acc @ [x]) @ xs @ [v], S, unstack (set (xs @ [v])) ?info)"
    using Cons.prems by (intro Cons.IH) auto
  ultimately show ?case using i Cons.prems by (auto simp: Let_def)
qed

lemma tinv_pop:
  assumes inv: "tinv nodes succ st ((v, length ws, ws) # gs)"
    and lo: "low (t_info st) v = idx (t_info st) v" and S: "t_stack st = xs @ v # S"
  shows "tinv nodes succ (st\<lparr>t_info := unstack (set (xs @ [v])) (t_info st), t_stack := S,
      t_sccs := t_sccs st @ [xs @ [v]]\<rparr>) gs" (is "tinv nodes succ ?st gs")
proof -
  let ?gs = "(v, length ws, ws) # gs" and ?info = "t_info st" and ?C = "set (xs @ [v])"
  let ?info' = "unstack ?C ?info"
  have s1: "t_info ?st = ?info'" "t_stack ?st = S" "t_sccs ?st = t_sccs st @ [xs @ [v]]" "t_next ?st = t_next st"
    by simp_all
  have vf: "(v, length ws, ws) \<in> set ?gs" by simp
  have stk: "set (t_stack st) = ?C \<union> set S" using S by auto
  have dis: "?C \<inter> set S = {}" using tinvD(2) [OF inv] S by auto
  have up: "x \<in> ?C \<longleftrightarrow> idx ?info v \<le> idx ?info x" if "x \<in> set (t_stack st)" for x
    using tinvD(5) [OF inv] that S by (auto simp: sorted_wrt_append)
  have inS: "x \<in> set S" if "x \<in> set (t_stack st)" "idx ?info x < idx ?info v" for x
    using that up [OF that(1)] stk by auto
  have below: "idx ?info x < idx ?info v" if "x \<in> set S" for x
    using tinvD(5) [OF inv] that S by (simp add: sorted_wrt_append)
  have gS: "u \<in> grey gs \<Longrightarrow> u \<in> set S" for u
    using tinvD(7) [OF inv] tinv_frameD(3) [OF inv] inS by fastforce
  have gC: "x \<in> ?C \<Longrightarrow> x \<noteq> v \<Longrightarrow> x \<notin> grey ?gs" for x using gS dis by auto
  have out: "w \<in> ?C \<or> w \<in> set (concat (t_sccs st))" if x: "x \<in> ?C" and e: "(x, w) \<in> edge succ" for x w
  proof -
    have xS: "x \<in> set (t_stack st)" using x stk by blast
    have "w \<in> dom ?info \<and> (w \<in> set (t_stack st) \<longrightarrow> idx ?info v \<le> idx ?info w)"
    proof (cases "x = v")
      case True
      then obtain k where "k < length ws" "w = ws ! k"
        using e tinv_frameD(1) [OF inv vf] by (auto simp: edge_Some in_set_conv_nth)
      then show ?thesis using tinv_frameD(4,8) [OF inv vf] lo by simp
    next
      case False
      then have "idx ?info v \<noteq> idx ?info x" using x tinvD(5) [OF inv] S by (fastforce simp: sorted_wrt_append)
      then have "idx ?info v < idx ?info x" using up [OF xS] x by simp
      then have "low ?info v \<le> idx ?info w" if "w \<in> set (t_stack st)"
        by (intro tinv_blackD(3) [OF inv xS gC [OF x False] e that]) (use top_owner [OF inv] in auto)
      then show ?thesis using tinv_blackD(2) [OF inv xS gC [OF x False] e] lo by simp
    qed
    then show ?thesis using tinvD(1) [OF inv] up by blast
  qed
  show ?thesis
  proof (rule tinvI, unfold s1 idx_unstack low_unstack dom_unstack)
    show "sccs_ok succ (t_sccs st @ [xs @ [v]])"
    proof (rule sccs_ok_snoc [OF tinvD(8) [OF inv]])
      show "(x, y) \<in> (edge succ)\<^sup>*" if "x \<in> ?C" "y \<in> ?C" for x y
      proof -
        have "(x, v) \<in> (edge succ)\<^sup>*" using stack_reaches_top [OF inv] that(1) stk by blast
        moreover have "(v, y) \<in> (edge succ)\<^sup>*" using tinv_frameD(5) [OF inv vf] that(2) stk up by blast
        ultimately show ?thesis by simp
      qed
    qed (rule out)
    show "dom ?info = set S \<union> set (concat (t_sccs st @ [xs @ [v]]))" using tinvD(1) [OF inv] stk by auto
    show "distinct (S @ concat (t_sccs st @ [xs @ [v]]))" using tinvD(2) [OF inv] S by auto
    show "ni_on_stack i = (x \<in> set S)" if "?info' x = Some i" for x i
      using that tinvD(4) [OF inv, of x] dis stk by (auto simp: unstack_def split: if_splits)
    show "sorted_wrt (\<lambda>x y. idx ?info y < idx ?info x) S"
      using tinvD(5) [OF inv] S by (simp add: sorted_wrt_append)
    show "\<exists>y \<in> set S. idx ?info y < idx ?info x \<and> (x, y) \<in> (edge succ)\<^sup>*"
      if x: "x \<in> set S" "x \<notin> grey gs" for x
    proof -
      have "x \<in> set (t_stack st)" "x \<notin> grey ?gs" using x stk dis by auto
      then obtain y where "y \<in> set (t_stack st)" "idx ?info y < idx ?info x" "(x, y) \<in> (edge succ)\<^sup>*"
        using tinv_blackD(1) [OF inv] by blast
      then show ?thesis using inS below [OF x(1)] by (meson order.strict_trans)
    qed
    show "w \<in> dom ?info" if "x \<in> set S" "x \<notin> grey gs" "(x, w) \<in> edge succ" for x w
      using tinv_blackD(2) [OF inv _ _ that(3)] that(1,2) stk dis by auto
    show "low ?info u \<le> idx ?info u \<and> (\<exists>y \<in> set S. idx ?info y = low ?info u \<and> (u, y) \<in> (edge succ)\<^sup>*)"
      if u: "(u, j, us) \<in> set gs" for u j us
    proof -
      have f: "(u, j, us) \<in> set ?gs" using u by simp
      obtain y where y: "y \<in> set (t_stack st)" "idx ?info y = low ?info u" "(u, y) \<in> (edge succ)\<^sup>*"
        using tinv_frameD(7) [OF inv f] by blast
      have "idx ?info u < idx ?info v" using below gS u by force
      then show ?thesis using y inS [OF y(1)] tinv_frameD(6) [OF inv f] by (auto intro!: bexI [of _ y])
    qed
    show "low ?info u \<le> idx ?info w"
      if x: "x \<in> set S" "x \<notin> grey gs" and e: "(x, w) \<in> edge succ" "w \<in> set S"
        and u: "u \<in> grey gs" "idx ?info u < idx ?info x"
        and own: "\<And>z. z \<in> grey gs \<Longrightarrow> idx ?info z < idx ?info x \<Longrightarrow> idx ?info z \<le> idx ?info u"
      for x w u
    proof -
      have "x \<in> set (t_stack st)" "x \<notin> grey ?gs" using x stk dis by auto
      moreover have "idx ?info z \<le> idx ?info u" if "z \<in> grey ?gs" "idx ?info z < idx ?info x" for z
        using that own [of z] below [OF x(1)] by auto
      ultimately show ?thesis using tinv_blackD(3) [OF inv _ _ e(1), of u] e(2) u stk by simp
    qed
    have sub: "f \<in> set gs \<Longrightarrow> f \<in> set ?gs" for f by simp
    show "succ u = Some us \<and> j \<le> length us \<and> u \<in> set S" if "(u, j, us) \<in> set gs" for u j us
      using tinv_frameD(1,2) [OF inv sub [OF that]] gS [of u] that by force
    show "us ! k \<in> dom ?info \<and> (us ! k \<in> set S \<longrightarrow> low ?info u \<le> idx ?info (us ! k))"
      if "(u, j, us) \<in> set gs" "k < j" for u j us k
      using tinv_frameD(4,8) [OF inv sub [OF that(1)] that(2)] stk by blast
    show "(u, x) \<in> (edge succ)\<^sup>*"
      if "(u, j, us) \<in> set gs" "x \<in> set S" "idx ?info u \<le> idx ?info x" for u j us x
      using tinv_frameD(5) [OF inv sub [OF that(1)] _ that(3)] that(2) stk by blast
    show "idx ?info x < t_next st" if "x \<in> set S" for x using tinvD(6) [OF inv] that stk by blast
  qed (use tinvD(3,7) [OF inv] in auto)
qed

section \<open>The loop\<close>

definition tready :: "instance_id set \<Rightarrow> (instance_id \<Rightarrow> instance_id list option) \<Rightarrow> tarjan_state \<Rightarrow> bool" where
  "tready nodes succ st \<longleftrightarrow>
     (case t_call st of
        [] \<Rightarrow> tinv nodes succ st []
      | (v, i, ws) # rest \<Rightarrow>
          (\<forall>f \<in> set rest. fst (snd f) \<noteq> 0) \<and>
          (if i = 0
           then t_info st v = None \<and> v \<in> nodes \<and> succ v = Some ws \<and>
                (\<exists>gs. tinv nodes succ st gs \<and> bump gs = rest \<and>
                   (\<forall>u j us gs'. gs = (u, j, us) # gs' \<longrightarrow> j < length us \<and> us ! j = v))
           else tinv nodes succ st ((v, i, ws) # rest)))"

definition unseen :: "instance_id set \<Rightarrow> tarjan_state \<Rightarrow> instance_id set" where
  "unseen nodes st = nodes - dom (t_info st) - fst ` set (t_call st)"

definition tmeasure :: "instance_id set \<Rightarrow> (instance_id \<Rightarrow> instance_id list option) \<Rightarrow> tarjan_state \<Rightarrow> nat" where
  "tmeasure nodes succ st =
     (\<Sum>x \<in> unseen nodes st. length (the (succ x)) + 1)
   + sum_list (map (\<lambda>(v, i, ws). length ws + 1 - i) (t_call st))"

lemma enter_ready:
  assumes r: "tready nodes succ st" and c: "t_call st = (v, i, ws) # rest"
  shows "tinv nodes succ (tarjan_enter v i st) ((v, i, ws) # rest)"
    and "t_call (tarjan_enter v i st) = t_call st"
    and "dom (t_info (tarjan_enter v i st)) = insert v (dom (t_info st))"
proof -
  show "t_call (tarjan_enter v i st) = t_call st" by (simp add: tarjan_enter_def)
  show inv: "tinv nodes succ (tarjan_enter v i st) ((v, i, ws) # rest)"
  proof (cases "i = 0")
    case True
    with r c obtain gs where "t_info st v = None" "v \<in> nodes" "succ v = Some ws" "tinv nodes succ st gs"
      "bump gs = rest" "\<forall>u j us gs'. gs = (u, j, us) # gs' \<longrightarrow> j < length us \<and> us ! j = v"
      by (auto simp: tready_def)
    then show ?thesis using tinv_enter [of nodes succ st gs v ws] True by (simp add: tarjan_enter_def)
  next
    case False
    then show ?thesis using r c by (simp add: tready_def tarjan_enter_def)
  qed
  have "v \<in> dom (t_info (tarjan_enter v i st))"
    using tinvD(1) [OF inv] tinv_frameD(3) [OF inv, of v i ws] by simp
  then show "dom (t_info (tarjan_enter v i st)) = insert v (dom (t_info st))"
    by (auto simp: tarjan_enter_def split: if_splits)
qed

lemma edge_ready:
  assumes g: "graph_ok nodes succ" and inv: "tinv nodes succ st ((v, i, ws) # rest)"
    and c: "t_call st = (v, Suc i, ws) # rest" and i: "i < length ws"
    and rest: "\<forall>f \<in> set rest. fst (snd f) \<noteq> 0"
  obtains st' where "tarjan_edge succ v (ws ! i) st = Some st'" "tready nodes succ st'"
    "tmeasure nodes succ st' = tmeasure nodes succ st" "unseen nodes st' \<subseteq> unseen nodes st"
proof -
  let ?w = "ws ! i"
  have f: "(v, i, ws) \<in> set ((v, i, ws) # rest)" by simp
  have vS: "v \<in> set (t_stack st)" "succ v = Some ws" using tinv_frameD [OF inv f] by simp_all
  then obtain vi where vi: "t_info st v = Some vi" using tinvD(1) [OF inv] by blast
  have vn: "v \<in> nodes" using tinvD(3) [OF inv] vi by blast
  have wn: "?w \<in> nodes" using g vn vS(2) i by (fastforce simp: graph_ok_def)
  have e: "(v, ?w) \<in> edge succ" using edge_nth [of succ v ws i] vS(2) i by simp
  show thesis
  proof (cases "t_info st ?w")
    case None
    obtain us where us: "succ ?w = Some us" using g wn by (auto simp: graph_ok_def)
    let ?st = "st\<lparr>t_call := (?w, 0, us) # t_call st\<rparr>"
    have inv': "tinv nodes succ ?st ((v, i, ws) # rest)" using inv by (simp add: tinv_def)
    have ex: "\<exists>gs. tinv nodes succ ?st gs \<and> bump gs = (v, Suc i, ws) # rest \<and>
        (\<forall>u j us gs'. gs = (u, j, us) # gs' \<longrightarrow> j < length us \<and> us ! j = ?w)"
      using inv' i by (intro exI [of _ "(v, i, ws) # rest"]) simp
    have "grey ((v, i, ws) # rest) \<subseteq> dom (t_info st)" by (rule tinv_grey_dom [OF inv])
    then have nc: "?w \<notin> fst ` set (t_call st)" using None c by auto
    have "?w \<in> unseen nodes st" using wn None nc by (simp add: unseen_def domIff)
    moreover have un: "unseen nodes ?st = unseen nodes st - {?w}" by (auto simp: unseen_def)
    moreover have "finite (unseen nodes st)" using g by (simp add: unseen_def graph_ok_def)
    ultimately have "(\<Sum>x \<in> unseen nodes st. length (the (succ x)) + 1)
        = length us + 1 + (\<Sum>x \<in> unseen nodes ?st. length (the (succ x)) + 1)"
      using us by (simp add: sum.remove)
    then have "tmeasure nodes succ ?st = tmeasure nodes succ st" by (simp add: tmeasure_def)
    moreover have "tready nodes succ ?st"
      using ex None wn us rest c by (simp add: tready_def)
    moreover have "unseen nodes ?st \<subseteq> unseen nodes st" using un by blast
    ultimately show thesis using that [of ?st] None us by (simp add: tarjan_edge_def)
  next
    case (Some wi)
    then have wd: "?w \<in> dom (t_info st)" by blast
    show thesis
    proof (cases "ni_on_stack wi")
      case True
      then have wS: "?w \<in> set (t_stack st)" using tinvD(4) [OF inv Some] by simp
      let ?info = "(t_info st)(v \<mapsto> vi\<lparr>ni_lowlink := min (ni_lowlink vi) (ni_index wi)\<rparr>)"
      let ?st = "st\<lparr>t_info := ?info\<rparr>"
      have ix: "idx (t_info st) ?w = ni_index wi" using Some by (simp add: idx_def)
      have inv1: "tinv nodes succ ?st ((v, i, ws) # rest)"
        by (rule tinv_lower [OF inv f vi wS r_into_rtrancl [OF e] ix])
      have "low ?info v \<le> idx ?info ?w" using ix vi by (simp add: low_lower)
      then have "tinv nodes succ ?st ((v, Suc i, ws) # rest)"
        by (intro tinv_advance [OF inv1 i]) (use wd in auto)
      then have "tready nodes succ ?st" using c rest by (simp add: tready_def)
      moreover have un: "unseen nodes ?st = unseen nodes st" using vi by (auto simp: unseen_def)
      then have "tmeasure nodes succ ?st = tmeasure nodes succ st" by (simp add: tmeasure_def)
      ultimately show thesis using that [of ?st] un Some True vi by (simp add: tarjan_edge_def)
    next
      case False
      then have "?w \<notin> set (t_stack st)" using tinvD(4) [OF inv Some] by simp
      then have "tinv nodes succ st ((v, Suc i, ws) # rest)" by (intro tinv_advance [OF inv i wd]) simp
      then have "tready nodes succ st" using c rest by (simp add: tready_def)
      then show thesis using that Some False by (simp add: tarjan_edge_def)
    qed
  qed
qed

text \<open>\<open>tinv\<close> does not mention the call stack itself.\<close>

lemma tinv_call [simp]: "tinv nodes succ (st\<lparr>t_call := c\<rparr>) gs = tinv nodes succ st gs"
  by (simp add: tinv_def)

lemma close_pop:
  assumes inv: "tinv nodes succ st ((v, length ws, ws) # rest)"
    and root: "low (t_info st) v = idx (t_info st) v"
  obtains st2 where "tarjan_close v st = Some st2" "tinv nodes succ st2 rest"
    "idx (t_info st2) = idx (t_info st)" "low (t_info st2) = low (t_info st)"
    "dom (t_info st2) = dom (t_info st)"
proof -
  have f: "(v, length ws, ws) \<in> set ((v, length ws, ws) # rest)" by simp
  have vS: "v \<in> set (t_stack st)" using tinv_frameD(3) [OF inv f] .
  then obtain vi where vi: "t_info st v = Some vi" using tinvD(1) [OF inv] by blast
  obtain xs S where S: "t_stack st = xs @ v # S" "v \<notin> set xs" using split_list_first [OF vS] by blast
  have "set (xs @ [v]) \<subseteq> dom (t_info st)" using tinvD(1) [OF inv] S(1) by auto
  from pop_component_eq [OF S(2) this, of S "[]"]
  have pop: "pop_component v (t_stack st) (t_info st) [] =
      Some (xs @ [v], S, unstack (set (xs @ [v])) (t_info st))" using S(1) by simp
  show thesis
  proof (rule that)
    show "tarjan_close v st = Some (st\<lparr>t_info := unstack (set (xs @ [v])) (t_info st), t_stack := S,
        t_sccs := t_sccs st @ [xs @ [v]]\<rparr>)"
      using vi root pop by (simp add: tarjan_close_def idx_def low_def)
  qed (use tinv_pop [OF inv root S(1)] in simp_all)
qed

lemma close_ready:
  assumes inv: "tinv nodes succ st ((v, length ws, ws) # rest)"
    and rest: "\<forall>f \<in> set rest. fst (snd f) \<noteq> 0"
  obtains st' where "Option.bind (tarjan_close v st) (\<lambda>st2. tarjan_return v (st2\<lparr>t_call := rest\<rparr>)) = Some st'"
    "tready nodes succ st'" "t_call st' = rest" "dom (t_info st') = dom (t_info st)"
proof -
  let ?gs = "(v, length ws, ws) # rest"
  have f: "(v, length ws, ws) \<in> set ?gs" by simp
  have d: "grey ?gs \<subseteq> dom (t_info st)" by (rule tinv_grey_dom [OF inv])
  then obtain vi where vi: "t_info st v = Some vi" by auto
  note result = that
  have fin: thesis if "tarjan_close v st = Some st2" "tinv nodes succ st3 rest"
    "tarjan_return v (st2\<lparr>t_call := rest\<rparr>) = Some (st3\<lparr>t_call := rest\<rparr>)"
    "dom (t_info st3) = dom (t_info st)" for st2 st3
    using that(1-4) rest by (intro result [of "st3\<lparr>t_call := rest\<rparr>"]) (auto simp: tready_def split: list.split)
  show thesis
  proof (cases "low (t_info st) v = idx (t_info st) v")
    case True
    obtain st2 where st2: "tarjan_close v st = Some st2" "tinv nodes succ st2 rest"
      "idx (t_info st2) = idx (t_info st)" "low (t_info st2) = low (t_info st)"
      "dom (t_info st2) = dom (t_info st)"
      by (rule close_pop [OF inv True])
    have "tarjan_return v (st2\<lparr>t_call := rest\<rparr>) = Some (st2\<lparr>t_call := rest\<rparr>)"
    proof (cases rest)
      case (Cons g gs')
      then obtain p j ps where g: "g = (p, j, ps)" by (cases g) auto
      have pf: "(p, j, ps) \<in> set ?gs" using Cons g by simp
      obtain vi' pi where vp: "t_info st2 v = Some vi'" "t_info st2 p = Some pi"
        using d st2(5) Cons g by fastforce
      have "low (t_info st) p \<le> idx (t_info st) p" "idx (t_info st) p < idx (t_info st) v"
        using tinv_frameD(6) [OF inv pf] tinvD(7) [OF inv] Cons g by simp_all
      then have "low (t_info st2) p \<le> low (t_info st2) v" using True st2(4) by simp
      then have "ni_lowlink pi \<le> ni_lowlink vi'" using vp by (simp add: low_def)
      then have "(t_info st2)(p \<mapsto> pi\<lparr>ni_lowlink := min (ni_lowlink pi) (ni_lowlink vi')\<rparr>) = t_info st2"
        using vp by (auto simp: min_def fun_eq_iff)
      then show ?thesis using Cons g vp by (simp add: tarjan_return_def)
    qed (simp add: tarjan_return_def)
    then show thesis using fin [OF st2(1,2)] st2(5) by blast
  next
    case False
    then have lo: "low (t_info st) v < idx (t_info st) v" using tinv_frameD(6) [OF inv f] by simp
    have cl: "tarjan_close v st = Some st"
      using False vi by (simp add: tarjan_close_def idx_def low_def)
    show thesis
    proof (cases rest)
      case Nil
      have "tinv nodes succ st rest" using tinv_blacken [OF inv lo] Nil by simp
      then show thesis using fin [OF cl] Nil by (simp add: tarjan_return_def)
    next
      case (Cons g gs')
      then obtain p j ps where g: "g = (p, j, ps)" by (cases g) auto
      have pf: "(p, j, ps) \<in> set ?gs" using Cons g by simp
      obtain pi where pi: "t_info st p = Some pi" using d Cons g by fastforce
      have pv: "p \<noteq> v" using tinvD(7) [OF inv] Cons g by auto
      let ?info = "(t_info st)(p \<mapsto> pi\<lparr>ni_lowlink := min (ni_lowlink pi) (ni_lowlink vi)\<rparr>)"
      let ?st = "st\<lparr>t_info := ?info\<rparr>"
      have lv: "low (t_info st) v = ni_lowlink vi" using vi by (simp add: low_def)
      obtain y where y: "y \<in> set (t_stack st)" "idx (t_info st) y = low (t_info st) v" "(v, y) \<in> (edge succ)\<^sup>*"
        using tinv_frameD(7) [OF inv f] by blast
      have "(p, v) \<in> (edge succ)\<^sup>*" by (rule grey_reaches_top [OF inv pf])
      then have "(p, y) \<in> (edge succ)\<^sup>*" using y(3) by simp
      then have inv1: "tinv nodes succ ?st ?gs"
        using tinv_lower [OF inv pf pi y(1)] y(2) lv by simp
      have "low ?info v < idx ?info v" using lo pv pi by (simp add: low_lower)
      moreover have "low ?info p \<le> low ?info v" using pv lv by (simp add: low_lower)
      ultimately have "tinv nodes succ ?st rest"
        using tinv_blacken [OF inv1] Cons g by simp
      moreover have "dom ?info = dom (t_info st)" using pi by auto
      moreover have "tarjan_return v (st\<lparr>t_call := rest\<rparr>) = Some (?st\<lparr>t_call := rest\<rparr>)"
        using Cons g vi pi by (simp add: tarjan_return_def)
      ultimately show thesis using fin [OF cl, of ?st] by simp
    qed
  qed
qed

lemma step_ready:
  assumes g: "graph_ok nodes succ" and r: "tready nodes succ st" and ne: "t_call st \<noteq> []"
  obtains st' where "tarjan_step succ st = Some st'" "tready nodes succ st'"
    "tmeasure nodes succ st' < tmeasure nodes succ st" "unseen nodes st' \<subseteq> unseen nodes st"
proof -
  obtain v i ws rest where c: "t_call st = (v, i, ws) # rest" using ne by (metis list.exhaust prod.exhaust)
  let ?st1 = "tarjan_enter v i st"
  note e = enter_ready [OF r c]
  have rest: "\<forall>f \<in> set rest. fst (snd f) \<noteq> 0" using r c by (simp add: tready_def)
  have il: "i \<le> length ws" using tinv_frameD(2) [OF e(1), of v i ws] by simp
  show thesis
  proof (cases "i < length ws")
    case True
    let ?st2 = "?st1\<lparr>t_call := (v, Suc i, ws) # rest\<rparr>"
    have "tinv nodes succ ?st2 ((v, i, ws) # rest)" using e(1) by simp
    then obtain st' where st': "tarjan_edge succ v (ws ! i) ?st2 = Some st'" "tready nodes succ st'"
      "tmeasure nodes succ st' = tmeasure nodes succ ?st2" "unseen nodes st' \<subseteq> unseen nodes ?st2"
      by (rule edge_ready [OF g _ _ True rest]) simp
    have un: "unseen nodes ?st2 = unseen nodes st" using e(3) c by (auto simp: unseen_def)
    then have "tmeasure nodes succ ?st2 < tmeasure nodes succ st"
      using c True by (simp add: tmeasure_def)
    then show thesis using that [of st'] st' un c True by (simp add: tarjan_step_def Let_def)
  next
    case False
    then have i: "i = length ws" using il by simp
    then obtain st' where st': "Option.bind (tarjan_close v ?st1) (\<lambda>st2. tarjan_return v (st2\<lparr>t_call := rest\<rparr>)) = Some st'"
      "tready nodes succ st'" "t_call st' = rest" "dom (t_info st') = dom (t_info ?st1)"
      using close_ready [of nodes succ ?st1 v ws rest] e(1) rest by blast
    have un: "unseen nodes st' = unseen nodes st" using st'(3,4) e(3) c by (auto simp: unseen_def)
    then have "tmeasure nodes succ st' < tmeasure nodes succ st"
      using c i st'(3) by (simp add: tmeasure_def)
    then show thesis using that [of st'] st' un c i by (simp add: tarjan_step_def Let_def)
  qed
qed

lemma loop_ready:
  assumes g: "graph_ok nodes succ" and r: "tready nodes succ st"
  shows "\<exists>st'. tarjan_loop succ st = Some st' \<and> tinv nodes succ st' [] \<and> t_call st' = []
    \<and> unseen nodes st' \<subseteq> unseen nodes st"
  using r
proof (induction "tmeasure nodes succ st" arbitrary: st rule: less_induct)
  case less
  show ?case
  proof (cases "t_call st = []")
    case True
    then show ?thesis using less.prems by (subst tarjan_loop.simps) (simp add: tready_def)
  next
    case False
    obtain st1 where st1: "tarjan_step succ st = Some st1" "tready nodes succ st1"
      "tmeasure nodes succ st1 < tmeasure nodes succ st" "unseen nodes st1 \<subseteq> unseen nodes st"
      by (rule step_ready [OF g less.prems False])
    obtain st' where "tarjan_loop succ st1 = Some st'" "tinv nodes succ st' []" "t_call st' = []"
      "unseen nodes st' \<subseteq> unseen nodes st1"
      using less.hyps [OF st1(3,2)] by blast
    then show ?thesis using st1(1,4) False by (subst tarjan_loop.simps) auto
  qed
qed

lemma starts_ready:
  assumes g: "graph_ok nodes succ" and "set vs \<subseteq> nodes" "tinv nodes succ st []" "t_call st = []"
  shows "\<exists>st'. tarjan_starts succ vs st = Some st' \<and> tinv nodes succ st' [] \<and> t_call st' = []
    \<and> unseen nodes st' \<subseteq> unseen nodes st - set vs"
  using assms(2-)
proof (induction vs arbitrary: st)
  case (Cons v vs)
  show ?case
  proof (cases "t_info st v = None")
    case True
    obtain ws where ws: "succ v = Some ws" using g Cons.prems(1) by (auto simp: graph_ok_def)
    let ?st = "st\<lparr>t_call := [(v, 0, ws)]\<rparr>"
    have "tready nodes succ ?st"
      using Cons.prems True ws by (auto simp: tready_def intro!: exI [of _ "[]"])
    then obtain st1 where st1: "tarjan_loop succ ?st = Some st1" "tinv nodes succ st1 []" "t_call st1 = []"
      "unseen nodes st1 \<subseteq> unseen nodes ?st"
      using loop_ready [OF g] by blast
    have "unseen nodes ?st = unseen nodes st - {v}" using Cons.prems(3) by (auto simp: unseen_def)
    moreover obtain st' where "tarjan_starts succ vs st1 = Some st'" "tinv nodes succ st' []" "t_call st' = []"
      "unseen nodes st' \<subseteq> unseen nodes st1 - set vs"
      using Cons.IH [OF _ st1(2,3)] Cons.prems(1) by auto
    ultimately show ?thesis using True ws st1(1,4) by auto
  next
    case False
    then have "v \<notin> unseen nodes st" by (auto simp: unseen_def)
    then show ?thesis using Cons.IH [OF _ Cons.prems(2,3)] Cons.prems(1) False by auto
  qed
qed simp

lemma idle_stack_empty:
  assumes inv: "tinv nodes succ st []"
  shows "t_stack st = []"
proof (rule ccontr)
  assume ne: "t_stack st \<noteq> []"
  let ?x = "arg_min_on (idx (t_info st)) (set (t_stack st))"
  have x: "?x \<in> set (t_stack st)" using ne by (intro arg_min_if_finite(1)) auto
  then obtain y where "y \<in> set (t_stack st)" "idx (t_info st) y < idx (t_info st) ?x"
    using tinv_blackD(1) [OF inv x] by auto
  then show False using arg_min_if_finite(2) [of "set (t_stack st)" "idx (t_info st)"] ne by auto
qed

lemma tarjan_scc_ok:
  assumes g: "graph_ok nodes succ"
  shows "\<exists>cs. tarjan_scc nodes succ = Some cs \<and> set (concat cs) = nodes \<and> distinct (concat cs)
    \<and> sccs_ok succ cs"
proof -
  let ?st0 = "\<lparr>t_info = Map.empty, t_stack = [], t_sccs = [], t_next = 0, t_call = []\<rparr>"
  have "tinv nodes succ ?st0 []"
    by (simp add: tinv_def ti_shape_def ti_frames_def ti_black_def ti_low_def sccs_ok_def)
  moreover have n: "set (sorted_list_of_set nodes) = nodes" using g by (simp add: graph_ok_def)
  ultimately obtain st' where st': "tarjan_starts succ (sorted_list_of_set nodes) ?st0 = Some st'"
    "tinv nodes succ st' []" "t_call st' = []" "unseen nodes st' \<subseteq> unseen nodes ?st0 - nodes"
    using starts_ready [OF g, of "sorted_list_of_set nodes" ?st0] by auto
  have "nodes \<subseteq> dom (t_info st')" using st'(3,4) by (auto simp: unseen_def)
  then have "dom (t_info st') = nodes" using tinvD(3) [OF st'(2)] by blast
  then show ?thesis
    using st'(1) tinvD(1,2,8) [OF st'(2)] idle_stack_empty [OF st'(2)] by (simp add: tarjan_scc_def)
qed

end
