(* ===== verification/Epaxos_Exec.thy ===== *)
theory Epaxos_Exec
  imports Epaxos_Scc
begin

text \<open>
  What \<open>execute_committed\<close> of \<open>epaxos.rs\<close> does: it returns on every well-formed command log,
  it executes exactly the largest set of committed instances whose dependencies are executed
  or in the set, each once, and in an order that puts a dependency before its dependents,
  with cycles broken by \<open>(seq, instance)\<close>.
\<close>

section \<open>The eligible set\<close>

definition cmds_wf :: "(instance_id, instance_state) btree \<Rightarrow> bool" where
  "cmds_wf m \<longleftrightarrow> bt_inv m \<and> (\<forall>i st. bt_get m i = Some st \<longrightarrow> finite (is_deps st))"

definition unblocked :: "(instance_id, instance_state) btree \<Rightarrow> instance_id set \<Rightarrow> instance_id \<Rightarrow> bool" where
  "unblocked m E i \<longleftrightarrow> (\<forall>st. bt_get m i = Some st \<longrightarrow> (\<forall>d \<in> is_deps st. \<not> dep_blocks m E d))"

definition dep_stable :: "(instance_id, instance_state) btree \<Rightarrow> instance_id set \<Rightarrow> bool" where
  "dep_stable m E \<longleftrightarrow> (\<forall>i \<in> E. unblocked m E i)"

lemma dep_blocks_antimono: "dep_blocks m E d \<Longrightarrow> C \<subseteq> E \<Longrightarrow> dep_blocks m C d"
  by (auto simp: dep_blocks_def split: option.splits status.splits)

lemma unblocked_mono: "unblocked m C i \<Longrightarrow> C \<subseteq> E \<Longrightarrow> unblocked m E i"
  unfolding unblocked_def using dep_blocks_antimono by blast

lemma eligible_sweep_removed: "eligible_sweep m is E True = Some (E', r') \<Longrightarrow> r'"
  by (induction "is" arbitrary: E) (auto split: option.splits if_splits)

lemma eligible_sweep_ok:
  assumes "\<forall>i \<in> set is. bt_get m i \<noteq> None" "distinct is" "set is \<subseteq> E"
  shows "\<exists>E' r'. eligible_sweep m is E r = Some (E', r') \<and> E' \<subseteq> E
    \<and> (\<not> r' \<longrightarrow> E' = E \<and> (\<forall>i \<in> set is. unblocked m E i)) \<and> (r' \<longrightarrow> r \<or> E' \<noteq> E)
    \<and> (\<forall>C. C \<subseteq> E \<longrightarrow> dep_stable m C \<longrightarrow> C \<subseteq> E')"
  using assms
proof (induction "is" arbitrary: E r)
  case (Cons i "is")
  then obtain st where st: "bt_get m i = Some st" by auto
  show ?case
  proof (cases "\<exists>d \<in> is_deps st. dep_blocks m E d")
    case True
    have ub: "\<not> unblocked m E i" using True st by (auto simp: unblocked_def)
    have sub: "set is \<subseteq> E - {i}" using Cons.prems(2,3) by auto
    have "\<forall>i \<in> set is. bt_get m i \<noteq> None" "distinct is" using Cons.prems(1,2) by simp_all
    from Cons.IH [OF this sub, of True]
    obtain E' r' where e: "eligible_sweep m is (E - {i}) True = Some (E', r')" "E' \<subseteq> E - {i}"
      "\<forall>C. C \<subseteq> E - {i} \<longrightarrow> dep_stable m C \<longrightarrow> C \<subseteq> E'" by (elim exE conjE)
    have keep: "C \<subseteq> E'" if C: "C \<subseteq> E" "dep_stable m C" for C
    proof -
      have "i \<notin> C" using ub unblocked_mono [of m C i E] C unfolding dep_stable_def by blast
      then show ?thesis using e(3) C by blast
    qed
    have r': "r'" by (rule eligible_sweep_removed [OF e(1)])
    have eq: "eligible_sweep m (i # is) E r = Some (E', r')" using e(1) True st by simp
    have "E' \<noteq> E" "E' \<subseteq> E" using e(2) Cons.prems(3) by auto
    then show ?thesis unfolding eq using keep r' by blast
  next
    case False
    then have ub: "unblocked m E i" using st by (simp add: unblocked_def)
    have "\<forall>i \<in> set is. bt_get m i \<noteq> None" "distinct is" "set is \<subseteq> E" using Cons.prems by simp_all
    moreover have eq: "eligible_sweep m (i # is) E r = eligible_sweep m is E r" using False st by simp
    ultimately show ?thesis unfolding eq using Cons.IH [of E r] ub by simp
  qed
qed (auto)

lemma eligible_loop_ok:
  assumes "finite E" "\<forall>i \<in> E. bt_get m i \<noteq> None"
  shows "\<exists>E'. eligible_loop m E = Some E' \<and> E' \<subseteq> E \<and> dep_stable m E'
    \<and> (\<forall>C. C \<subseteq> E \<longrightarrow> dep_stable m C \<longrightarrow> C \<subseteq> E')"
  using assms
proof (induction "card E" arbitrary: E rule: less_induct)
  case less
  let ?is = "sorted_list_of_set E"
  have l: "set ?is = E" "distinct ?is" using less.prems(1) by simp_all
  obtain E1 r1 where e: "eligible_sweep m ?is E False = Some (E1, r1)" "E1 \<subseteq> E"
    "\<not> r1 \<longrightarrow> E1 = E \<and> (\<forall>i \<in> E. unblocked m E i)" "r1 \<longrightarrow> E1 \<noteq> E"
    "\<forall>C. C \<subseteq> E \<longrightarrow> dep_stable m C \<longrightarrow> C \<subseteq> E1"
    using eligible_sweep_ok [of ?is m E False] l less.prems(2) by (metis order_refl)
  show ?case
  proof (cases r1)
    case True
    then have lt: "card E1 < card E" using e(2,4) less.prems(1) by (simp add: psubset_card_mono psubsetI)
    obtain E' where "eligible_loop m E1 = Some E'" "E' \<subseteq> E1" "dep_stable m E'"
      "\<forall>C. C \<subseteq> E1 \<longrightarrow> dep_stable m C \<longrightarrow> C \<subseteq> E'"
      using less.hyps [OF lt] less.prems e(2) by (metis finite_subset subsetD)
    moreover have "eligible_loop m E = eligible_loop m E1"
      using e(1) True by (subst eligible_loop.simps) simp
    ultimately show ?thesis using e(2,5) by auto
  next
    case False
    then have "eligible_loop m E = Some E" using e(1,3) by (subst eligible_loop.simps) simp
    then show ?thesis using False e(3) by (simp add: dep_stable_def)
  qed
qed

lemma committed_set_iff:
  assumes "bt_inv m"
  shows "i \<in> committed_set m \<longleftrightarrow> (\<exists>st. bt_get m i = Some st \<and> is_status st = Committed)"
  using bt_mem_iff [OF assms] by (force simp: committed_set_def)

lemma finite_committed_set [simp]: "finite (committed_set m)"
  by (simp add: committed_set_def)

definition eligible_set :: "(instance_id, instance_state) btree \<Rightarrow> instance_id set" where
  "eligible_set m = (case eligible_loop m (committed_set m) of Some E \<Rightarrow> E | None \<Rightarrow> {})"

lemma eligible_set_ok:
  assumes "bt_inv m"
  shows "eligible_loop m (committed_set m) = Some (eligible_set m)"
    and "eligible_set m \<subseteq> committed_set m" and "dep_stable m (eligible_set m)"
    and "C \<subseteq> committed_set m \<Longrightarrow> dep_stable m C \<Longrightarrow> C \<subseteq> eligible_set m"
proof -
  have "\<forall>i \<in> committed_set m. bt_get m i \<noteq> None" using committed_set_iff [OF assms] by auto
  then obtain E where "eligible_loop m (committed_set m) = Some E" "E \<subseteq> committed_set m" "dep_stable m E"
    "\<forall>C. C \<subseteq> committed_set m \<longrightarrow> dep_stable m C \<longrightarrow> C \<subseteq> E"
    using eligible_loop_ok [of "committed_set m" m] by auto
  then show "eligible_loop m (committed_set m) = Some (eligible_set m)"
    "eligible_set m \<subseteq> committed_set m" "dep_stable m (eligible_set m)"
    "C \<subseteq> committed_set m \<Longrightarrow> dep_stable m C \<Longrightarrow> C \<subseteq> eligible_set m"
    by (simp_all add: eligible_set_def)
qed

section \<open>What an execution does\<close>

text \<open>The commands of \<open>order\<close> run one after the other, and the records marked as executed.\<close>

definition run_cmds :: "'s ep_state_machine \<Rightarrow> (instance_id, instance_state) btree \<Rightarrow> instance_id list \<Rightarrow> 's \<Rightarrow> 's" where
  "run_cmds SM m order s =
     fold (\<lambda>i s. case bt_get m i of Some st \<Rightarrow> fst (ep_execute SM s (is_command st)) | None \<Rightarrow> s) order s"

definition mark_executed :: "instance_id list \<Rightarrow> (instance_id, instance_state) btree \<Rightarrow>
    (instance_id, instance_state) btree" where
  "mark_executed order m =
     fold (\<lambda>i m. case bt_get m i of Some st \<Rightarrow> bt_insert i (st\<lparr>is_status := Executed\<rparr>) m | None \<Rightarrow> m) order m"

lemma mark_executed_simps [simp]:
  "mark_executed [] m = m"
  "mark_executed (i # is) m = mark_executed is
     (case bt_get m i of Some st \<Rightarrow> bt_insert i (st\<lparr>is_status := Executed\<rparr>) m | None \<Rightarrow> m)"
  "mark_executed (xs @ ys) m = mark_executed ys (mark_executed xs m)"
  by (simp_all add: mark_executed_def)

lemma bt_get_mark_executed:
  "bt_get (mark_executed order m) i =
     (if i \<in> set order then map_option (\<lambda>st. st\<lparr>is_status := Executed\<rparr>) (bt_get m i) else bt_get m i)"
  by (induction order arbitrary: m) (auto split: option.split)

lemma bt_inv_mark_executed [simp]: "bt_inv m \<Longrightarrow> bt_inv (mark_executed order m)"
  by (induction order arbitrary: m) (auto split: option.split)

lemma run_cmds_simps [simp]:
  "run_cmds SM m [] s = s"
  "run_cmds SM m (i # is) s = run_cmds SM m is
     (case bt_get m i of Some st \<Rightarrow> fst (ep_execute SM s (is_command st)) | None \<Rightarrow> s)"
  "run_cmds SM m (xs @ ys) s = run_cmds SM m ys (run_cmds SM m xs s)"
  by (simp_all add: run_cmds_def)

lemma run_cmds_cong:
  assumes "\<And>i. i \<in> set order \<Longrightarrow> map_option is_command (bt_get m i) = map_option is_command (bt_get m' i)"
  shows "run_cmds SM m order s = run_cmds SM m' order s"
  using assms
proof (induction order arbitrary: s)
  case (Cons i "is")
  have "map_option is_command (bt_get m i) = map_option is_command (bt_get m' i)" by (rule Cons.prems) simp
  then show ?case using Cons by (cases "bt_get m i"; cases "bt_get m' i") simp_all
qed simp

lemma run_cmds_mark [simp]: "run_cmds SM (mark_executed xs m) order s = run_cmds SM m order s"
  by (rule run_cmds_cong) (simp add: bt_get_mark_executed option.map_comp comp_def)

lemma inst_key_mark [simp]: "inst_key (mark_executed xs m) = inst_key m"
  by (rule ext) (auto simp: inst_key_def bt_get_mark_executed split: option.split)

abbreviation exec_all :: "'s ep_state_machine \<Rightarrow> instance_id list \<Rightarrow> 's ep_replica \<Rightarrow> 's ep_replica" where
  "exec_all SM order r \<equiv>
     r\<lparr>ep_sm := run_cmds SM (cmds r) order (ep_sm r), cmds := mark_executed order (cmds r)\<rparr>"

definition waiting :: "(instance_id, instance_state) btree \<Rightarrow> instance_id set" where
  "waiting m = {i. \<exists>st. bt_get m i = Some st \<and> is_status st \<noteq> Executed}"

lemma waiting_mark: "waiting (mark_executed xs m) = waiting m - set xs"
  by (auto simp: waiting_def bt_get_mark_executed)

lemma exec_insts_eq:
  assumes "distinct is" "set is \<subseteq> waiting (cmds r)"
  shows "exec_insts SM is r = Some (exec_all SM is r)"
  using assms
proof (induction "is" arbitrary: r)
  case (Cons i "is")
  then obtain st where st: "bt_get (cmds r) i = Some st" "is_status st \<noteq> Executed" by (auto simp: waiting_def)
  let ?r = "exec_all SM [i] r"
  have "set is \<subseteq> waiting (cmds ?r)" using Cons.prems waiting_mark [of "[i]" "cmds r"] by auto
  then have "exec_insts SM is ?r = Some (exec_all SM is ?r)" using Cons by simp
  moreover have "exec_insts SM (i # is) r = exec_insts SM is ?r" using st by simp
  moreover have "run_cmds SM (cmds ?r) is s = run_cmds SM (cmds r) is s" for s
    using run_cmds_mark [of SM "[i]" "cmds r" "is"] by simp
  ultimately show ?case using st by simp
qed simp

lemma exec_sccs_eq:
  assumes "distinct (concat cs)" "set (concat cs) \<subseteq> waiting (cmds r)"
  shows "exec_sccs SM cs r = Some (exec_all SM (concat (map (sort_key (inst_key (cmds r))) cs)) r)"
  using assms
proof (induction cs arbitrary: r)
  case (Cons c cs)
  let ?c = "sort_key (inst_key (cmds r)) c"
  let ?r = "exec_all SM ?c r"
  have "exec_insts SM ?c r = Some ?r" by (rule exec_insts_eq) (use Cons.prems in auto)
  moreover have "list_all (\<lambda>i. bt_get (cmds r) i \<noteq> None) c"
    using Cons.prems(2) by (auto simp: list_all_iff waiting_def)
  moreover have "set (concat cs) \<subseteq> waiting (cmds ?r)"
    using Cons.prems by (auto simp: waiting_mark)
  ultimately have "exec_sccs SM (c # cs) r = exec_sccs SM cs ?r" by simp
  also have "\<dots> = Some (exec_all SM (concat (map (sort_key (inst_key (cmds ?r))) cs)) ?r)"
    by (rule Cons.IH) (use Cons.prems \<open>set (concat cs) \<subseteq> waiting (cmds ?r)\<close> in auto)
  finally show ?case by simp
qed simp

section \<open>The order of an execution\<close>

definition deps_rel :: "(instance_id, instance_state) btree \<Rightarrow> (instance_id \<times> instance_id) set" where
  "deps_rel m = {(i, j). \<exists>st. bt_get m i = Some st \<and> j \<in> is_deps st}"

text \<open>
  \<open>exec_before m j i\<close>: instance \<open>i\<close> depends on \<open>j\<close>, directly or through others, and if they
  depend on each other then \<open>j\<close> has the smaller sequence number and, on a tie, the smaller name.
\<close>

definition exec_before :: "(instance_id, instance_state) btree \<Rightarrow> instance_id \<Rightarrow> instance_id \<Rightarrow> bool" where
  "exec_before m j i \<longleftrightarrow> j \<noteq> i \<and> (i, j) \<in> (deps_rel m)\<^sup>* \<and>
     ((j, i) \<in> (deps_rel m)\<^sup>* \<longrightarrow> inst_key m j < inst_key m i)"

text \<open>Executed instances depend on executed instances only.\<close>

definition exec_closed :: "(instance_id, instance_state) btree \<Rightarrow> bool" where
  "exec_closed m \<longleftrightarrow> (\<forall>i j. status_of m i = Some Executed \<longrightarrow> (i, j) \<in> deps_rel m \<longrightarrow>
     status_of m j = Some Executed)"

definition exec_order :: "(instance_id, instance_state) btree \<Rightarrow> instance_id list" where
  "exec_order m =
     (case tarjan_scc (eligible_set m) (scc_succ m (eligible_set m)) of
        Some cs \<Rightarrow> concat (map (sort_key (inst_key m)) cs)
      | None \<Rightarrow> [])"

lemma eligible_waiting: "bt_inv m \<Longrightarrow> eligible_set m \<subseteq> waiting m"
  using eligible_set_ok(2) [of m] committed_set_iff [of m]
  by (fastforce simp: waiting_def)

lemma scc_graph_ok:
  assumes "cmds_wf m"
  shows "graph_ok (eligible_set m) (scc_succ m (eligible_set m))"
proof -
  have b: "bt_inv m" using assms by (simp add: cmds_wf_def)
  have "finite (eligible_set m)"
    using eligible_set_ok(2) [OF b] finite_committed_set finite_subset by blast
  moreover have "\<exists>ws. scc_succ m (eligible_set m) v = Some ws \<and> set ws \<subseteq> eligible_set m"
    if "v \<in> eligible_set m" for v
    using that eligible_waiting [OF b] by (auto simp: scc_succ_def waiting_def)
  ultimately show ?thesis by (simp add: graph_ok_def)
qed

lemma edge_scc_succ:
  assumes "cmds_wf m" "i \<in> eligible_set m"
  shows "(i, j) \<in> edge (scc_succ m (eligible_set m)) \<longleftrightarrow> (i, j) \<in> deps_rel m \<and> j \<in> eligible_set m"
  using assms by (auto simp: edge_def scc_succ_def deps_rel_def cmds_wf_def)

lemma edge_scc_succ_deps: "cmds_wf m \<Longrightarrow> edge (scc_succ m E) \<subseteq> deps_rel m"
  by (auto simp: edge_def scc_succ_def deps_rel_def cmds_wf_def)

lemma deps_of_eligible:
  assumes "bt_inv m" "i \<in> eligible_set m" "(i, j) \<in> deps_rel m"
  shows "j \<in> eligible_set m \<or> status_of m j = Some Executed"
proof -
  obtain st where "bt_get m i = Some st" "j \<in> is_deps st" using assms(3) by (auto simp: deps_rel_def)
  then have "\<not> dep_blocks m (eligible_set m) j"
    using eligible_set_ok(3) [OF assms(1)] assms(2) by (auto simp: dep_stable_def unblocked_def)
  then show ?thesis by (auto simp: dep_blocks_def split: option.splits status.splits)
qed

lemma executed_reach:
  assumes "exec_closed m" "(i, j) \<in> (deps_rel m)\<^sup>*" "status_of m i = Some Executed"
  shows "status_of m j = Some Executed"
  using assms(2,3) by (induction rule: rtrancl_induct) (use assms(1) in \<open>auto simp: exec_closed_def\<close>)

lemma eligible_not_executed: "bt_inv m \<Longrightarrow> i \<in> eligible_set m \<Longrightarrow> status_of m i \<noteq> Some Executed"
  using eligible_waiting [of m] by (auto simp: waiting_def status_of_def)

lemma eligible_reach:
  assumes "cmds_wf m" "exec_closed m" "i \<in> eligible_set m" "(i, j) \<in> (deps_rel m)\<^sup>*"
  shows "status_of m j = Some Executed
    \<or> j \<in> eligible_set m \<and> (i, j) \<in> (edge (scc_succ m (eligible_set m)))\<^sup>*"
  using assms(4)
proof (induction rule: rtrancl_induct)
  case (step j k)
  have b: "bt_inv m" using assms(1) by (simp add: cmds_wf_def)
  show ?case
  proof (cases "status_of m j = Some Executed")
    case True
    then show ?thesis using assms(2) step.hyps(2) by (auto simp: exec_closed_def)
  next
    case False
    with step.IH have j: "j \<in> eligible_set m" "(i, j) \<in> (edge (scc_succ m (eligible_set m)))\<^sup>*" by auto
    from deps_of_eligible [OF b j(1) step.hyps(2)] show ?thesis
      using j step.hyps(2) edge_scc_succ [OF assms(1) j(1), of k] by (metis rtrancl.rtrancl_into_rtrancl)
  qed
qed (use assms(3) in simp)

lemma scc_reach:
  assumes "sccs_ok succ cs" "p < length cs" "x \<in> set (cs ! p)" "(x, w) \<in> (edge succ)\<^sup>*"
  shows "\<exists>q \<le> p. w \<in> set (cs ! q)"
  using assms(4)
proof (induction rule: rtrancl_induct)
  case (step y z)
  then obtain q where q: "q \<le> p" "y \<in> set (cs ! q)" by blast
  with sccs_okD(2) [OF assms(1), of q y z] step.hyps(2) assms(2) obtain q' where "q' \<le> q" "z \<in> set (cs ! q')"
    by auto
  then show ?case using q(1) by (meson order_trans)
qed (use assms(3) in blast)

lemma sorted_wrt_concat:
  assumes "\<And>xs. xs \<in> set xss \<Longrightarrow> sorted_wrt P xs"
    and "\<And>p q x y. p < q \<Longrightarrow> q < length xss \<Longrightarrow> x \<in> set (xss ! p) \<Longrightarrow> y \<in> set (xss ! q) \<Longrightarrow> P x y"
  shows "sorted_wrt P (concat xss)"
  using assms
proof (induction xss)
  case (Cons xs xss)
  have "sorted_wrt P (concat xss)"
  proof (rule Cons.IH)
    fix p q x y assume "p < q" "q < length xss" "x \<in> set (xss ! p)" "y \<in> set (xss ! q)"
    then show "P x y" using Cons.prems(2) [of "Suc p" "Suc q"] by simp
  qed (use Cons.prems(1) in simp)
  moreover have "P x y" if "x \<in> set xs" "y \<in> set (concat xss)" for x y
  proof -
    from that(2) obtain ys where ys: "ys \<in> set xss" "y \<in> set ys" by auto
    from ys(1) obtain q where "q < length xss" "xss ! q = ys" by (auto simp: in_set_conv_nth)
    with ys(2) have "q < length xss" "y \<in> set (xss ! q)" by simp_all
    then show ?thesis using Cons.prems(2) [of 0 "Suc q"] that(1) by simp
  qed
  ultimately show ?case using Cons.prems(1) by (auto simp: sorted_wrt_append)
qed simp

lemma distinct_concat_nth:
  assumes "distinct (concat cs)" "y \<in> set (cs ! q)" "y \<in> set (cs ! p)" "q < length cs" "p < length cs"
  shows "p = q"
  using assms
proof (induction cs arbitrary: p q)
  case (Cons c cs)
  have "y \<in> set (concat cs)" if "y \<in> set (cs ! k)" "k < length cs" for k using that by auto
  with Cons show ?case by (cases p; cases q) auto
qed simp

lemma exec_order_ok:
  assumes wf: "cmds_wf m" and cl: "exec_closed m"
  shows "distinct (exec_order m)" "set (exec_order m) = eligible_set m"
    "sorted_wrt (\<lambda>a b. \<not> exec_before m b a) (exec_order m)"
proof -
  let ?E = "eligible_set m"
  let ?s = "scc_succ m ?E"
  have b: "bt_inv m" using wf by (simp add: cmds_wf_def)
  obtain cs where cs: "tarjan_scc ?E ?s = Some cs" "set (concat cs) = ?E" "distinct (concat cs)" "sccs_ok ?s cs"
    using tarjan_scc_ok [OF scc_graph_ok [OF wf]] by blast
  have o: "exec_order m = concat (map (sort_key (inst_key m)) cs)" using cs(1) by (simp add: exec_order_def)
  have l: "length (exec_order m) = length (concat cs)" "set (exec_order m) = set (concat cs)"
    unfolding o by (induction cs) simp_all
  then show "set (exec_order m) = ?E" using cs(2) by simp
  show "distinct (exec_order m)" using l cs(3) by (metis card_distinct distinct_card)
  have in_E: "x \<in> ?E" if "c \<in> set cs" "x \<in> set c" for c x using cs(2) that by auto
  have conn: "(x, y) \<in> (deps_rel m)\<^sup>*" if "c \<in> set cs" "x \<in> set c" "y \<in> set c" for c x y
  proof -
    have "(x, y) \<in> (edge ?s)\<^sup>*" by (rule sccs_okD(1) [OF cs(4) that])
    then show ?thesis using rtrancl_mono [OF edge_scc_succ_deps [OF wf]] by blast
  qed
  show "sorted_wrt (\<lambda>a b. \<not> exec_before m b a) (exec_order m)"
    unfolding o
  proof (rule sorted_wrt_concat)
    fix xs assume "xs \<in> set (map (sort_key (inst_key m)) cs)"
    then obtain c where c: "c \<in> set cs" "xs = sort_key (inst_key m) c" by auto
    have "sorted_wrt (\<lambda>x y. inst_key m x \<le> inst_key m y) xs"
      using c(2) sorted_sort_key [of "inst_key m" c] by (simp add: sorted_map)
    then show "sorted_wrt (\<lambda>a b. \<not> exec_before m b a) xs"
      by (rule sorted_wrt_mono_rel [rotated]) (use conn [OF c(1)] c(2) in \<open>auto simp: exec_before_def not_less\<close>)
  next
    fix p q x y
    assume pq: "p < q" "q < length (map (sort_key (inst_key m)) cs)"
      and x: "x \<in> set (map (sort_key (inst_key m)) cs ! p)" and y: "y \<in> set (map (sort_key (inst_key m)) cs ! q)"
    then have xy: "x \<in> set (cs ! p)" "y \<in> set (cs ! q)" "p < length cs" "q < length cs" by simp_all
    have E: "x \<in> ?E" "y \<in> ?E" using in_E [of "cs ! p"] in_E [of "cs ! q"] xy by simp_all
    show "\<not> exec_before m y x"
    proof
      assume "exec_before m y x"
      then have "(x, y) \<in> (deps_rel m)\<^sup>*" by (simp add: exec_before_def)
      then have "(x, y) \<in> (edge ?s)\<^sup>*"
        using eligible_reach [OF wf cl E(1)] eligible_not_executed [OF b E(2)] by blast
      from scc_reach [OF cs(4) xy(3,1) this] obtain q' where "q' \<le> p" "y \<in> set (cs ! q')" by blast
      then show False using distinct_concat_nth [OF cs(3) xy(2) _ xy(4), of q'] pq(1) xy(3) by simp
    qed
  qed
qed

lemma execute_committed_eq:
  assumes wf: "cmds_wf (cmds r)" and cl: "exec_closed (cmds r)"
  shows "execute_committed SM r = Some (exec_all SM (exec_order (cmds r)) r)"
proof -
  let ?m = "cmds r"
  have b: "bt_inv ?m" using wf by (simp add: cmds_wf_def)
  note el = eligible_set_ok(1) [OF b]
  obtain cs where cs: "tarjan_scc (eligible_set ?m) (scc_succ ?m (eligible_set ?m)) = Some cs"
    "set (concat cs) = eligible_set ?m" "distinct (concat cs)"
    using tarjan_scc_ok [OF scc_graph_ok [OF wf]] by blast
  have "exec_sccs SM cs r = Some (exec_all SM (exec_order ?m) r)"
    using exec_sccs_eq [OF cs(3), of r SM] cs(1,2) eligible_waiting [OF b] by (simp add: exec_order_def)
  moreover have "exec_all SM (exec_order ?m) r = r" if "eligible_set ?m = {}"
    using exec_order_ok(2) [OF wf cl] that by simp
  ultimately show ?thesis using el cs(1) by (auto simp: execute_committed_def)
qed

end
