(* ===== verification/Epaxos_Net.thy ===== *)
theory Epaxos_Net
  imports Epaxos_Exec "HOL-Library.Multiset"
begin

text \<open>
  A group of EPaxos replicas (\<open>epaxos.rs\<close>) on a network that delays, reorders, loses and,
  where \<open>dup\<close> allows it, duplicates messages.  Shown here: every replica keeps a well-formed
  command log, no message makes a replica panic, and replicas that have committed an instance
  agree on its command, sequence number and dependencies.
\<close>

section \<open>One replica\<close>

text \<open>The value a replica has committed for an instance.\<close>

definition com :: "'s ep_replica \<Rightarrow> instance_id \<Rightarrow> (bytes \<times> nat \<times> instance_id set) option" where
  "com r i =
     (case bt_get (cmds r) i of
        Some st \<Rightarrow> if Committed \<le> is_status st then Some (is_command st, is_seq st, is_deps st) else None
      | None \<Rightarrow> None)"

definition collects_ok :: "'s ep_replica \<Rightarrow> bool" where
  "collects_ok r \<longleftrightarrow> (\<forall>i c. bt_get (collects r) i = Some c \<longrightarrow> finite (co_init_deps c) \<and> finite (co_union_deps c))"

definition rep_ok :: "'s ep_replica \<Rightarrow> bool" where
  "rep_ok r \<longleftrightarrow> cmds_wf (cmds r) \<and> exec_closed (cmds r) \<and> collects_ok r"

lemma rep_okD:
  assumes "rep_ok r"
  shows "cmds_wf (cmds r)" "exec_closed (cmds r)" "collects_ok r" "bt_inv (cmds r)"
  using assms by (simp_all add: rep_ok_def cmds_wf_def)

lemma rep_ok_cong: "cmds r = cmds r' \<Longrightarrow> collects r = collects r' \<Longrightarrow> rep_ok r = rep_ok r'"
  by (simp add: rep_ok_def collects_ok_def)

lemma status_le_iff [simp]:
  "PreAccepted \<le> s" "Accepted \<le> s \<longleftrightarrow> s \<noteq> PreAccepted" "Committed \<le> s \<longleftrightarrow> s = Committed \<or> s = Executed"
  "Executed \<le> s \<longleftrightarrow> s = Executed"
  "s \<le> PreAccepted \<longleftrightarrow> s = PreAccepted" "s \<le> Accepted \<longleftrightarrow> s = PreAccepted \<or> s = Accepted"
  "s \<le> Committed \<longleftrightarrow> s \<noteq> Executed" "s \<le> Executed"
  by (cases s; simp add: less_eq_status_def)+

lemma deps_and_seq_deps:
  "snd (deps_and_seq SM r c i) =
     {j. j \<noteq> i \<and> (\<exists>st. (j, st) \<in> set (cmds r) \<and> ep_interferes SM (ep_sm r) c (is_command st))}"
proof -
  have "fst (fold (\<lambda>(inst, st) (deps, max_seq).
                if inst = i then (deps, max_seq)
                else if ep_interferes SM (ep_sm r) c (is_command st)
                     then (insert inst deps, max max_seq (is_seq st))
                     else (deps, max_seq)) xs p)
      = fst p \<union> {j. j \<noteq> i \<and> (\<exists>st. (j, st) \<in> set xs \<and> ep_interferes SM (ep_sm r) c (is_command st))}"
    for xs and p :: "instance_id set \<times> nat"
    by (induction xs arbitrary: p) (auto split: prod.split)
  from this [of "cmds r" "({}, 0)"] show ?thesis by (simp add: deps_and_seq_def case_prod_beta)
qed

lemma finite_deps_and_seq: "finite (snd (deps_and_seq SM r c i))"
  by (rule finite_subset [of _ "fst ` set (cmds r)"]) (force simp: deps_and_seq_deps)+

subsection \<open>Recording an instance\<close>

lemma record_inst_get:
  "bt_get (cmds (record_inst i c s d t b r)) j =
     (if j = i
      then Some (case bt_get (cmds r) i of
             Some st \<Rightarrow> if is_status st \<le> t
               then \<lparr>is_command = c, is_seq = s, is_deps = d, is_status = t, is_ballot = b\<rparr> else st
           | None \<Rightarrow> \<lparr>is_command = c, is_seq = s, is_deps = d, is_status = t, is_ballot = b\<rparr>)
      else bt_get (cmds r) j)"
  by (auto simp: record_inst_def Let_def split: option.split)

lemma record_inst_fields [simp]:
  "ep_id (record_inst i c s d t b r) = ep_id r" "ep_replicas (record_inst i c s d t b r) = ep_replicas r"
  "next_slot (record_inst i c s d t b r) = next_slot r" "collects (record_inst i c s d t b r) = collects r"
  "ep_sm (record_inst i c s d t b r) = ep_sm r"
  by (simp_all add: record_inst_def Let_def)

lemma record_inst_executed:
  assumes "t \<noteq> Executed"
  shows "status_of (cmds (record_inst i c s d t b r)) j = Some Executed \<longleftrightarrow> status_of (cmds r) j = Some Executed"
    and "status_of (cmds r) j = Some Executed \<Longrightarrow> bt_get (cmds (record_inst i c s d t b r)) j = bt_get (cmds r) j"
  using assms by (auto simp: status_of_def record_inst_get split: option.splits; cases t; simp)+

lemma record_inst_rep_ok:
  assumes "rep_ok r" "finite d" "t \<noteq> Executed"
  shows "rep_ok (record_inst i c s d t b r)"
proof -
  let ?r = "record_inst i c s d t b r"
  note r = rep_okD [OF assms(1)]
  have "bt_inv (cmds ?r)" using r(4) by (simp add: record_inst_def Let_def)
  moreover have "finite (is_deps st)" if "bt_get (cmds ?r) j = Some st" for j st
    using that r(1) assms(2) by (auto simp: record_inst_get cmds_wf_def split: if_splits option.splits)
  moreover have "status_of (cmds ?r) k = Some Executed"
    if "status_of (cmds ?r) j = Some Executed" "(j, k) \<in> deps_rel (cmds ?r)" for j k
  proof -
    have j: "status_of (cmds r) j = Some Executed" using that(1) record_inst_executed(1) [OF assms(3)] by blast
    have "(j, k) \<in> deps_rel (cmds r)"
      using that(2) record_inst_executed(2) [OF assms(3) j] by (simp add: deps_rel_def)
    with j r(2) show ?thesis using record_inst_executed(1) [OF assms(3)] unfolding exec_closed_def by blast
  qed
  ultimately show ?thesis using r(3) by (simp add: rep_ok_def cmds_wf_def exec_closed_def collects_ok_def)
qed

lemma com_record_inst:
  assumes "t \<noteq> Executed"
  shows "com (record_inst i c s d t b r) j =
    (if j = i \<and> t = Committed \<and> status_of (cmds r) i \<noteq> Some Executed then Some (c, s, d) else com r j)"
  using assms by (cases t) (auto simp: com_def record_inst_get status_of_def split: option.splits)

subsection \<open>Executing\<close>

lemma mark_deps_rel [simp]: "deps_rel (mark_executed xs m) = deps_rel m"
  by (auto simp: deps_rel_def bt_get_mark_executed split: if_splits)

lemma status_of_mark: "status_of (mark_executed xs m) i =
    (if i \<in> set xs \<and> bt_get m i \<noteq> None then Some Executed else status_of m i)"
  by (auto simp: status_of_def bt_get_mark_executed)

lemma exec_order_known: "rep_ok r \<Longrightarrow> i \<in> set (exec_order (cmds r)) \<Longrightarrow> com r i \<noteq> None"
  using exec_order_ok(2) [of "cmds r"] rep_okD [of r] eligible_set_ok(2) [of "cmds r"] committed_set_iff [of "cmds r" i]
  by (auto simp: com_def)

lemma execute_rep_ok:
  assumes "rep_ok r"
  shows "rep_ok (exec_all SM (exec_order (cmds r)) r)"
proof -
  let ?m = "cmds r" and ?xs = "exec_order (cmds r)"
  note r = rep_okD [OF assms]
  have "status_of (mark_executed ?xs ?m) k = Some Executed"
    if j: "status_of (mark_executed ?xs ?m) j = Some Executed" and jk: "(j, k) \<in> deps_rel ?m" for j k
  proof (cases "status_of ?m j = Some Executed")
    case True
    then show ?thesis using r(2) jk by (auto simp: exec_closed_def status_of_mark)
  next
    case False
    then have "j \<in> eligible_set ?m" using j exec_order_ok(2) [OF r(1,2)] by (auto simp: status_of_mark split: if_splits)
    from deps_of_eligible [OF r(4) this jk] show ?thesis
      using exec_order_ok(2) [OF r(1,2)] exec_order_known [OF assms, of k]
      by (auto simp: status_of_mark com_def split: option.splits)
  qed
  then show ?thesis using r
    by (auto simp: rep_ok_def exec_closed_def cmds_wf_def bt_get_mark_executed collects_ok_def split: if_splits)
qed

lemma com_execute:
  assumes "rep_ok r"
  shows "com (exec_all SM (exec_order (cmds r)) r) i = com r i"
  using exec_order_known [OF assms, of i] by (auto simp: com_def bt_get_mark_executed split: option.splits)

subsection \<open>Committing an instance\<close>

definition commit_exec :: "'s ep_state_machine \<Rightarrow> instance_id \<Rightarrow> bytes \<Rightarrow> nat \<Rightarrow> instance_id set \<Rightarrow>
    's ep_replica \<Rightarrow> 's ep_replica" where
  "commit_exec SM i c s d r =
     (let r2 = record_inst i c s d Committed 0 r in exec_all SM (exec_order (cmds r2)) r2)"

lemma commit_exec_fields [simp]:
  "ep_id (commit_exec SM i c s d r) = ep_id r" "ep_replicas (commit_exec SM i c s d r) = ep_replicas r"
  "next_slot (commit_exec SM i c s d r) = next_slot r" "collects (commit_exec SM i c s d r) = collects r"
  by (simp_all add: commit_exec_def Let_def)

lemma execute_recorded:
  assumes "rep_ok r" "finite d"
  shows "execute_committed SM (record_inst i c s d Committed 0 r) = Some (commit_exec SM i c s d r)"
proof -
  have "rep_ok (record_inst i c s d Committed 0 r)" by (rule record_inst_rep_ok [OF assms]) simp
  from execute_committed_eq [OF rep_okD(1,2) [OF this]] show ?thesis by (simp add: commit_exec_def Let_def)
qed

lemma commit_exec_rep_ok: "rep_ok r \<Longrightarrow> finite d \<Longrightarrow> rep_ok (commit_exec SM i c s d r)"
  unfolding commit_exec_def Let_def by (intro execute_rep_ok record_inst_rep_ok) simp_all

lemma com_commit_exec:
  assumes "rep_ok r" "finite d"
  shows "com (commit_exec SM i c s d r) j =
    (if j = i \<and> status_of (cmds r) i \<noteq> Some Executed then Some (c, s, d) else com r j)"
proof -
  have "rep_ok (record_inst i c s d Committed 0 r)" by (rule record_inst_rep_ok [OF assms]) simp
  from com_execute [OF this, of SM j] show ?thesis
    unfolding commit_exec_def Let_def by (simp add: com_record_inst)
qed

text \<open>The command and the presence of the records, whatever their status.\<close>

definition cmd_of :: "'s ep_replica \<Rightarrow> instance_id \<Rightarrow> bytes option" where
  "cmd_of r i = map_option is_command (bt_get (cmds r) i)"

lemma cmd_of_record_inst:
  "cmd_of (record_inst i c s d t b r) j =
     (if j = i \<and> (\<forall>st. bt_get (cmds r) i = Some st \<longrightarrow> is_status st \<le> t) then Some c else cmd_of r j)"
  by (auto simp: cmd_of_def record_inst_get split: option.split)

lemma cmd_of_commit_exec:
  "cmd_of (commit_exec SM i c s d r) j =
     (if j = i \<and> status_of (cmds r) i \<noteq> Some Executed then Some c else cmd_of r j)"
  by (auto simp: commit_exec_def Let_def cmd_of_def bt_get_mark_executed record_inst_get status_of_def
      option.map_comp comp_def split: option.split)

lemma com_cmd_of: "com r i = Some (c, s, d) \<Longrightarrow> cmd_of r i = Some c"
  by (auto simp: com_def cmd_of_def split: option.splits if_splits)

lemma com_cong: "cmds r = cmds r' \<Longrightarrow> com r = com r'"
  by (rule ext) (simp add: com_def)

lemma cmd_of_cong: "cmds r = cmds r' \<Longrightarrow> cmd_of r = cmd_of r'"
  by (rule ext) (simp add: cmd_of_def)

subsection \<open>What the reply handlers do\<close>

definition tally :: "nat \<Rightarrow> instance_id set \<Rightarrow> collect \<Rightarrow> collect" where
  "tally s d c = c\<lparr>co_replies := co_replies c + 1,
                   co_agreed := (if s = co_init_seq c \<and> d = co_init_deps c
                                 then co_agreed c + 1 else co_agreed c),
                   co_union_seq := max (co_union_seq c) s,
                   co_union_deps := co_union_deps c \<union> d\<rparr>"

lemma commit_as_leader_eq:
  assumes "rep_ok r" "finite d"
  shows "commit_as_leader SM i c s d r =
    Some (commit_exec SM i c s d (r\<lparr>collects := bt_remove i (collects r)\<rparr>),
          map (\<lambda>p. (p, Commit i c s d)) (ep_peers r))"
proof -
  let ?r = "r\<lparr>collects := bt_remove i (collects r)\<rparr>"
  have "rep_ok ?r" using assms(1) by (auto simp: rep_ok_def collects_ok_def)
  from execute_recorded [OF this assms(2)] show ?thesis
    by (simp add: commit_as_leader_def ep_peers_def)
qed

lemma on_preaccept_reply_cases:
  assumes ok: "rep_ok r" and d: "finite d"
  obtains
    (ignored) "on_preaccept_reply SM i b s d r = Some (r, [])"
      "\<And>c. bt_get (collects r) i = Some c \<Longrightarrow> co_accepting c"
  | (counted) c where "bt_get (collects r) i = Some c" "\<not> co_accepting c"
      "on_preaccept_reply SM i b s d r = Some (r\<lparr>collects := bt_insert i (tally s d c) (collects r)\<rparr>, [])"
  | (fast) c where "bt_get (collects r) i = Some c" "\<not> co_accepting c" "fast_quorum r \<le> co_agreed (tally s d c)"
      "on_preaccept_reply SM i b s d r =
         Some (commit_exec SM i (co_command c) (co_init_seq c) (co_init_deps c)
                 (r\<lparr>collects := bt_remove i (bt_insert i (tally s d c) (collects r))\<rparr>),
               map (\<lambda>p. (p, Commit i (co_command c) (co_init_seq c) (co_init_deps c))) (ep_peers r))"
  | (slow) c where "bt_get (collects r) i = Some c" "\<not> co_accepting c" "fast_quorum r \<le> co_replies (tally s d c)"
      "on_preaccept_reply SM i b s d r =
         (let c1 = tally s d c
          in Some (record_inst i (co_command c) (co_union_seq c1) (co_union_deps c1) Accepted 0
                (r\<lparr>collects := bt_insert i (c1\<lparr>co_accepting := True, co_accept_oks := 1\<rparr>)
                                (bt_insert i c1 (collects r))\<rparr>),
              map (\<lambda>p. (p, Accept i 0 (co_command c) (co_union_seq c1) (co_union_deps c1))) (ep_peers r)))"
proof (cases "bt_get (collects r) i")
  case None
  then show ?thesis using ignored by (simp add: on_preaccept_reply_def)
next
  case (Some c)
  show ?thesis
  proof (cases "co_accepting c")
    case True
    then show ?thesis using Some ignored by (simp add: on_preaccept_reply_def)
  next
    case acc: False
    let ?c = "tally s d c"
    let ?r1 = "r\<lparr>collects := bt_insert i ?c (collects r)\<rparr>"
    have fin: "finite (co_init_deps c)" "finite (co_union_deps c)"
      using rep_okD(3) [OF ok] Some by (auto simp: collects_ok_def)
    have ok1: "rep_ok ?r1"
      using ok fin d Some by (auto simp: rep_ok_def collects_ok_def tally_def)
    have eq: "on_preaccept_reply SM i b s d r =
        (if co_replies ?c < fast_quorum r then Some (?r1, [])
         else if co_agreed ?c \<ge> fast_quorum r
         then commit_as_leader SM i (co_command c) (co_init_seq c) (co_init_deps c) ?r1
         else if co_replies ?c \<ge> slow_quorum r
         then let c1 = ?c
              in Some (record_inst i (co_command c) (co_union_seq c1) (co_union_deps c1) Accepted 0
                  (r\<lparr>collects := bt_insert i (c1\<lparr>co_accepting := True, co_accept_oks := 1\<rparr>)
                                  (bt_insert i c1 (collects r))\<rparr>),
                map (\<lambda>p. (p, Accept i 0 (co_command c) (co_union_seq c1) (co_union_deps c1))) (ep_peers r))
         else Some (?r1, []))"
      using Some acc
      by (simp add: on_preaccept_reply_def tally_def Let_def fast_quorum_def slow_quorum_def ep_peers_def)
    consider "co_replies ?c < fast_quorum r" | "\<not> co_replies ?c < fast_quorum r" "co_agreed ?c \<ge> fast_quorum r"
      | "\<not> co_replies ?c < fast_quorum r" "\<not> co_agreed ?c \<ge> fast_quorum r" "co_replies ?c \<ge> slow_quorum r"
      | "\<not> co_replies ?c < fast_quorum r" "\<not> co_agreed ?c \<ge> fast_quorum r" "\<not> co_replies ?c \<ge> slow_quorum r"
      by blast
    then show ?thesis
    proof cases
      case 2
      then show ?thesis using Some acc eq commit_as_leader_eq [OF ok1 fin(1)]
        by (intro fast [of c]) (simp_all add: ep_peers_def)
    next
      case 3
      then show ?thesis using Some acc eq by (intro slow [of c]) simp_all
    qed (use Some acc eq counted in simp_all)
  qed
qed

lemma on_accept_reply_cases:
  assumes ok: "rep_ok r"
  obtains
    (ignored) "on_accept_reply SM i b r = Some (r, [])"
  | (counted) c where "bt_get (collects r) i = Some c" "co_accepting c"
      "on_accept_reply SM i b r =
         Some (r\<lparr>collects := bt_insert i (c\<lparr>co_accept_oks := co_accept_oks c + 1\<rparr>) (collects r)\<rparr>, [])"
  | (decided) c where "bt_get (collects r) i = Some c" "co_accepting c"
      "on_accept_reply SM i b r =
         Some (commit_exec SM i (co_command c) (co_union_seq c) (co_union_deps c)
                 (r\<lparr>collects := bt_remove i (bt_insert i (c\<lparr>co_accept_oks := co_accept_oks c + 1\<rparr>) (collects r))\<rparr>),
               map (\<lambda>p. (p, Commit i (co_command c) (co_union_seq c) (co_union_deps c))) (ep_peers r))"
proof (cases "\<exists>c. bt_get (collects r) i = Some c \<and> co_accepting c")
  case False
  then show ?thesis using ignored by (auto simp: on_accept_reply_def split: option.splits)
next
  case True
  then obtain c where c: "bt_get (collects r) i = Some c" "co_accepting c" by blast
  let ?c = "c\<lparr>co_accept_oks := co_accept_oks c + 1\<rparr>"
  let ?r1 = "r\<lparr>collects := bt_insert i ?c (collects r)\<rparr>"
  have fin: "finite (co_union_deps c)" using rep_okD(3) [OF ok] c(1) by (auto simp: collects_ok_def)
  have ok1: "rep_ok ?r1" using ok c(1) by (auto simp: rep_ok_def collects_ok_def)
  have eq: "on_accept_reply SM i b r =
      (if co_accept_oks ?c < slow_quorum r then Some (?r1, [])
       else commit_as_leader SM i (co_command c) (co_union_seq c) (co_union_deps c) ?r1)"
    using c by (simp add: on_accept_reply_def Let_def)
  show ?thesis
  proof (cases "co_accept_oks ?c < slow_quorum r")
    case True
    then show ?thesis using counted [OF c] eq by simp
  next
    case False
    then show ?thesis using decided [OF c] eq commit_as_leader_eq [OF ok1 fin] by (simp add: ep_peers_def)
  qed
qed

lemma on_commit_eq:
  "rep_ok r \<Longrightarrow> finite d \<Longrightarrow> on_commit SM i c s d r = Some (commit_exec SM i c s d r, [])"
  by (simp add: on_commit_def execute_recorded)

section \<open>The group\<close>

text \<open>
  Two fields only record history for the proofs and are never read by a step: \<open>pre_votes\<close>
  holds what each replica answered to a PreAccept (the leader's own answer included), \<open>counted\<close>
  which replies the leaders have received.
\<close>

record 's ep_net =
  reps :: "nat \<Rightarrow> 's ep_replica"
  flight :: "(nat \<times> nat \<times> ep_message) multiset"
  pre_votes :: "(nat \<times> instance_id \<times> instance_id set) set"
  counted :: "(instance_id \<times> nat) set"

definition sent :: "nat \<Rightarrow> ep_out list \<Rightarrow> (nat \<times> nat \<times> ep_message) multiset" where
  "sent f outs = mset (map (\<lambda>(t, m). (f, t, m)) outs)"

definition lead_vote :: "'s ep_state_machine \<Rightarrow> bytes \<Rightarrow> 's ep_replica \<Rightarrow> (nat \<times> instance_id \<times> instance_id set) set" where
  "lead_vote SM c r =
     (let i = Instance (ep_id r) (next_slot r) in {(ep_id r, i, snd (deps_and_seq SM r c i))})"

fun new_votes :: "'s ep_state_machine \<Rightarrow> ep_message \<Rightarrow> 's ep_replica \<Rightarrow> (nat \<times> instance_id \<times> instance_id set) set" where
  "new_votes SM (PreAccept i b c s d) r = {(ep_id r, i, d \<union> snd (deps_and_seq SM r c i))}"
| "new_votes SM _ r = {}"

fun new_counted :: "nat \<Rightarrow> ep_message \<Rightarrow> (instance_id \<times> nat) set" where
  "new_counted f (PreAcceptReply i b s d) = {(i, f)}"
| "new_counted f _ = {}"

inductive ep_step :: "'s ep_state_machine \<Rightarrow> nat list \<Rightarrow> bool \<Rightarrow> 's ep_net \<Rightarrow> 's ep_net \<Rightarrow> bool"
  for SM rs dup where
  ep_lead: "i \<in> set rs \<Longrightarrow> ep_propose SM c (reps N i) = (r', outs) \<Longrightarrow>
    ep_step SM rs dup N (N\<lparr>reps := (reps N)(i := r'), flight := flight N + sent i outs,
      pre_votes := pre_votes N \<union> lead_vote SM c (reps N i)\<rparr>)"
| ep_deliver: "(f, t, m) \<in># flight N \<Longrightarrow> keep \<longrightarrow> dup \<Longrightarrow>
    ep_on_message SM f m (reps N t) = Some (r', outs) \<Longrightarrow>
    ep_step SM rs dup N (N\<lparr>reps := (reps N)(t := r'),
      flight := (if keep then flight N else flight N - {#(f, t, m)#}) + sent t outs,
      pre_votes := pre_votes N \<union> new_votes SM m (reps N t),
      counted := counted N \<union> new_counted f m\<rparr>)"
| ep_lose: "p \<in># flight N \<Longrightarrow> ep_step SM rs dup N (N\<lparr>flight := flight N - {#p#}\<rparr>)"

inductive ep_reach :: "'s ep_state_machine \<Rightarrow> nat list \<Rightarrow> bool \<Rightarrow> 's \<Rightarrow> 's ep_net \<Rightarrow> bool"
  for SM rs dup s0 where
  ep_start: "(\<And>i. i \<in> set rs \<Longrightarrow> ep_new i rs s0 = Some (reps N i)) \<Longrightarrow> flight N = {#} \<Longrightarrow>
    pre_votes N = {} \<Longrightarrow> counted N = {} \<Longrightarrow> ep_reach SM rs dup s0 N"
| ep_more: "ep_reach SM rs dup s0 N \<Longrightarrow> ep_step SM rs dup N N' \<Longrightarrow> ep_reach SM rs dup s0 N'"

section \<open>The invariant\<close>

fun msg_inst :: "ep_message \<Rightarrow> instance_id" where
  "msg_inst (PreAccept i b c s d) = i"
| "msg_inst (PreAcceptReply i b s d) = i"
| "msg_inst (Accept i b c s d) = i"
| "msg_inst (AcceptReply i b) = i"
| "msg_inst (Commit i c s d) = i"

fun msg_inv :: "(nat \<Rightarrow> 's ep_replica) \<Rightarrow> nat \<times> nat \<times> ep_message \<Rightarrow> bool" where
  "msg_inv R (f, t, PreAccept i b c s d) \<longleftrightarrow> f = ins_replica i \<and> cmd_of (R f) i = Some c \<and> finite d"
| "msg_inv R (f, t, PreAcceptReply i b s d) \<longleftrightarrow> t = ins_replica i \<and> finite d"
| "msg_inv R (f, t, Accept i b c s d) \<longleftrightarrow> f = ins_replica i \<and> cmd_of (R f) i = Some c \<and> finite d"
| "msg_inv R (f, t, AcceptReply i b) \<longleftrightarrow> t = ins_replica i"
| "msg_inv R (f, t, Commit i c s d) \<longleftrightarrow> f = ins_replica i \<and> com (R f) i = Some (c, s, d) \<and> finite d"

definition collect_inv :: "'s ep_replica \<Rightarrow> bool" where
  "collect_inv r \<longleftrightarrow> (\<forall>i c. bt_get (collects r) i = Some c \<longrightarrow>
     ins_replica i = ep_id r \<and> com r i = None \<and> cmd_of r i = Some (co_command c))"

definition rep_inv :: "nat list \<Rightarrow> (nat \<Rightarrow> 's ep_replica) \<Rightarrow> nat \<Rightarrow> bool" where
  "rep_inv rs R r \<longleftrightarrow>
     ep_id (R r) = r \<and> ep_replicas (R r) = sort_dedup rs \<and> rep_ok (R r) \<and> collect_inv (R r) \<and>
     (\<forall>i v. com (R r) i = Some v \<longrightarrow> com (R (ins_replica i)) i = Some v) \<and>
     (\<forall>i c. cmd_of (R r) i = Some c \<longrightarrow> ins_replica i \<in> set rs \<and>
        ins_slot i < next_slot (R (ins_replica i)) \<and> cmd_of (R (ins_replica i)) i = Some c)"

definition ep_inv :: "nat list \<Rightarrow> 's ep_net \<Rightarrow> bool" where
  "ep_inv rs N \<longleftrightarrow> (\<forall>r \<in> set rs. rep_inv rs (reps N) r) \<and>
     (\<forall>f t m. (f, t, m) \<in># flight N \<longrightarrow> f \<in> set rs \<and> t \<in> set rs \<and> msg_inv (reps N) (f, t, m))"

lemma rep_invD:
  assumes "rep_inv rs R r"
  shows "ep_id (R r) = r" "ep_replicas (R r) = sort_dedup rs" "rep_ok (R r)" "collect_inv (R r)"
    "com (R r) i = Some v \<Longrightarrow> com (R (ins_replica i)) i = Some v"
    "cmd_of (R r) i = Some c \<Longrightarrow> ins_replica i \<in> set rs"
    "cmd_of (R r) i = Some c \<Longrightarrow> ins_slot i < next_slot (R (ins_replica i))"
    "cmd_of (R r) i = Some c \<Longrightarrow> cmd_of (R (ins_replica i)) i = Some c"
  using assms unfolding rep_inv_def by blast+

lemma ep_invD:
  assumes "ep_inv rs N"
  shows "r \<in> set rs \<Longrightarrow> rep_inv rs (reps N) r"
    and "(f, t, m) \<in># flight N \<Longrightarrow> f \<in> set rs" "(f, t, m) \<in># flight N \<Longrightarrow> t \<in> set rs"
    and "(f, t, m) \<in># flight N \<Longrightarrow> msg_inv (reps N) (f, t, m)"
  using assms unfolding ep_inv_def by blast+

text \<open>
  A step of one replica keeps the invariant when it forgets nothing, and what it newly knows or
  says is backed by the leader of the instance.
\<close>

definition grows :: "'s ep_replica \<Rightarrow> 's ep_replica \<Rightarrow> bool" where
  "grows r r' \<longleftrightarrow> ep_id r' = ep_id r \<and> ep_replicas r' = ep_replicas r \<and> next_slot r \<le> next_slot r' \<and>
     (\<forall>i c. cmd_of r i = Some c \<longrightarrow> cmd_of r' i = Some c) \<and>
     (\<forall>i v. com r i = Some v \<longrightarrow> com r' i = Some v)"

lemma growsD:
  assumes "grows r r'"
  shows "ep_id r' = ep_id r" "ep_replicas r' = ep_replicas r" "next_slot r \<le> next_slot r'"
    "cmd_of r i = Some c \<Longrightarrow> cmd_of r' i = Some c" "com r i = Some v \<Longrightarrow> com r' i = Some v"
  using assms unfolding grows_def by blast+

lemma msg_inv_mono:
  assumes "msg_inv R p" "\<And>i c. cmd_of (R t) i = Some c \<Longrightarrow> cmd_of r' i = Some c"
    "\<And>i v. com (R t) i = Some v \<Longrightarrow> com r' i = Some v"
  shows "msg_inv (R(t := r')) p"
  using assms by (cases "(R, p)" rule: msg_inv.cases) auto

abbreviation step_ok :: "nat list \<Rightarrow> 's ep_net \<Rightarrow> nat \<Rightarrow> 's ep_net \<Rightarrow> bool" where
  "step_ok rs N t N' \<equiv> ep_inv rs N' \<and> grows (reps N t) (reps N' t)"

lemma ep_inv_update:
  assumes inv: "ep_inv rs N" and t: "t \<in> set rs" and g: "grows (reps N t) r'"
    and ok: "rep_ok r'" "collect_inv r'"
    and cmd: "\<And>i c. cmd_of r' i = Some c \<Longrightarrow> cmd_of (reps N t) i = Some c \<or>
      ins_replica i \<in> set rs \<and> ins_slot i < next_slot (((reps N)(t := r')) (ins_replica i)) \<and>
      cmd_of (((reps N)(t := r')) (ins_replica i)) i = Some c"
    and com: "\<And>i v. com r' i = Some v \<Longrightarrow> com (reps N t) i = Some v \<or>
      com (((reps N)(t := r')) (ins_replica i)) i = Some v"
    and reps': "reps N' = (reps N)(t := r')"
    and fl: "\<And>p. p \<in># flight N' \<Longrightarrow> p \<in># flight N \<or> p \<in># sent t outs"
    and new: "\<And>u m. (u, m) \<in> set outs \<Longrightarrow> u \<in> set rs \<and> msg_inv ((reps N)(t := r')) (t, u, m)"
  shows "step_ok rs N t N'"
proof -
  let ?R = "reps N" and ?R' = "(reps N)(t := r')"
  note D = ep_invD [OF inv]
  have cmd_mono: "cmd_of (?R u) i = Some c \<Longrightarrow> cmd_of (?R' u) i = Some c" for u i c
    using growsD [OF g] by (cases "u = t") simp_all
  have com_mono: "com (?R u) i = Some v \<Longrightarrow> com (?R' u) i = Some v" for u i v
    using growsD [OF g] by (cases "u = t") simp_all
  have slot_mono: "next_slot (?R u) \<le> next_slot (?R' u)" for u
    using growsD [OF g] by (cases "u = t") simp_all
  have rep: "rep_inv rs ?R' r" if r: "r \<in> set rs" for r
  proof -
    note I = rep_invD [OF D(1) [OF r]]
    have cmd': "ins_replica i \<in> set rs \<and> ins_slot i < next_slot (?R' (ins_replica i))
        \<and> cmd_of (?R' (ins_replica i)) i = Some c" if "cmd_of (?R' r) i = Some c" for i c
    proof (cases "cmd_of (?R r) i = Some c")
      case True
      then show ?thesis using I(6-8) [OF True] slot_mono [of "ins_replica i"] cmd_mono [of "ins_replica i"]
        by (meson less_le_trans)
    next
      case False
      then show ?thesis using that cmd [of i c] by (cases "r = t") auto
    qed
    have com': "com (?R' (ins_replica i)) i = Some v" if "com (?R' r) i = Some v" for i v
    proof (cases "com (?R r) i = Some v")
      case True
      then show ?thesis using I(5) com_mono by blast
    next
      case False
      then show ?thesis using that com [of i v] by (cases "r = t") auto
    qed
    have "ep_id (?R' r) = r \<and> ep_replicas (?R' r) = sort_dedup rs \<and> rep_ok (?R' r) \<and> collect_inv (?R' r)"
      using I(1-4) growsD(1,2) [OF g] ok by (cases "r = t") simp_all
    then show ?thesis unfolding rep_inv_def using cmd' com' by blast
  qed
  have msg: "f \<in> set rs \<and> u \<in> set rs \<and> msg_inv ?R' (f, u, m)" if p: "(f, u, m) \<in># flight N'" for f u m
  proof (cases "(f, u, m) \<in># flight N")
    case True
    show ?thesis
      using D(2-4) [OF True] msg_inv_mono [of ?R "(f, u, m)" t r'] growsD(4,5) [OF g] by blast
  next
    case False
    then have "f = t" "(u, m) \<in> set outs" using fl [OF p] by (auto simp: sent_def)
    then show ?thesis using new t by blast
  qed
  have "ep_inv rs N'" unfolding ep_inv_def reps' using rep msg by blast
  with g show ?thesis by (simp add: reps')
qed

subsection \<open>The operations keep it\<close>

lemma view_collects [simp]:
  "com (r\<lparr>collects := x\<rparr>) = com r" "cmd_of (r\<lparr>collects := x\<rparr>) = cmd_of r"
  "com (r\<lparr>next_slot := n\<rparr>) = com r" "cmd_of (r\<lparr>next_slot := n\<rparr>) = cmd_of r"
  by (rule com_cong cmd_of_cong; simp)+

lemma grows_collects [simp]: "grows (r\<lparr>collects := x\<rparr>) r' = grows r r'"
  by (simp add: grows_def)

lemma grows_refl_collects [simp]: "grows r (r\<lparr>collects := x\<rparr>)"
  by (simp add: grows_def)

lemma com_None_status: "com r i = None \<Longrightarrow> status_of (cmds r) i \<noteq> Some Executed"
  by (auto simp: com_def status_of_def split: option.splits if_splits)

lemma grows_record:
  assumes "t \<noteq> Executed" "t \<noteq> Committed" "\<And>c0. cmd_of r i = Some c0 \<Longrightarrow> c0 = c"
  shows "grows r (record_inst i c s d t b r)"
  using assms by (auto simp: grows_def cmd_of_record_inst com_record_inst)

lemma grows_commit:
  assumes "rep_ok r" "finite d" "\<And>c0. cmd_of r i = Some c0 \<Longrightarrow> c0 = c" "\<And>v. com r i = Some v \<Longrightarrow> v = (c, s, d)"
  shows "grows r (commit_exec SM i c s d r)"
  using assms by (auto simp: grows_def cmd_of_commit_exec com_commit_exec)

lemma collect_inv_grow:
  assumes "collect_inv r" "grows r r'"
    and "\<And>j c. bt_get (collects r') j = Some c \<Longrightarrow>
      com r' j = None \<and> (\<exists>c0. bt_get (collects r) j = Some c0 \<and> co_command c0 = co_command c)"
  shows "collect_inv r'"
  unfolding collect_inv_def
proof (intro allI impI)
  fix j c assume "bt_get (collects r') j = Some c"
  with assms(3) obtain c0 where c0: "com r' j = None" "bt_get (collects r) j = Some c0" "co_command c0 = co_command c"
    by blast
  with assms(1) have "ins_replica j = ep_id r" "cmd_of r j = Some (co_command c)"
    unfolding collect_inv_def by auto
  then show "ins_replica j = ep_id r' \<and> com r' j = None \<and> cmd_of r' j = Some (co_command c)"
    using c0(1) growsD(1,4) [OF assms(2)] by simp
qed

lemma collect_invD:
  assumes "collect_inv r" "bt_get (collects r) i = Some c"
  shows "ins_replica i = ep_id r" "com r i = None" "cmd_of r i = Some (co_command c)"
  using assms unfolding collect_inv_def by blast+

lemma rep_ok_collects:
  assumes "rep_ok r" "\<And>i c. bt_get x i = Some c \<Longrightarrow> finite (co_init_deps c) \<and> finite (co_union_deps c)"
  shows "rep_ok (r\<lparr>collects := x\<rparr>)"
  using assms by (simp add: rep_ok_def collects_ok_def)

text \<open>Recording what a leader's PreAccept or Accept says.\<close>

lemma record_step_inv:
  assumes inv: "ep_inv rs N" and t: "t \<in> set rs" "f \<in> set rs"
    and i: "f = ins_replica i" "cmd_of (reps N f) i = Some c" and d: "finite d"
    and st: "st = PreAccepted \<or> st = Accepted"
    and reply: "(\<exists>b s d. m = PreAcceptReply i b s d \<and> finite d) \<or> (\<exists>b. m = AcceptReply i b)"
    and N': "reps N' = (reps N)(t := record_inst i c s d st b (reps N t))"
      "\<And>p. p \<in># flight N' \<Longrightarrow> p \<in># flight N \<or> p \<in># sent t [(f, m)]"
  shows "step_ok rs N t N'"
proof -
  let ?r = "reps N t" and ?r' = "record_inst i c s d st b (reps N t)"
  note I = rep_invD [OF ep_invD(1) [OF inv t(1)]]
  have same: "c0 = c" if "cmd_of ?r i = Some c0" for c0 using I(8) [OF that] i by simp
  have st': "st \<noteq> Executed" "st \<noteq> Committed" using st by auto
  have g: "grows ?r ?r'" by (rule grows_record [OF st' same])
  have com_eq: "com ?r' = com ?r" using st' by (intro ext) (simp add: com_record_inst)
  have col: "collect_inv ?r'"
    by (rule collect_inv_grow [OF I(4) g]) (use I(4) in \<open>auto simp: com_eq collect_inv_def\<close>)
  have slot: "ins_slot i < next_slot (reps N f)"
    using rep_invD(7) [OF ep_invD(1) [OF inv t(2)]] i by blast
  show ?thesis
  proof (rule ep_inv_update [OF inv t(1) g _ col _ _ N'])
    show "rep_ok ?r'" by (rule record_inst_rep_ok [OF I(3) d st'(1)])
    show "cmd_of ?r j = Some c0 \<or> ins_replica j \<in> set rs \<and>
        ins_slot j < next_slot (((reps N)(t := ?r')) (ins_replica j)) \<and>
        cmd_of (((reps N)(t := ?r')) (ins_replica j)) j = Some c0"
      if "cmd_of ?r' j = Some c0" for j c0
      using that i t(2) slot by (auto simp: cmd_of_record_inst split: if_splits)
    show "com ?r j = Some v \<or> com (((reps N)(t := ?r')) (ins_replica j)) j = Some v"
      if "com ?r' j = Some v" for j v using that by (simp add: com_eq)
    show "u \<in> set rs \<and> msg_inv ((reps N)(t := ?r')) (t, u, m')" if "(u, m') \<in> set [(f, m)]" for u m'
      using that reply i(1) t(2) by auto
  qed
qed

text \<open>Committing, at the leader of the instance or on its Commit message.\<close>

lemma commit_step_inv:
  assumes inv: "ep_inv rs N" and t: "t \<in> set rs"
    and r1: "cmds r1 = cmds (reps N t)" "ep_id r1 = t" "ep_replicas r1 = ep_replicas (reps N t)"
      "next_slot r1 = next_slot (reps N t)" "rep_ok r1"
    and d: "finite d"
    and cmd: "cmd_of (reps N (ins_replica i)) i = Some c" "ins_replica i \<in> set rs"
    and val: "t = ins_replica i \<and> com (reps N t) i = None \<or> com (reps N (ins_replica i)) i = Some (c, s, d)"
    and col: "\<And>j x. bt_get (collects r1) j = Some x \<Longrightarrow>
      j \<noteq> i \<and> (\<exists>c0. bt_get (collects (reps N t)) j = Some c0 \<and> co_command c0 = co_command x)"
    and N': "reps N' = (reps N)(t := commit_exec SM i c s d r1)"
      "\<And>p. p \<in># flight N' \<Longrightarrow> p \<in># flight N \<or> p \<in># sent t outs"
    and outs: "\<And>u m. (u, m) \<in> set outs \<Longrightarrow> u \<in> set rs \<and> t = ins_replica i \<and> m = Commit i c s d"
  shows "step_ok rs N t N'"
proof -
  let ?r = "reps N t" and ?r' = "commit_exec SM i c s d r1"
  note I = rep_invD [OF ep_invD(1) [OF inv t(1)]]
  have view: "com r1 = com ?r" "cmd_of r1 = cmd_of ?r" using com_cong [OF r1(1)] cmd_of_cong [OF r1(1)] by auto
  have same: "c0 = c" if "cmd_of r1 i = Some c0" for c0 using I(8) that cmd(1) view(2) by fastforce
  have vals: "v = (c, s, d)" if "com r1 i = Some v" for v
    using I(5) [of i v] that val view(1) by auto
  have "grows r1 ?r'" by (rule grows_commit [OF r1(5) d same vals])
  then have g: "grows ?r ?r'" using view r1 I(1) unfolding grows_def by simp
  have com': "com ?r' j = Some v \<Longrightarrow> com ?r j = Some v \<or> j = i \<and> v = (c, s, d)" for j v
    using com_commit_exec [OF r1(5) d, of SM i c s j] view by (auto split: if_splits)
  have own: "com (((reps N)(t := ?r')) (ins_replica i)) i = Some (c, s, d)"
  proof (cases "t = ins_replica i")
    case True
    have "com ?r' i = Some (c, s, d)"
    proof (cases "com ?r i")
      case None
      then have "status_of (cmds r1) i \<noteq> Some Executed" using com_None_status [of r1 i] view by simp
      then show ?thesis using com_commit_exec [OF r1(5) d, of SM i c s i] by simp
    next
      case (Some v)
      then show ?thesis using growsD(5) [OF g Some] vals [of v] view by simp
    qed
    then show ?thesis using True by simp
  next
    case False
    then show ?thesis using val by auto
  qed
  have slot: "ins_slot i < next_slot (reps N (ins_replica i))"
    using rep_invD(7) [OF ep_invD(1) [OF inv cmd(2)]] cmd(1) by blast
  have colinv: "collect_inv ?r'"
  proof (rule collect_inv_grow [OF I(4) g])
    fix j x assume x: "bt_get (collects ?r') j = Some x"
    then have jx: "j \<noteq> i" "\<exists>c0. bt_get (collects ?r) j = Some c0 \<and> co_command c0 = co_command x"
      using col [of j x] by simp_all
    then have "com ?r j = None" using I(4) unfolding collect_inv_def by blast
    then have "com ?r' j = None" using jx(1) com' [of j] by (cases "com ?r' j") auto
    then show "com ?r' j = None \<and> (\<exists>c0. bt_get (collects ?r) j = Some c0 \<and> co_command c0 = co_command x)"
      using jx(2) by blast
  qed
  show ?thesis
  proof (rule ep_inv_update [OF inv t(1) g _ colinv _ _ N'])
    show "rep_ok ?r'" by (rule commit_exec_rep_ok [OF r1(5) d])
    show "cmd_of ?r j = Some c0 \<or> ins_replica j \<in> set rs \<and>
        ins_slot j < next_slot (((reps N)(t := ?r')) (ins_replica j)) \<and>
        cmd_of (((reps N)(t := ?r')) (ins_replica j)) j = Some c0"
      if c0: "cmd_of ?r' j = Some c0" for j c0
    proof (cases "cmd_of ?r j = Some c0")
      case False
      then have "j = i" "c0 = c" using c0 view by (auto simp: cmd_of_commit_exec split: if_splits)
      then show ?thesis using cmd slot growsD(3,4) [OF g] r1(4) by auto
    qed simp
    show "com ?r j = Some v \<or> com (((reps N)(t := ?r')) (ins_replica j)) j = Some v"
      if "com ?r' j = Some v" for j v using com' [OF that] own by auto
    show "u \<in> set rs \<and> msg_inv ((reps N)(t := ?r')) (t, u, m)" if "(u, m) \<in> set outs" for u m
      using outs [OF that] own d by auto
  qed
qed

text \<open>Counting a reply changes only the leader's bookkeeping.\<close>

lemma collect_step_inv:
  assumes inv: "ep_inv rs N" and t: "t \<in> set rs" and c: "bt_get (collects (reps N t)) i = Some c"
    and c': "co_command c' = co_command c" "finite (co_init_deps c')" "finite (co_union_deps c')"
    and N': "reps N' = (reps N)(t := (reps N t)\<lparr>collects := bt_insert i c' (collects (reps N t))\<rparr>)"
      "\<And>p. p \<in># flight N' \<Longrightarrow> p \<in># flight N \<or> p \<in># sent t []"
  shows "step_ok rs N t N'"
proof -
  let ?r = "reps N t" and ?r' = "(reps N t)\<lparr>collects := bt_insert i c' (collects (reps N t))\<rparr>"
  note I = rep_invD [OF ep_invD(1) [OF inv t(1)]]
  have g: "grows ?r ?r'" by simp
  have fin: "finite (co_init_deps x) \<and> finite (co_union_deps x)" if "bt_get (collects ?r') j = Some x" for j x
    using that c'(2,3) rep_okD(3) [OF I(3)] by (auto simp: collects_ok_def split: if_splits)
  have ok: "rep_ok ?r'" by (rule rep_ok_collects [OF I(3)]) (use fin in simp)
  have col: "collect_inv ?r'"
  proof (rule collect_inv_grow [OF I(4) g])
    fix j x assume x: "bt_get (collects ?r') j = Some x"
    then have "\<exists>c0. bt_get (collects ?r) j = Some c0 \<and> co_command c0 = co_command x"
      using c c'(1) by (auto split: if_splits)
    then show "com ?r' j = None \<and> (\<exists>c0. bt_get (collects ?r) j = Some c0 \<and> co_command c0 = co_command x)"
      using collect_invD(2) [OF I(4)] by auto
  qed
  show ?thesis by (rule ep_inv_update [OF inv t g ok col _ _ N']) simp_all
qed

text \<open>Starting the Accept round.\<close>

lemma accept_step_inv:
  assumes inv: "ep_inv rs N" and t: "t \<in> set rs" and c: "bt_get (collects (reps N t)) i = Some c"
    and d: "finite d" "finite (co_init_deps c')" "finite (co_union_deps c')" "co_command c' = co_command c"
    and N': "reps N' = (reps N)(t := record_inst i (co_command c) s d Accepted 0
        ((reps N t)\<lparr>collects := bt_insert i c' x\<rparr>))"
      "\<And>p. p \<in># flight N' \<Longrightarrow> p \<in># flight N \<or> p \<in># sent t outs"
    and x: "\<And>j. j \<noteq> i \<Longrightarrow> bt_get x j = bt_get (collects (reps N t)) j"
    and outs: "\<And>u m. (u, m) \<in> set outs \<Longrightarrow> u \<in> set rs \<and> m = Accept i 0 (co_command c) s d"
  shows "step_ok rs N t N'"
proof -
  let ?r = "reps N t"
  let ?r1 = "?r\<lparr>collects := bt_insert i c' x\<rparr>"
  let ?r' = "record_inst i (co_command c) s d Accepted 0 ?r1"
  note I = rep_invD [OF ep_invD(1) [OF inv t(1)]]
  note C = collect_invD [OF I(4) c]
  have "grows ?r1 ?r'" by (rule grows_record) (use C(3) in simp_all)
  then have g: "grows ?r ?r'" by simp
  have com_eq: "com ?r' = com ?r" by (intro ext) (simp add: com_record_inst)
  have fin: "finite (co_init_deps y) \<and> finite (co_union_deps y)" if "bt_get (collects ?r1) j = Some y" for j y
    using that d x rep_okD(3) [OF I(3)] by (auto simp: collects_ok_def split: if_splits)
  have "rep_ok ?r1" by (rule rep_ok_collects [OF I(3)]) (use fin in simp)
  then have ok: "rep_ok ?r'" by (rule record_inst_rep_ok [OF _ d(1)]) simp
  have col: "collect_inv ?r'"
  proof (rule collect_inv_grow [OF I(4) g])
    fix j y assume y: "bt_get (collects ?r') j = Some y"
    then have "\<exists>c0. bt_get (collects ?r) j = Some c0 \<and> co_command c0 = co_command y"
      using c d(4) x by (auto split: if_splits)
    then show "com ?r' j = None \<and> (\<exists>c0. bt_get (collects ?r) j = Some c0 \<and> co_command c0 = co_command y)"
      unfolding com_eq using collect_invD(2) [OF I(4)] by auto
  qed
  show ?thesis
  proof (rule ep_inv_update [OF inv t g ok col _ _ N'])
    show "cmd_of ?r j = Some c0 \<or> ins_replica j \<in> set rs \<and>
        ins_slot j < next_slot (((reps N)(t := ?r')) (ins_replica j)) \<and>
        cmd_of (((reps N)(t := ?r')) (ins_replica j)) j = Some c0"
      if "cmd_of ?r' j = Some c0" for j c0
      using that C(3) by (auto simp: cmd_of_record_inst split: if_splits)
    show "com ?r j = Some v \<or> com (((reps N)(t := ?r')) (ins_replica j)) j = Some v"
      if "com ?r' j = Some v" for j v using that by (simp add: com_eq)
    show "u \<in> set rs \<and> msg_inv ((reps N)(t := ?r')) (t, u, m)" if "(u, m) \<in> set outs" for u m
      using outs [OF that] C(1,3) growsD(4) [OF g C(3)] I(1) d(1) by auto
  qed
qed

lemma deps_and_seq_cong: "cmds r = cmds r' \<Longrightarrow> ep_sm r = ep_sm r' \<Longrightarrow> deps_and_seq SM r c i = deps_and_seq SM r' c i"
  by (simp only: deps_and_seq_def)

lemma deps_and_seq_slot [simp]: "deps_and_seq SM (r\<lparr>next_slot := n\<rparr>) c i = deps_and_seq SM r c i"
  by (rule deps_and_seq_cong) simp_all

lemma propose_step_inv:
  assumes inv: "ep_inv rs N" and t: "t \<in> set rs" and p: "ep_propose SM c (reps N t) = (r', outs)"
    and N': "reps N' = (reps N)(t := r')"
      "\<And>p. p \<in># flight N' \<Longrightarrow> p \<in># flight N \<or> p \<in># sent t outs"
  shows "step_ok rs N t N'"
proof -
  let ?r = "reps N t"
  let ?i = "Instance t (next_slot ?r)"
  note I = rep_invD [OF ep_invD(1) [OF inv t(1)]]
  obtain sq deps where sd: "deps_and_seq SM ?r c ?i = (sq, deps)" by (cases "deps_and_seq SM ?r c ?i")
  have fin: "finite deps" using finite_deps_and_seq [of SM ?r c ?i] sd by simp
  let ?r1 = "?r\<lparr>next_slot := next_slot ?r + 1\<rparr>"
  let ?r2 = "record_inst ?i c sq deps PreAccepted 0 ?r1"
  define col where "col = \<lparr>co_command = c, co_init_seq = sq, co_init_deps = deps, co_replies = 1,
      co_agreed = 1, co_union_seq = sq, co_union_deps = deps, co_accepting = False, co_accept_oks = 1\<rparr>"
  have r': "r' = ?r2\<lparr>collects := bt_insert ?i col (collects ?r)\<rparr>"
    "outs = map (\<lambda>p. (p, PreAccept ?i 0 c sq deps)) (ep_peers ?r)"
    using p sd I(1) by (auto simp: ep_propose_def Let_def col_def ep_peers_def)
  have fresh: "cmd_of ?r ?i = None" using I(7) [of ?i] by (cases "cmd_of ?r ?i") auto
  then have fresh': "bt_get (cmds ?r) ?i = None" by (simp add: cmd_of_def)
  have com_i: "com ?r ?i = None" using fresh' by (simp add: com_def)
  have com_eq: "com r' = com ?r" by (intro ext) (simp add: r' com_record_inst)
  have cmd_eq: "cmd_of r' = (cmd_of ?r)(?i \<mapsto> c)"
    using fresh' by (intro ext) (simp add: r' cmd_of_record_inst)
  have g: "grows ?r r'"
    unfolding grows_def com_eq cmd_eq using fresh by (auto simp: r')
  have "rep_ok ?r1" using I(3) rep_ok_cong [of ?r1 ?r] by simp
  then have ok2: "rep_ok ?r2" by (rule record_inst_rep_ok [OF _ fin]) simp
  have ok: "rep_ok r'" unfolding r'(1)
    by (rule rep_ok_collects [OF ok2])
       (use rep_okD(3) [OF I(3)] fin in \<open>auto simp: collects_ok_def col_def split: if_splits\<close>)
  have colinv: "collect_inv r'" unfolding collect_inv_def com_eq cmd_eq
  proof (intro allI impI)
    fix j y assume y: "bt_get (collects r') j = Some y"
    show "ins_replica j = ep_id r' \<and> com ?r j = None \<and> ((cmd_of ?r)(?i \<mapsto> c)) j = Some (co_command y)"
    proof (cases "j = ?i")
      case True
      then show ?thesis using y com_i I(1) by (auto simp: r' col_def)
    next
      case False
      then have "bt_get (collects ?r) j = Some y" using y by (simp add: r')
      from collect_invD [OF I(4) this] show ?thesis using False by (simp add: r')
    qed
  qed
  have slot': "next_slot r' = Suc (next_slot ?r)" by (simp add: r')
  have peers: "set (ep_peers ?r) \<subseteq> set rs" using I(2) by (auto simp: ep_peers_def)
  show ?thesis
  proof (rule ep_inv_update [OF inv t g ok colinv _ _ N'])
    show "cmd_of ?r j = Some c0 \<or> ins_replica j \<in> set rs \<and>
        ins_slot j < next_slot (((reps N)(t := r')) (ins_replica j)) \<and>
        cmd_of (((reps N)(t := r')) (ins_replica j)) j = Some c0"
      if "cmd_of r' j = Some c0" for j c0
      using that t slot' by (auto simp: cmd_eq split: if_splits)
    show "com ?r j = Some v \<or> com (((reps N)(t := r')) (ins_replica j)) j = Some v"
      if "com r' j = Some v" for j v using that by (simp add: com_eq)
    show "u \<in> set rs \<and> msg_inv ((reps N)(t := r')) (t, u, m)" if "(u, m) \<in> set outs" for u m
      using that peers fin by (auto simp: r'(2) cmd_eq)
  qed
qed

section \<open>Every reachable group satisfies it\<close>

lemma peers_in: "rep_inv rs R r \<Longrightarrow> u \<in> set (ep_peers (R r)) \<Longrightarrow> u \<in> set rs \<and> u \<noteq> r"
  by (auto simp: ep_peers_def rep_inv_def)

lemma deliver_inv:
  assumes inv: "ep_inv rs N" and p: "(f, t, m) \<in># flight N"
    and h: "ep_on_message SM f m (reps N t) = Some (r', outs)"
    and N': "reps N' = (reps N)(t := r')"
      "\<And>p. p \<in># flight N' \<Longrightarrow> p \<in># flight N \<or> p \<in># sent t outs"
  shows "step_ok rs N t N'"
proof -
  note ft = ep_invD(2,3) [OF inv p] and mi = ep_invD(4) [OF inv p]
  let ?r = "reps N t"
  note R = ep_invD(1) [OF inv ft(2)]
  note I = rep_invD [OF R]
  have keep: "step_ok rs N t N'" if "r' = ?r" "outs = []"
  proof -
    have "reps N' = reps N" using N'(1) that by simp
    moreover have "q \<in># flight N'  \<Longrightarrow> q \<in># flight N" for q using N'(2) [of q] that by (simp add: sent_def)
    ultimately have "ep_inv rs N'" using inv unfolding ep_inv_def by metis
    with \<open>reps N' = reps N\<close> show ?thesis by (simp add: grows_def)
  qed
  have fin: "finite (co_init_deps c) \<and> finite (co_union_deps c)" if "bt_get (collects ?r) j = Some c" for j c
    using rep_okD(3) [OF I(3)] that by (auto simp: collects_ok_def)
  have commit: "step_ok rs N t N'"
    if "t = ins_replica i" "com ?r i = None" "cmd_of ?r i = Some c" "finite d"
      "r' = commit_exec SM i c s d (?r\<lparr>collects := bt_remove i (bt_insert i y (collects ?r))\<rparr>)"
      "outs = map (\<lambda>p. (p, Commit i c s d)) (ep_peers ?r)" for i c s d y
  proof (rule commit_step_inv [OF inv ft(2), where SM = SM and i = i and c = c and s = s and d = d
        and ?r1.0 = "?r\<lparr>collects := bt_remove i (bt_insert i y (collects ?r))\<rparr>" and outs = outs])
    show "rep_ok (?r\<lparr>collects := bt_remove i (bt_insert i y (collects ?r))\<rparr>)"
      by (rule rep_ok_collects [OF I(3)]) (use fin in \<open>auto split: if_splits\<close>)
    show "u \<in> set rs \<and> t = ins_replica i \<and> m' = Commit i c s d" if "(u, m') \<in> set outs" for u m'
      using that \<open>outs = _\<close> \<open>t = ins_replica i\<close> peers_in [OF R] by auto
    show "reps N' = (reps N)(t := commit_exec SM i c s d
        (?r\<lparr>collects := bt_remove i (bt_insert i y (collects ?r))\<rparr>))" using N'(1) that(5) by simp
  qed (use that N' I(1) ft(2) in \<open>auto split: if_splits\<close>)
  show ?thesis
  proof (cases m)
    case (PreAccept i b c s d)
    then have "r' = record_inst i c (max s (fst (deps_and_seq SM ?r c i))) (d \<union> snd (deps_and_seq SM ?r c i))
        PreAccepted b ?r"
      "outs = [(f, PreAcceptReply i b (max s (fst (deps_and_seq SM ?r c i))) (d \<union> snd (deps_and_seq SM ?r c i)))]"
      using h by (auto simp: on_preaccept_def Let_def case_prod_beta)
    with N' mi show ?thesis unfolding PreAccept
      by (intro record_step_inv [OF inv ft(2,1), where i = i and c = c and st = PreAccepted and
          d = "d \<union> snd (deps_and_seq SM ?r c i)" and m = "snd (hd outs)" and N' = N'])
         (auto simp: finite_deps_and_seq)
  next
    case (Accept i b c s d)
    then have "r' = record_inst i c s d Accepted b ?r" "outs = [(f, AcceptReply i b)]"
      using h by (auto simp: on_accept_def)
    with N' mi show ?thesis unfolding Accept
      by (intro record_step_inv [OF inv ft(2,1), where i = i and c = c and st = Accepted and
          d = d and m = "snd (hd outs)" and N' = N']) auto
  next
    case (Commit i c s d)
    have mi': "f = ins_replica i" "com (reps N f) i = Some (c, s, d)" "finite d" using mi Commit by auto
    have r': "r' = commit_exec SM i c s d ?r" "outs = []"
      using h Commit on_commit_eq [OF I(3) mi'(3)] by auto
    have no_col: "bt_get (collects ?r) i = None"
    proof (rule ccontr)
      assume "\<not> ?thesis"
      then obtain y where y: "bt_get (collects ?r) i = Some y" by auto
      with collect_invD(1,2) [OF I(4) y] I(1) mi' show False by simp
    qed
    show ?thesis
      by (rule commit_step_inv [OF inv ft(2), where ?r1.0 = ?r and SM = SM and i = i and c = c and s = s
          and d = d and outs = outs])
         (use N' r' mi' ft I(1,3) no_col com_cmd_of [OF mi'(2)] in auto)
  next
    case (PreAcceptReply i b s d)
    have d: "finite d" and ti: "t = ins_replica i" using mi PreAcceptReply by auto
    have h': "on_preaccept_reply SM i b s d ?r = Some (r', outs)" using h PreAcceptReply by simp
    show ?thesis
    proof (rule on_preaccept_reply_cases [OF I(3) d, of SM i b s])
      assume "on_preaccept_reply SM i b s d ?r = Some (?r, [])"
      then show ?thesis using keep h' by simp
    next
      fix c assume c: "bt_get (collects ?r) i = Some c"
        "on_preaccept_reply SM i b s d ?r = Some (?r\<lparr>collects := bt_insert i (tally s d c) (collects ?r)\<rparr>, [])"
      then have "r' = ?r\<lparr>collects := bt_insert i (tally s d c) (collects ?r)\<rparr>" "outs = []" using h' by simp_all
      then show ?thesis using N' fin [OF c(1)] d
        by (intro collect_step_inv [OF inv ft(2) c(1), of "tally s d c" N']) (auto simp: tally_def)
    next
      fix c assume c: "bt_get (collects ?r) i = Some c"
        "on_preaccept_reply SM i b s d ?r =
         Some (commit_exec SM i (co_command c) (co_init_seq c) (co_init_deps c)
                 (?r\<lparr>collects := bt_remove i (bt_insert i (tally s d c) (collects ?r))\<rparr>),
               map (\<lambda>p. (p, Commit i (co_command c) (co_init_seq c) (co_init_deps c))) (ep_peers ?r))"
      have "finite (co_init_deps c)" "r' = commit_exec SM i (co_command c) (co_init_seq c) (co_init_deps c)
            (?r\<lparr>collects := bt_remove i (bt_insert i (tally s d c) (collects ?r))\<rparr>)"
          "outs = map (\<lambda>p. (p, Commit i (co_command c) (co_init_seq c) (co_init_deps c))) (ep_peers ?r)"
        using h' c(2) fin [OF c(1)] by simp_all
      then show ?thesis by (rule commit [OF ti collect_invD(2,3) [OF I(4) c(1)]])
    next
      fix c assume c: "bt_get (collects ?r) i = Some c"
        "on_preaccept_reply SM i b s d ?r =
         (let c1 = tally s d c
          in Some (record_inst i (co_command c) (co_union_seq c1) (co_union_deps c1) Accepted 0
                (?r\<lparr>collects := bt_insert i (c1\<lparr>co_accepting := True, co_accept_oks := 1\<rparr>)
                                (bt_insert i c1 (collects ?r))\<rparr>),
              map (\<lambda>p. (p, Accept i 0 (co_command c) (co_union_seq c1) (co_union_deps c1))) (ep_peers ?r)))"
      let ?c1 = "tally s d c"
      have r': "r' = record_inst i (co_command c) (co_union_seq ?c1) (co_union_deps ?c1) Accepted 0
          (?r\<lparr>collects := bt_insert i (?c1\<lparr>co_accepting := True, co_accept_oks := 1\<rparr>) (bt_insert i ?c1 (collects ?r))\<rparr>)"
        "outs = map (\<lambda>p. (p, Accept i 0 (co_command c) (co_union_seq ?c1) (co_union_deps ?c1))) (ep_peers ?r)"
        using h' c(2) by (simp_all add: Let_def)
      show ?thesis
        by (rule accept_step_inv [OF inv ft(2) c(1), where d = "co_union_deps ?c1" and s = "co_union_seq ?c1"
              and c' = "?c1\<lparr>co_accepting := True, co_accept_oks := 1\<rparr>" and x = "bt_insert i ?c1 (collects ?r)"
              and outs = outs])
           (use N' r' fin [OF c(1)] d peers_in [OF R] in \<open>auto simp: tally_def\<close>)
    qed
  next
    case (AcceptReply i b)
    have ti: "t = ins_replica i" using mi AcceptReply by auto
    have h': "on_accept_reply SM i b ?r = Some (r', outs)" using h AcceptReply by simp
    show ?thesis
    proof (rule on_accept_reply_cases [OF I(3), of SM i b])
      assume "on_accept_reply SM i b ?r = Some (?r, [])"
      then show ?thesis using keep h' by simp
    next
      fix c assume c: "bt_get (collects ?r) i = Some c" "on_accept_reply SM i b ?r =
         Some (?r\<lparr>collects := bt_insert i (c\<lparr>co_accept_oks := co_accept_oks c + 1\<rparr>) (collects ?r)\<rparr>, [])"
      then have "r' = ?r\<lparr>collects := bt_insert i (c\<lparr>co_accept_oks := co_accept_oks c + 1\<rparr>) (collects ?r)\<rparr>"
        "outs = []" using h' by simp_all
      then show ?thesis using N' fin [OF c(1)]
        by (intro collect_step_inv [OF inv ft(2) c(1), of "c\<lparr>co_accept_oks := co_accept_oks c + 1\<rparr>" N']) auto
    next
      fix c assume c: "bt_get (collects ?r) i = Some c" "on_accept_reply SM i b ?r =
         Some (commit_exec SM i (co_command c) (co_union_seq c) (co_union_deps c)
                 (?r\<lparr>collects := bt_remove i (bt_insert i (c\<lparr>co_accept_oks := co_accept_oks c + 1\<rparr>) (collects ?r))\<rparr>),
               map (\<lambda>p. (p, Commit i (co_command c) (co_union_seq c) (co_union_deps c))) (ep_peers ?r))"
      have "finite (co_union_deps c)" "r' = commit_exec SM i (co_command c) (co_union_seq c) (co_union_deps c)
            (?r\<lparr>collects := bt_remove i (bt_insert i (c\<lparr>co_accept_oks := co_accept_oks c + 1\<rparr>) (collects ?r))\<rparr>)"
          "outs = map (\<lambda>p. (p, Commit i (co_command c) (co_union_seq c) (co_union_deps c))) (ep_peers ?r)"
        using h' c(2) fin [OF c(1)] by simp_all
      then show ?thesis by (rule commit [OF ti collect_invD(2,3) [OF I(4) c(1)]])
    qed
  qed
qed

lemma ep_step_ok:
  assumes "ep_step SM rs dup N N'" "ep_inv rs N"
  shows "ep_inv rs N' \<and> (\<forall>t. grows (reps N t) (reps N' t))"
  using assms
proof (induction rule: ep_step.induct)
  case (ep_lead t c N r' outs)
  have "step_ok rs N t (N\<lparr>reps := (reps N)(t := r'), flight := flight N + sent t outs,
      pre_votes := pre_votes N \<union> lead_vote SM c (reps N t)\<rparr>)"
    by (rule propose_step_inv [OF ep_lead.prems ep_lead.hyps]) auto
  then show ?case by (auto simp: grows_def)
next
  case (ep_deliver f t m N keep r' outs)
  have "step_ok rs N t (N\<lparr>reps := (reps N)(t := r'),
      flight := (if keep then flight N else flight N - {#(f, t, m)#}) + sent t outs,
      pre_votes := pre_votes N \<union> new_votes SM m (reps N t), counted := counted N \<union> new_counted f m\<rparr>)"
    by (rule deliver_inv [OF ep_deliver.prems ep_deliver.hyps(1,3)]) (auto split: if_splits dest: in_diffD)
  then show ?case by (auto simp: grows_def)
next
  case (ep_lose p N)
  then show ?case unfolding ep_inv_def by (auto simp: grows_def dest: in_diffD)
qed

lemma ep_start_rep:
  "ep_new i rs s0 = Some r \<Longrightarrow> ep_id r = i \<and> ep_replicas r = sort_dedup rs \<and> next_slot r = 0 \<and>
     cmds r = [] \<and> collects r = [] \<and> ep_sm r = s0"
  by (auto simp: ep_new_def Let_def split: if_splits)

lemma ep_reach_inv: "ep_reach SM rs dup s0 N \<Longrightarrow> ep_inv rs N"
proof (induction rule: ep_reach.induct)
  case (ep_start N)
  have "rep_inv rs (reps N) i" if "i \<in> set rs" for i
    using ep_start_rep [OF ep_start(1) [OF that]]
    by (simp add: rep_inv_def rep_ok_def cmds_wf_def exec_closed_def status_of_def collects_ok_def
        collect_inv_def com_def cmd_of_def)
  then show ?case using ep_start(2) by (simp add: ep_inv_def)
qed (use ep_step_ok in blast)

lemma ep_no_panic:
  assumes inv: "ep_inv rs N" and p: "(f, t, m) \<in># flight N"
  shows "ep_on_message SM f m (reps N t) \<noteq> None"
proof -
  note ft = ep_invD(2,3) [OF inv p] and mi = ep_invD(4) [OF inv p]
  note I = rep_invD [OF ep_invD(1) [OF inv ft(2)]]
  show ?thesis
  proof (cases m)
    case (PreAcceptReply i b s d)
    then have "finite d" using mi by simp
    then show ?thesis unfolding PreAcceptReply
      by (rule on_preaccept_reply_cases [OF I(3), of d SM i b s]) (simp_all add: Let_def)
  next
    case (AcceptReply i b)
    show ?thesis unfolding AcceptReply by (rule on_accept_reply_cases [OF I(3), of SM i b]) simp_all
  next
    case (Commit i c s d)
    then show ?thesis using mi on_commit_eq [OF I(3)] by simp
  qed simp_all
qed

end
