(* ===== verification/Epaxos_Order.thy ===== *)
theory Epaxos_Order
  imports Epaxos_Net
begin

text \<open>
  Why EPaxos orders interfering commands: on a network without duplication, when two fast
  quorums always share a replica, of any two committed interfering instances one is among the
  dependencies of the other.  The shared replica answered both PreAccepts, and the second
  answer names the first instance.
\<close>

section \<open>Quorums of answers\<close>

definition fq :: "nat list \<Rightarrow> nat" where
  "fq rs = (let n = length (sort_dedup rs); f = (n - 1) div 2 in f + (f + 1) div 2)"

lemma fast_quorum_fq: "ep_replicas r = sort_dedup rs \<Longrightarrow> fast_quorum r = fq rs"
  by (simp add: fast_quorum_def fq_def)

definition backed :: "nat list \<Rightarrow> 's ep_net \<Rightarrow> instance_id \<Rightarrow> instance_id set \<Rightarrow> bool" where
  "backed rs N a D \<longleftrightarrow> (\<exists>Q \<subseteq> set rs. fq rs \<le> card Q \<and> (\<forall>q \<in> Q. \<exists>Dq \<subseteq> D. (q, a, Dq) \<in> pre_votes N))"

lemma backed_mono:
  assumes "backed rs N a D" "pre_votes N \<subseteq> pre_votes N'"
  shows "backed rs N' a D"
proof -
  obtain Q where Q: "Q \<subseteq> set rs" "fq rs \<le> card Q" "\<forall>q \<in> Q. \<exists>Dq \<subseteq> D. (q, a, Dq) \<in> pre_votes N"
    using assms(1) unfolding backed_def by (elim exE conjE)
  from Q(3) have "\<forall>q \<in> Q. \<exists>Dq \<subseteq> D. (q, a, Dq) \<in> pre_votes N'" using assms(2) by blast
  with Q(1,2) show ?thesis unfolding backed_def by (intro exI [of _ Q] conjI)
qed

definition counted_of :: "'s ep_net \<Rightarrow> instance_id \<Rightarrow> nat set" where
  "counted_of N a = {q. (a, q) \<in> counted N}"

definition open_ok :: "'s ep_net \<Rightarrow> instance_id \<Rightarrow> collect \<Rightarrow> bool" where
  "open_ok N a c \<longleftrightarrow>
     co_replies c \<le> card (insert (ins_replica a) (counted_of N a)) \<and>
     (ins_replica a, a, co_init_deps c) \<in> pre_votes N \<and> co_init_deps c \<subseteq> co_union_deps c \<and>
     (\<forall>q \<in> counted_of N a. \<exists>D \<subseteq> co_union_deps c. (q, a, D) \<in> pre_votes N) \<and>
     co_agreed c \<le> card {q \<in> insert (ins_replica a) (counted_of N a). (q, a, co_init_deps c) \<in> pre_votes N}"

definition coll_ok :: "nat list \<Rightarrow> 's ep_net \<Rightarrow> instance_id \<Rightarrow> collect \<Rightarrow> bool" where
  "coll_ok rs N a c \<longleftrightarrow> (if co_accepting c then backed rs N a (co_union_deps c) else open_ok N a c)"

fun is_tok :: "instance_id \<Rightarrow> nat \<Rightarrow> nat \<times> nat \<times> ep_message \<Rightarrow> bool" where
  "is_tok a q (f, t, PreAccept i b c s d) \<longleftrightarrow> i = a \<and> t = q"
| "is_tok a q (f, t, PreAcceptReply i b s d) \<longleftrightarrow> i = a \<and> f = q"
| "is_tok a q (f, t, _) \<longleftrightarrow> False"

text \<open>The requests to \<open>q\<close>, the answers of \<open>q\<close> and the counted answers of \<open>q\<close>, together.\<close>

definition toks :: "'s ep_net \<Rightarrow> instance_id \<Rightarrow> nat \<Rightarrow> nat" where
  "toks N a q = size (filter_mset (is_tok a q) (flight N)) + of_bool ((a, q) \<in> counted N)"

definition ord_inv :: "nat list \<Rightarrow> (bytes \<Rightarrow> bytes \<Rightarrow> bool) \<Rightarrow> 's ep_net \<Rightarrow> bool" where
  "ord_inv rs ifr N \<longleftrightarrow>
     (\<forall>q a D. (q, a, D) \<in> pre_votes N \<longrightarrow> q \<in> set rs \<and> cmd_of (reps N q) a \<noteq> None) \<and>
     (\<forall>q a b Da Db ca cb. (q, a, Da) \<in> pre_votes N \<longrightarrow> (q, b, Db) \<in> pre_votes N \<longrightarrow> a \<noteq> b \<longrightarrow>
        cmd_of (reps N q) a = Some ca \<longrightarrow> cmd_of (reps N q) b = Some cb \<longrightarrow> ifr ca cb \<longrightarrow> b \<in> Da \<or> a \<in> Db) \<and>
     (\<forall>a q. toks N a q \<le> 1) \<and>
     (\<forall>f t i b s d. (f, t, PreAcceptReply i b s d) \<in># flight N \<longrightarrow> (f, i, d) \<in> pre_votes N \<and> f \<noteq> ins_replica i) \<and>
     (\<forall>f t i b c s d. (f, t, PreAccept i b c s d) \<in># flight N \<longrightarrow> t \<noteq> ins_replica i) \<and>
     (\<forall>i q. (i, q) \<in> counted N \<longrightarrow> q \<noteq> ins_replica i \<and> (\<exists>d. (q, i, d) \<in> pre_votes N)) \<and>
     (\<forall>t \<in> set rs. \<forall>a c. bt_get (collects (reps N t)) a = Some c \<longrightarrow> coll_ok rs N a c) \<and>
     (\<forall>a c s D. ins_replica a \<in> set rs \<longrightarrow> com (reps N (ins_replica a)) a = Some (c, s, D) \<longrightarrow> backed rs N a D)"

lemma ord_invD:
  assumes "ord_inv rs ifr N"
  shows "(q, a, D) \<in> pre_votes N \<Longrightarrow> q \<in> set rs" "(q, a, D) \<in> pre_votes N \<Longrightarrow> cmd_of (reps N q) a \<noteq> None"
    and "(q, a, Da) \<in> pre_votes N \<Longrightarrow> (q, b, Db) \<in> pre_votes N \<Longrightarrow> a \<noteq> b \<Longrightarrow>
        cmd_of (reps N q) a = Some ca \<Longrightarrow> cmd_of (reps N q) b = Some cb \<Longrightarrow> ifr ca cb \<Longrightarrow> b \<in> Da \<or> a \<in> Db"
    and "toks N a q \<le> 1"
    and "(f, t, PreAcceptReply i b' s d) \<in># flight N \<Longrightarrow> (f, i, d) \<in> pre_votes N"
    and "(f, t, PreAcceptReply i b' s d) \<in># flight N \<Longrightarrow> f \<noteq> ins_replica i"
    and "(f, t, PreAccept i b' c' s d) \<in># flight N \<Longrightarrow> t \<noteq> ins_replica i"
    and "(i, q) \<in> counted N \<Longrightarrow> q \<noteq> ins_replica i" "(i, q) \<in> counted N \<Longrightarrow> \<exists>d. (q, i, d) \<in> pre_votes N"
    and "t \<in> set rs \<Longrightarrow> bt_get (collects (reps N t)) a = Some cl \<Longrightarrow> coll_ok rs N a cl"
    and "ins_replica a \<in> set rs \<Longrightarrow> com (reps N (ins_replica a)) a = Some (x, y, D) \<Longrightarrow> backed rs N a D"
proof -
  note * = assms [unfolded ord_inv_def]
  show "(q, a, D) \<in> pre_votes N \<Longrightarrow> q \<in> set rs" "(q, a, D) \<in> pre_votes N \<Longrightarrow> cmd_of (reps N q) a \<noteq> None"
    using conjunct1 [OF *] by blast+
  show "(q, a, Da) \<in> pre_votes N \<Longrightarrow> (q, b, Db) \<in> pre_votes N \<Longrightarrow> a \<noteq> b \<Longrightarrow>
      cmd_of (reps N q) a = Some ca \<Longrightarrow> cmd_of (reps N q) b = Some cb \<Longrightarrow> ifr ca cb \<Longrightarrow> b \<in> Da \<or> a \<in> Db"
    using conjunct1 [OF conjunct2 [OF *]] by blast
  note * = conjunct2 [OF conjunct2 [OF *]]
  show "toks N a q \<le> 1" using conjunct1 [OF *] by blast
  show "(f, t, PreAcceptReply i b' s d) \<in># flight N \<Longrightarrow> (f, i, d) \<in> pre_votes N"
    "(f, t, PreAcceptReply i b' s d) \<in># flight N \<Longrightarrow> f \<noteq> ins_replica i"
    using conjunct1 [OF conjunct2 [OF *]] by blast+
  note * = conjunct2 [OF conjunct2 [OF *]]
  show "(f, t, PreAccept i b' c' s d) \<in># flight N \<Longrightarrow> t \<noteq> ins_replica i" using conjunct1 [OF *] by blast
  show "(i, q) \<in> counted N \<Longrightarrow> q \<noteq> ins_replica i" "(i, q) \<in> counted N \<Longrightarrow> \<exists>d. (q, i, d) \<in> pre_votes N"
    using conjunct1 [OF conjunct2 [OF *]] by blast+
  note * = conjunct2 [OF conjunct2 [OF *]]
  show "t \<in> set rs \<Longrightarrow> bt_get (collects (reps N t)) a = Some cl \<Longrightarrow> coll_ok rs N a cl" using conjunct1 [OF *] by blast
  show "ins_replica a \<in> set rs \<Longrightarrow> com (reps N (ins_replica a)) a = Some (x, y, D) \<Longrightarrow> backed rs N a D"
    using conjunct2 [OF *] by blast
qed

lemma counted_of_finite:
  assumes "ord_inv rs ifr N"
  shows "finite (counted_of N a)" "counted_of N a \<subseteq> set rs - {ins_replica a}"
proof -
  show s: "counted_of N a \<subseteq> set rs - {ins_replica a}"
    using ord_invD(1,8,9) [OF assms] unfolding counted_of_def by blast
  show "finite (counted_of N a)" by (rule finite_subset [OF s]) simp
qed

lemma open_okD:
  assumes "open_ok N a c"
  shows "co_replies c \<le> card (insert (ins_replica a) (counted_of N a))"
    "(ins_replica a, a, co_init_deps c) \<in> pre_votes N" "co_init_deps c \<subseteq> co_union_deps c"
    "q \<in> counted_of N a \<Longrightarrow> \<exists>D \<subseteq> co_union_deps c. (q, a, D) \<in> pre_votes N"
    "co_agreed c \<le> card {q \<in> insert (ins_replica a) (counted_of N a). (q, a, co_init_deps c) \<in> pre_votes N}"
  using assms unfolding open_ok_def by simp_all

lemma open_ok_mono:
  assumes "open_ok N a c" "pre_votes N \<subseteq> pre_votes N'" "counted_of N' a = counted_of N a" "finite (counted_of N a)"
  shows "open_ok N' a c"
proof -
  have "card {q \<in> insert (ins_replica a) (counted_of N a). (q, a, co_init_deps c) \<in> pre_votes N}
      \<le> card {q \<in> insert (ins_replica a) (counted_of N a). (q, a, co_init_deps c) \<in> pre_votes N'}"
    by (rule card_mono) (use assms in auto)
  moreover have "\<exists>D \<subseteq> co_union_deps c. (q, a, D) \<in> pre_votes N'" if "q \<in> counted_of N a" for q
    using that assms(1,2) unfolding open_ok_def by blast
  ultimately show ?thesis using assms(1,2) unfolding open_ok_def assms(3)
    by (intro conjI ballI) (auto intro: order_trans)
qed

lemma coll_ok_mono:
  assumes "coll_ok rs N a c" "pre_votes N \<subseteq> pre_votes N'" "counted_of N' a = counted_of N a" "finite (counted_of N a)"
  shows "coll_ok rs N' a c"
  using assms(1) backed_mono [OF _ assms(2)] open_ok_mono [OF _ assms(2-4)] unfolding coll_ok_def
  by (simp split: if_splits)

text \<open>Counting the answer of \<open>f\<close>.\<close>

lemma open_ok_tally:
  assumes ok: "open_ok N a c" and fin: "finite (counted_of N a)"
    and f: "f \<notin> counted_of N a" "f \<noteq> ins_replica a" "(f, a, d) \<in> pre_votes N"
    and N': "pre_votes N \<subseteq> pre_votes N'" "counted_of N' a = insert f (counted_of N a)"
  shows "open_ok N' a (tally s d c)"
proof -
  let ?L = "ins_replica a" and ?C = "counted_of N a"
  have 1: "card (insert ?L (insert f ?C)) = Suc (card (insert ?L ?C))"
  proof -
    have "insert ?L (insert f ?C) = insert f (insert ?L ?C)" by blast
    then show ?thesis using f fin by simp
  qed
  let ?A = "{q \<in> insert ?L ?C. (q, a, co_init_deps c) \<in> pre_votes N}"
  let ?A' = "{q \<in> insert ?L (insert f ?C). (q, a, co_init_deps c) \<in> pre_votes N'}"
  have fin': "finite ?A" "finite ?A'" using fin by auto
  have agreed: "co_agreed (tally s d c) \<le> card ?A'"
  proof (cases "s = co_init_seq c \<and> d = co_init_deps c")
    case True
    have "insert f ?A \<subseteq> ?A'" using True f(3) N'(1) by auto
    then have "card (insert f ?A) \<le> card ?A'" by (rule card_mono [OF fin'(2)])
    moreover have "card (insert f ?A) = Suc (card ?A)" using f fin'(1) by simp
    ultimately show ?thesis using ok True by (simp add: open_ok_def tally_def)
  next
    case False
    have "card ?A \<le> card ?A'" by (rule card_mono [OF fin'(2)]) (use N'(1) in auto)
    then show ?thesis using ok False by (auto simp: open_ok_def tally_def)
  qed
  have "\<exists>D \<subseteq> co_union_deps c \<union> d. (q, a, D) \<in> pre_votes N'" if "q \<in> insert f ?C" for q
  proof (cases "q = f")
    case True
    then show ?thesis using f(3) N'(1) by (intro exI [of _ d]) auto
  next
    case False
    then obtain D where "D \<subseteq> co_union_deps c" "(q, a, D) \<in> pre_votes N"
      using open_okD(4) [OF ok, of q] \<open>q \<in> insert f ?C\<close> by auto
    then show ?thesis using N'(1) by (intro exI [of _ D]) auto
  qed
  moreover have "co_replies (tally s d c) \<le> card (insert ?L (insert f ?C))"
    using ok 1 by (simp add: open_ok_def tally_def)
  moreover have "(?L, a, co_init_deps c) \<in> pre_votes N'" "co_init_deps c \<subseteq> co_union_deps c \<union> d"
    using ok N'(1) unfolding open_ok_def by auto
  ultimately show ?thesis using agreed unfolding open_ok_def N'(2) by (simp add: tally_def)
qed

lemma open_ok_fast:
  assumes ok: "open_ok N a c" and rs: "ins_replica a \<in> set rs" "counted_of N a \<subseteq> set rs"
    and q: "fq rs \<le> co_agreed c"
  shows "backed rs N a (co_init_deps c)"
  unfolding backed_def
proof (intro exI conjI)
  let ?Q = "{q \<in> insert (ins_replica a) (counted_of N a). (q, a, co_init_deps c) \<in> pre_votes N}"
  show "?Q \<subseteq> set rs" using rs by auto
  show "fq rs \<le> card ?Q" using ok q by (simp add: open_ok_def)
  show "\<forall>q \<in> ?Q. \<exists>Dq \<subseteq> co_init_deps c. (q, a, Dq) \<in> pre_votes N" by auto
qed

lemma open_ok_slow:
  assumes ok: "open_ok N a c" and rs: "ins_replica a \<in> set rs" "counted_of N a \<subseteq> set rs"
    and q: "fq rs \<le> co_replies c"
  shows "backed rs N a (co_union_deps c)"
  unfolding backed_def
proof (intro exI conjI)
  let ?Q = "insert (ins_replica a) (counted_of N a)"
  show "?Q \<subseteq> set rs" using rs by auto
  show "fq rs \<le> card ?Q" using ok q by (simp add: open_ok_def)
  show "\<forall>q \<in> ?Q. \<exists>Dq \<subseteq> co_union_deps c. (q, a, Dq) \<in> pre_votes N"
    using open_okD(2-4) [OF ok] by auto
qed

section \<open>Two backed interfering instances\<close>

lemma backed_ordered:
  assumes inv: "ep_inv rs N" "ord_inv rs ifr N" and q: "length (sort_dedup rs) < 2 * fq rs"
    and a: "backed rs N a Da" "cmd_of (reps N (ins_replica a)) a = Some ca"
    and b: "backed rs N b Db" "cmd_of (reps N (ins_replica b)) b = Some cb"
    and ab: "a \<noteq> b" "ifr ca cb"
  shows "b \<in> Da \<or> a \<in> Db"
proof -
  obtain Qa where Qa: "Qa \<subseteq> set rs" "fq rs \<le> card Qa" "\<And>q. q \<in> Qa \<Longrightarrow> \<exists>D \<subseteq> Da. (q, a, D) \<in> pre_votes N"
    using a(1) unfolding backed_def by blast
  obtain Qb where Qb: "Qb \<subseteq> set rs" "fq rs \<le> card Qb" "\<And>q. q \<in> Qb \<Longrightarrow> \<exists>D \<subseteq> Db. (q, b, D) \<in> pre_votes N"
    using b(1) unfolding backed_def by blast
  have card_rs: "card (set rs) = length (sort_dedup rs)"
    using distinct_card [of "sort_dedup rs"] by simp
  have fin: "finite Qa" "finite Qb" using Qa(1) Qb(1) by (auto intro: finite_subset)
  have "Qa \<inter> Qb \<noteq> {}"
  proof
    assume "Qa \<inter> Qb = {}"
    then have "card (Qa \<union> Qb) = card Qa + card Qb" using fin by (simp add: card_Un_disjoint)
    moreover have "card (Qa \<union> Qb) \<le> card (set rs)" by (rule card_mono) (use Qa(1) Qb(1) in auto)
    ultimately show False using Qa(2) Qb(2) q card_rs by simp
  qed
  then obtain r where r: "r \<in> Qa" "r \<in> Qb" by blast
  then obtain D E where DE: "D \<subseteq> Da" "(r, a, D) \<in> pre_votes N" "E \<subseteq> Db" "(r, b, E) \<in> pre_votes N"
    using Qa(3) Qb(3) by meson
  have rrs: "r \<in> set rs" using r(1) Qa(1) by blast
  note I = rep_invD(8) [OF ep_invD(1) [OF inv(1) rrs]]
  obtain ca' cb' where c: "cmd_of (reps N r) a = Some ca'" "cmd_of (reps N r) b = Some cb'"
    using ord_invD(2) [OF inv(2) DE(2)] ord_invD(2) [OF inv(2) DE(4)] by auto
  then have "ca' = ca" "cb' = cb" using I [of a ca'] I [of b cb'] a(2) b(2) by simp_all
  then have "b \<in> D \<or> a \<in> E" using ord_invD(3) [OF inv(2) DE(2,4) ab(1) c] ab(2) by simp
  then show ?thesis using DE(1,3) by blast
qed


section \<open>Every step keeps the answers consistent\<close>

lemma ord_step:
  assumes inv: "ep_inv rs N" and ord: "ord_inv rs ifr N" and t: "t \<in> set rs"
    and R: "reps N' = (reps N)(t := r')" and g: "\<And>u. grows (reps N u) (reps N' u)"
    and V: "pre_votes N' = pre_votes N \<union> V" and C: "counted N' = counted N \<union> C"
    and V1: "\<And>q a D. (q, a, D) \<in> V \<Longrightarrow> q = t \<and> cmd_of r' a \<noteq> None"
    and V2: "\<And>a D b Db ca cb. (t, a, D) \<in> V \<Longrightarrow> (t, b, Db) \<in> pre_votes N \<Longrightarrow> a \<noteq> b \<Longrightarrow> cmd_of r' a = Some ca \<Longrightarrow>
      cmd_of (reps N t) b = Some cb \<Longrightarrow> ifr ca cb \<or> ifr cb ca \<Longrightarrow> b \<in> D"
    and V3: "\<And>q a D q' b E. (q, a, D) \<in> V \<Longrightarrow> (q', b, E) \<in> V \<Longrightarrow> a = b"
    and T: "\<And>a q. toks N' a q \<le> 1"
    and P: "\<And>f u i b s d. (f, u, PreAcceptReply i b s d) \<in># flight N' \<Longrightarrow>
      (f, u, PreAcceptReply i b s d) \<in># flight N \<or> (f, i, d) \<in> V \<and> f \<noteq> ins_replica i"
      "\<And>f u i b c s d. (f, u, PreAccept i b c s d) \<in># flight N' \<Longrightarrow>
      (f, u, PreAccept i b c s d) \<in># flight N \<or> u \<noteq> ins_replica i"
    and C1: "\<And>i q. (i, q) \<in> C \<Longrightarrow> ins_replica i = t \<and> q \<noteq> t \<and> (\<exists>d. (q, i, d) \<in> pre_votes N)"
    and L: "\<And>a c. bt_get (collects r') a = Some c \<Longrightarrow> coll_ok rs N' a c"
    and B: "\<And>a c s D. ins_replica a = t \<Longrightarrow> com r' a = Some (c, s, D) \<Longrightarrow>
      com (reps N t) a = Some (c, s, D) \<or> backed rs N' a D"
  shows "ord_inv rs ifr N'"
proof -
  note O = ord_invD [OF ord]
  have cmd_old: "cmd_of (reps N' q) a = cmd_of (reps N q) a" if qa: "(q, a, D) \<in> pre_votes N" for q a D
  proof -
    obtain c where "cmd_of (reps N q) a = Some c" using O(2) [OF qa] by auto
    with growsD(4) [OF g] show ?thesis by simp
  qed
  have sub: "pre_votes N \<subseteq> pre_votes N'" using V by blast
  have c1: "q \<in> set rs \<and> cmd_of (reps N' q) a \<noteq> None" if "(q, a, D) \<in> pre_votes N'" for q a D
  proof (cases "(q, a, D) \<in> pre_votes N")
    case True
    then show ?thesis using O(1,2) [OF True] cmd_old [OF True] by simp
  next
    case False
    then show ?thesis using that V V1 [of q a D] t R by auto
  qed
  have c2: "b \<in> Da \<or> a \<in> Db"
    if ab: "(q, a, Da) \<in> pre_votes N'" "(q, b, Db) \<in> pre_votes N'" "a \<noteq> b" "cmd_of (reps N' q) a = Some ca"
      "cmd_of (reps N' q) b = Some cb" "ifr ca cb" for q a b Da Db ca cb
  proof -
    consider "(q, a, Da) \<in> pre_votes N" "(q, b, Db) \<in> pre_votes N" | "(q, a, Da) \<in> V" "(q, b, Db) \<in> pre_votes N"
      | "(q, a, Da) \<in> pre_votes N" "(q, b, Db) \<in> V" | "(q, a, Da) \<in> V" "(q, b, Db) \<in> V"
      using ab(1,2) V by blast
    then show ?thesis
    proof cases
      case 1
      then show ?thesis using O(3) [OF 1 ab(3) _ _ ab(6)] cmd_old [OF 1(1)] cmd_old [OF 1(2)] ab(4,5) by metis
    next
      case 2
      then have "q = t" using V1 by blast
      then show ?thesis using V2 [of a Da b Db ca cb] 2 ab R cmd_old [OF 2(2)] by simp
    next
      case 3
      then have "q = t" using V1 by blast
      then show ?thesis using V2 [of b Db a Da cb ca] 3 ab R cmd_old [OF 3(1)] by simp
    next
      case 4
      then show ?thesis using V3 ab(3) by blast
    qed
  qed
  have c5: "coll_ok rs N' a c" if u: "u \<in> set rs" "bt_get (collects (reps N' u)) a = Some c" for u a c
  proof (cases "u = t")
    case True
    then show ?thesis using L u R by simp
  next
    case False
    then have b: "bt_get (collects (reps N u)) a = Some c" using u R by simp
    note I = rep_invD [OF ep_invD(1) [OF inv u(1)]]
    have "ins_replica a \<noteq> t" using collect_invD(1) [OF I(4) b] I(1) False by simp
    then have "counted_of N' a = counted_of N a" using C C1 by (auto simp: counted_of_def)
    then show ?thesis
      using coll_ok_mono [OF O(10) [OF u(1) b] sub] counted_of_finite(1) [OF ord] by blast
  qed
  have c6: "backed rs N' a D" if u: "ins_replica a \<in> set rs" "com (reps N' (ins_replica a)) a = Some (c, s, D)" for a c s D
  proof (cases "com (reps N (ins_replica a)) a = Some (c, s, D)")
    case True
    show ?thesis by (rule backed_mono [OF O(11) [OF u(1) True] sub])
  next
    case False
    then have "ins_replica a = t" using u(2) R by (cases "ins_replica a = t") simp_all
    then show ?thesis using B [of a c s D] False u(2) R by simp
  qed
  have c3: "(f, i, d) \<in> pre_votes N' \<and> f \<noteq> ins_replica i" if "(f, u, PreAcceptReply i b s d) \<in># flight N'" for f u i b s d
    using P(1) [OF that] O(5,6) [of f u i b s d] V by blast
  have c3': "u \<noteq> ins_replica i" if "(f, u, PreAccept i b c s d) \<in># flight N'" for f u i b c s d
    using P(2) [OF that] O(7) [of f u i b c s d] by blast
  have c4: "q \<noteq> ins_replica i \<and> (\<exists>d. (q, i, d) \<in> pre_votes N')" if "(i, q) \<in> counted N'" for i q
    using that O(8,9) [of i q] C1 [of i q] C sub by blast
  show ?thesis unfolding ord_inv_def
  proof (intro conjI)
    show "\<forall>q a D. (q, a, D) \<in> pre_votes N' \<longrightarrow> q \<in> set rs \<and> cmd_of (reps N' q) a \<noteq> None" using c1 by blast
    show "\<forall>q a b Da Db ca cb. (q, a, Da) \<in> pre_votes N' \<longrightarrow> (q, b, Db) \<in> pre_votes N' \<longrightarrow> a \<noteq> b \<longrightarrow>
        cmd_of (reps N' q) a = Some ca \<longrightarrow> cmd_of (reps N' q) b = Some cb \<longrightarrow> ifr ca cb \<longrightarrow> b \<in> Da \<or> a \<in> Db"
      using c2 by blast
    show "\<forall>a q. toks N' a q \<le> 1" using T by blast
    show "\<forall>f t i b s d. (f, t, PreAcceptReply i b s d) \<in># flight N' \<longrightarrow> (f, i, d) \<in> pre_votes N' \<and> f \<noteq> ins_replica i"
      using c3 by blast
    show "\<forall>f t i b c s d. (f, t, PreAccept i b c s d) \<in># flight N' \<longrightarrow> t \<noteq> ins_replica i" using c3' by blast
    show "\<forall>i q. (i, q) \<in> counted N' \<longrightarrow> q \<noteq> ins_replica i \<and> (\<exists>d. (q, i, d) \<in> pre_votes N')" using c4 by blast
    show "\<forall>t \<in> set rs. \<forall>a c. bt_get (collects (reps N' t)) a = Some c \<longrightarrow> coll_ok rs N' a c" using c5 by blast
    show "\<forall>a c s D. ins_replica a \<in> set rs \<longrightarrow> com (reps N' (ins_replica a)) a = Some (c, s, D) \<longrightarrow> backed rs N' a D"
      using c6 by blast
  qed
qed

subsection \<open>At most one answer per replica\<close>

lemma tok_deliver:
  assumes "p \<in># M"
  shows "size (filter_mset P (M - {#p#} + S)) + of_bool (P p) = size (filter_mset P M) + size (filter_mset P S)"
proof -
  obtain M' where "M = add_mset p M'" using assms by (metis mset_add)
  then show ?thesis by simp
qed

lemma tok_sent_none:
  assumes "\<And>u m. (u, m) \<in> set outs \<Longrightarrow> \<not> is_tok a q (t, u, m)"
  shows "size (filter_mset (is_tok a q) (sent t outs)) = 0"
  using assms by (auto simp: sent_def)

lemma tok_sent_preaccepts:
  assumes "distinct ps"
  shows "size (filter_mset (is_tok a q) (sent t (map (\<lambda>p. (p, PreAccept i b c s d)) ps))) = of_bool (i = a \<and> q \<in> set ps)"
  using assms by (induction ps) (auto simp: sent_def)

lemma toks_unchanged:
  assumes "p \<in># flight N" "flight N' = flight N - {#p#} + sent t outs" "counted N' = counted N" "toks N a q \<le> 1"
    "size (filter_mset (is_tok a q) (sent t outs)) \<le> of_bool (is_tok a q p)"
  shows "toks N' a q \<le> 1"
  using assms tok_deliver [OF assms(1), of "is_tok a q" "sent t outs"] by (simp add: toks_def)

lemma tok_in_flight: "p \<in># flight N \<Longrightarrow> is_tok a q p \<Longrightarrow> 0 < size (filter_mset (is_tok a q) (flight N))"
  by (metis filter_mset_eq_mempty_iff nonempty_has_size)

lemma tok_known:
  assumes inv: "ep_inv rs N" and ord: "ord_inv rs ifr N" and k: "0 < toks N a q"
  shows "cmd_of (reps N (ins_replica a)) a \<noteq> None"
proof -
  note O = ord_invD [OF ord]
  have vote: "cmd_of (reps N (ins_replica a)) a \<noteq> None" if "(u, a, d) \<in> pre_votes N" for u d
    using rep_invD(8) [OF ep_invD(1) [OF inv O(1) [OF that]]] O(2) [OF that] by auto
  show ?thesis
  proof (cases "(a, q) \<in> counted N")
    case True
    then show ?thesis using O(9) vote by blast
  next
    case False
    then have "0 < size (filter_mset (is_tok a q) (flight N))" using k by (simp add: toks_def)
    then obtain p where "p \<in># filter_mset (is_tok a q) (flight N)"
      by (metis multiset_nonemptyE nonempty_has_size)
    then have p: "p \<in># flight N" "is_tok a q p" by simp_all
    obtain f u m where fum: "p = (f, u, m)" by (cases p)
    show ?thesis
    proof (cases m)
      case (PreAccept i b c s d)
      then show ?thesis using p fum ep_invD(4) [OF inv, of f u m] by auto
    next
      case (PreAcceptReply i b s d)
      then show ?thesis using p fum O(5) [of f u i b s d] vote by auto
    qed (use p fum in auto)
  qed
qed

subsection \<open>The steps\<close>

lemma answer_names_known:
  assumes ok: "rep_ok r" and b: "cmd_of r b = Some cb" "b \<noteq> i"
    and ifr: "\<And>s x y. ep_interferes SM s x y = ifr x y" "ifr c cb"
  shows "b \<in> snd (deps_and_seq SM r c i)"
proof -
  obtain st where "bt_get (cmds r) b = Some st" "is_command st = cb" using b(1) by (auto simp: cmd_of_def)
  then show ?thesis using b(2) ifr bt_mem_iff [OF rep_okD(4) [OF ok], of b st] by (auto simp: deps_and_seq_deps)
qed

text \<open>
  What a client's \<open>interferes\<close> must be: a symmetric relation on commands that does not depend
  on the state.
\<close>

lemma leader_commit_com:
  assumes ok: "rep_ok r" and c: "bt_get (collects r) i = Some c"
  shows "com (commit_exec SM i x y (co_union_deps c) (r\<lparr>collects := bt_remove i (bt_insert i z (collects r))\<rparr>)) a =
      (if a = i \<and> status_of (cmds r) i \<noteq> Some Executed then Some (x, y, co_union_deps c) else com r a)"
    and "com (commit_exec SM i x y (co_init_deps c) (r\<lparr>collects := bt_remove i (bt_insert i z (collects r))\<rparr>)) a =
      (if a = i \<and> status_of (cmds r) i \<noteq> Some Executed then Some (x, y, co_init_deps c) else com r a)"
proof -
  let ?r1 = "r\<lparr>collects := bt_remove i (bt_insert i z (collects r))\<rparr>"
  have fin: "finite (co_union_deps c)" "finite (co_init_deps c)"
    using rep_okD(3) [OF ok] c by (auto simp: collects_ok_def)
  have ok1: "rep_ok ?r1"
    by (rule rep_ok_collects [OF ok]) (use rep_okD(3) [OF ok] in \<open>auto simp: collects_ok_def split: if_splits\<close>)
  show "com (commit_exec SM i x y (co_union_deps c) ?r1) a =
      (if a = i \<and> status_of (cmds r) i \<noteq> Some Executed then Some (x, y, co_union_deps c) else com r a)"
    "com (commit_exec SM i x y (co_init_deps c) ?r1) a =
      (if a = i \<and> status_of (cmds r) i \<noteq> Some Executed then Some (x, y, co_init_deps c) else com r a)"
    using com_commit_exec [OF ok1 fin(1), of SM i x y a] com_commit_exec [OF ok1 fin(2), of SM i x y a] by simp_all
qed

locale interference =
  fixes SM :: "'s ep_state_machine" and ifr :: "bytes \<Rightarrow> bytes \<Rightarrow> bool"
  assumes interferes: "ep_interferes SM s x y = ifr x y" and ifr_sym: "ifr x y = ifr y x"
begin

lemma vote_consistent:
  assumes inv: "ep_inv rs N" and ord: "ord_inv rs ifr N" and t: "t \<in> set rs"
    and b: "(t, b, Db) \<in> pre_votes N" "cmd_of (reps N t) b = Some cb" "a \<noteq> b" "ifr ca cb \<or> ifr cb ca"
  shows "b \<in> snd (deps_and_seq SM (reps N t) ca a)"
proof -
  have "ifr ca cb" using b(4) ifr_sym by blast
  then show ?thesis
    using answer_names_known [OF rep_invD(3) [OF ep_invD(1) [OF inv t]] b(2), of a SM ifr ca] b(3) interferes by metis
qed

lemma propose_ord:
  assumes inv: "ep_inv rs N" and ord: "ord_inv rs ifr N" and t: "t \<in> set rs"
    and p: "ep_propose SM c (reps N t) = (r', outs)"
    and g: "\<And>u. grows (reps N u) (reps N' u)"
    and N': "reps N' = (reps N)(t := r')" "flight N' = flight N + sent t outs"
      "pre_votes N' = pre_votes N \<union> lead_vote SM c (reps N t)" "counted N' = counted N"
  shows "ord_inv rs ifr N'"
proof -
  let ?r = "reps N t"
  let ?i = "Instance t (next_slot ?r)"
  note I = rep_invD [OF ep_invD(1) [OF inv t(1)]]
  note O = ord_invD [OF ord]
  obtain sq deps where sd: "deps_and_seq SM ?r c ?i = (sq, deps)" by (cases "deps_and_seq SM ?r c ?i")
  define col where "col = \<lparr>co_command = c, co_init_seq = sq, co_init_deps = deps, co_replies = 1,
      co_agreed = 1, co_union_seq = sq, co_union_deps = deps, co_accepting = False, co_accept_oks = 1\<rparr>"
  have r': "r' = (record_inst ?i c sq deps PreAccepted 0 (?r\<lparr>next_slot := next_slot ?r + 1\<rparr>))
        \<lparr>collects := bt_insert ?i col (collects ?r)\<rparr>"
    "outs = map (\<lambda>p. (p, PreAccept ?i 0 c sq deps)) (ep_peers ?r)"
    using p sd I(1) by (auto simp: ep_propose_def Let_def col_def ep_peers_def)
  have fresh: "cmd_of ?r ?i = None" using I(7) [of ?i] by (cases "cmd_of ?r ?i") auto
  have cmd_i: "cmd_of r' ?i = Some c" using fresh by (simp add: r' record_inst_get cmd_of_def)
  have com_eq: "com r' = com ?r" by (intro ext) (simp add: r' com_record_inst)
  have V: "lead_vote SM c ?r = {(t, ?i, deps)}" using I(1) sd by (simp add: lead_vote_def Let_def)
  have none: "toks N ?i q = 0" for q using tok_known [OF inv ord, of ?i q] fresh by fastforce
  then have cnt: "counted_of N' ?i = {}" using N'(4) by (auto simp: counted_of_def toks_def)
  have peers: "distinct (ep_peers ?r)" "set (ep_peers ?r) = set rs - {t}"
    using I(1,2) by (auto simp: ep_peers_def)
  show ?thesis
  proof (rule ord_step [OF inv ord t N'(1) g, of "{(t, ?i, deps)}" "{}"])
    show "pre_votes N' = pre_votes N \<union> {(t, ?i, deps)}" "counted N' = counted N \<union> {}" using N' V by simp_all
    show "q = t \<and> cmd_of r' a \<noteq> None" if "(q, a, D) \<in> {(t, ?i, deps)}" for q a D using that cmd_i by simp
    show "b \<in> D" if "(t, a, D) \<in> {(t, ?i, deps)}" "(t, b, Db) \<in> pre_votes N" "a \<noteq> b" "cmd_of r' a = Some ca"
        "cmd_of ?r b = Some cb" "ifr ca cb \<or> ifr cb ca" for a D b Db ca cb
      using that cmd_i vote_consistent [OF inv ord t that(2,5,3,6)] sd by auto
    show "toks N' a q \<le> 1" for a q
    proof -
      have "toks N' a q = toks N a q + size (filter_mset (is_tok a q) (sent t outs))"
        by (simp add: toks_def N'(2,4) del: filter_mset_eq_mempty_iff)
      also have "\<dots> = toks N a q + of_bool (?i = a \<and> q \<in> set (ep_peers ?r))"
        unfolding r'(2) tok_sent_preaccepts [OF peers(1)] ..
      finally show ?thesis using O(4) [of a q] none [of q] by (cases "?i = a") auto
    qed
    show "coll_ok rs N' a y" if "bt_get (collects r') a = Some y" for a y
    proof (cases "a = ?i")
      case True
      then have "y = col" using that by (simp add: r')
      moreover have "{q \<in> insert t {}. (q, ?i, deps) \<in> pre_votes N'} = {t}" using N'(3) V by auto
      ultimately show ?thesis using True cnt N'(3) V by (simp add: coll_ok_def open_ok_def col_def)
    next
      case False
      then have "bt_get (collects ?r) a = Some y" using that by (simp add: r')
      from coll_ok_mono [OF O(10) [OF t this]] show ?thesis
        using N' counted_of_finite(1) [OF ord] by (auto simp: counted_of_def)
    qed
    show "(f, u, PreAcceptReply i b s d) \<in># flight N \<or> (f, i, d) \<in> {(t, ?i, deps)} \<and> f \<noteq> ins_replica i"
      if "(f, u, PreAcceptReply i b s d) \<in># flight N'" for f u i b s d
      using that by (auto simp: N'(2) r'(2) sent_def)
    show "(f, u, PreAccept i b c' s d) \<in># flight N \<or> u \<noteq> ins_replica i"
      if "(f, u, PreAccept i b c' s d) \<in># flight N'" for f u i b c' s d
    proof -
      from that have "(f, u, PreAccept i b c' s d) \<in># flight N \<or> u \<in> set (ep_peers ?r) \<and> i = ?i"
        by (auto simp: N'(2) r'(2) sent_def)
      then show ?thesis
      proof
        assume u: "u \<in> set (ep_peers ?r) \<and> i = ?i"
        then have "u \<noteq> t" using peers(2) by blast
        then show ?thesis using u by simp
      qed blast
    qed
  qed (simp_all add: com_eq)
qed

lemma deliver_quiet:
  assumes inv: "ep_inv rs N" and ord: "ord_inv rs ifr N" and p: "p \<in># flight N" and t: "t \<in> set rs"
    and g: "\<And>u. grows (reps N u) (reps N' u)"
    and N': "reps N' = (reps N)(t := r')" "flight N' = flight N - {#p#} + sent t outs"
      "pre_votes N' = pre_votes N" "counted N' = counted N"
    and outs: "\<And>u m. (u, m) \<in> set outs \<Longrightarrow>
      (\<forall>i b c s d. m \<noteq> PreAccept i b c s d) \<and> (\<forall>i b s d. m \<noteq> PreAcceptReply i b s d)"
    and col: "\<And>a c. bt_get (collects r') a = Some c \<Longrightarrow> bt_get (collects (reps N t)) a = Some c \<or> coll_ok rs N a c"
    and com: "\<And>a c s D. ins_replica a = t \<Longrightarrow> com r' a = Some (c, s, D) \<Longrightarrow>
      com (reps N t) a = Some (c, s, D) \<or> backed rs N a D"
  shows "ord_inv rs ifr N'"
proof (rule ord_step [OF inv ord t N'(1) g, of "{}" "{}"])
  note O = ord_invD [OF ord]
  have tok: "\<not> is_tok a q (t, u, m)" if "(u, m) \<in> set outs" for a q u m
    using outs [OF that] by (cases m) auto
  show "toks N' a q \<le> 1" for a q
    by (rule toks_unchanged [OF p N'(2,4) O(4)]) (simp add: tok_sent_none [OF tok])
  show "coll_ok rs N' a c" if "bt_get (collects r') a = Some c" for a c
  proof -
    have "coll_ok rs N a c" using col [OF that] O(10) [OF t] by blast
    then show ?thesis by (rule coll_ok_mono)
      (use N' counted_of_finite(1) [OF ord] in \<open>auto simp: counted_of_def\<close>)
  qed
  show "com (reps N t) a = Some (c, s, D) \<or> backed rs N' a D" if "ins_replica a = t" "com r' a = Some (c, s, D)" for a c s D
    using com [OF that] backed_mono [of rs N a D N'] N'(3) by auto
  have split: "q \<in># flight N \<or> (fst (snd q), snd (snd q)) \<in> set outs" if "q \<in># flight N'" for q
    using that by (auto simp: N'(2) sent_def dest: in_diffD)
  show "(f, u, PreAcceptReply i b s d) \<in># flight N \<or> (f, i, d) \<in> {} \<and> f \<noteq> ins_replica i"
    if "(f, u, PreAcceptReply i b s d) \<in># flight N'" for f u i b s d
    using split [OF that] outs [of u "PreAcceptReply i b s d"] by auto
  show "(f, u, PreAccept i b c s d) \<in># flight N \<or> u \<noteq> ins_replica i"
    if "(f, u, PreAccept i b c s d) \<in># flight N'" for f u i b c s d
    using split [OF that] outs [of u "PreAccept i b c s d"] by auto
qed (use N' in auto)

lemma reply_ord:
  assumes inv: "ep_inv rs N" and ord: "ord_inv rs ifr N" and p: "(f, t, PreAcceptReply i b s d) \<in># flight N"
    and g: "\<And>u. grows (reps N u) (reps N' u)"
    and N': "reps N' = (reps N)(t := r')" "flight N' = flight N - {#(f, t, PreAcceptReply i b s d)#} + sent t outs"
      "pre_votes N' = pre_votes N" "counted N' = counted N \<union> {(i, f)}"
    and outs: "\<And>u m. (u, m) \<in> set outs \<Longrightarrow>
      (\<forall>i b c s d. m \<noteq> PreAccept i b c s d) \<and> (\<forall>i b s d. m \<noteq> PreAcceptReply i b s d)"
    and col: "\<And>a. a \<noteq> i \<Longrightarrow> bt_get (collects r') a = bt_get (collects (reps N t)) a"
      "\<And>c. bt_get (collects r') i = Some c \<Longrightarrow> coll_ok rs N' i c"
    and com: "\<And>a c s D. com r' a = Some (c, s, D) \<Longrightarrow> com (reps N t) a = Some (c, s, D) \<or> backed rs N' a D"
  shows "ord_inv rs ifr N'"
proof (rule ord_step [OF inv ord _ N'(1) g, of "{}" "{(i, f)}"])
  note ft = ep_invD(2,3) [OF inv p] and mi = ep_invD(4) [OF inv p]
  note O = ord_invD [OF ord]
  have ti: "t = ins_replica i" using mi by simp
  show "t \<in> set rs" by (rule ft(2))
  have tok: "\<not> is_tok a q (t, u, m)" if "(u, m) \<in> set outs" for a q u m
    using outs [OF that] by (cases m) auto
  have nf: "(i, f) \<notin> counted N"
    using tok_in_flight [OF p, of i f] O(4) [of i f] by (auto simp: toks_def simp del: filter_mset_eq_mempty_iff)
  show "toks N' a q \<le> 1" for a q
  proof -
    have "size (filter_mset (is_tok a q) (flight N')) + of_bool (a = i \<and> q = f)
        = size (filter_mset (is_tok a q) (flight N))"
      using tok_deliver [OF p, of "is_tok a q" "sent t outs"] tok_sent_none [OF tok] unfolding N'(2)
      by (auto simp del: filter_mset_eq_mempty_iff)
    then show ?thesis using O(4) [of a q] nf unfolding toks_def N'(4) by (auto simp del: filter_mset_eq_mempty_iff)
  qed
  have split: "q \<in># flight N \<or> (fst (snd q), snd (snd q)) \<in> set outs" if "q \<in># flight N'" for q
    using that by (auto simp: N'(2) sent_def dest: in_diffD)
  show "(f', u, PreAcceptReply i b s d) \<in># flight N \<or> (f', i, d) \<in> {} \<and> f' \<noteq> ins_replica i"
    if "(f', u, PreAcceptReply i b s d) \<in># flight N'" for f' u i b s d
    using split [OF that] outs [of u "PreAcceptReply i b s d"] by auto
  show "(f', u, PreAccept i b c s d) \<in># flight N \<or> u \<noteq> ins_replica i"
    if "(f', u, PreAccept i b c s d) \<in># flight N'" for f' u i b c s d
    using split [OF that] outs [of u "PreAccept i b c s d"] by auto
  show "ins_replica j = t \<and> q \<noteq> t \<and> (\<exists>d. (q, j, d) \<in> pre_votes N)" if "(j, q) \<in> {(i, f)}" for j q
    using that ti O(5,6) [OF p] by auto
  show "coll_ok rs N' a c" if "bt_get (collects r') a = Some c" for a c
  proof (cases "a = i")
    case False
    then have "bt_get (collects (reps N t)) a = Some c" using that col(1) by simp
    note c = O(10) [OF ft(2) this]
    show ?thesis
      by (rule coll_ok_mono [OF c _ _ counted_of_finite(1) [OF ord]])
         (use N'(3,4) False in \<open>auto simp: counted_of_def\<close>)
  qed (use that col(2) in simp)
  show "com (reps N t) a = Some (c, s, D) \<or> backed rs N' a D" if "com r' a = Some (c, s, D)" for a c s D
    by (rule com [OF that])
qed (use N'(3,4) in auto)

lemma deliver_ord:
  assumes inv: "ep_inv rs N" and ord: "ord_inv rs ifr N" and p: "(f, t, m) \<in># flight N"
    and h: "ep_on_message SM f m (reps N t) = Some (r', outs)"
    and g: "\<And>u. grows (reps N u) (reps N' u)"
    and N': "reps N' = (reps N)(t := r')" "flight N' = flight N - {#(f, t, m)#} + sent t outs"
      "pre_votes N' = pre_votes N \<union> new_votes SM m (reps N t)" "counted N' = counted N \<union> new_counted f m"
  shows "ord_inv rs ifr N'"
proof -
  note ft = ep_invD(2,3) [OF inv p] and mi = ep_invD(4) [OF inv p]
  let ?r = "reps N t"
  note I = rep_invD [OF ep_invD(1) [OF inv ft(2)]]
  note O = ord_invD [OF ord]
  show ?thesis
  proof (cases m)
    case (PreAccept i b c s d)
    let ?D = "d \<union> snd (deps_and_seq SM ?r c i)"
    define ms where "ms = max s (fst (deps_and_seq SM ?r c i))"
    have r': "r' = record_inst i c ms ?D PreAccepted b ?r" "outs = [(f, PreAcceptReply i b ms ?D)]"
      using h PreAccept by (auto simp: on_preaccept_def Let_def case_prod_beta ms_def)
    have fi: "f = ins_replica i" "cmd_of (reps N f) i = Some c" using mi PreAccept by auto
    have ti: "t \<noteq> ins_replica i" using O(7) p PreAccept by blast
    have cmd_i: "cmd_of r' i = Some c"
    proof (cases "cmd_of ?r i")
      case None
      then show ?thesis by (simp add: r' record_inst_get cmd_of_def)
    next
      case (Some c0)
      then have "c0 = c" using I(8) [OF Some] fi by simp
      then show ?thesis using Some growsD(4) [OF g [of t] Some] N'(1) by simp
    qed
    have V: "new_votes SM m ?r = {(t, i, ?D)}" using PreAccept I(1) by simp
    show ?thesis
    proof (rule ord_step [OF inv ord ft(2) N'(1) g, of "{(t, i, ?D)}" "{}"])
      show "pre_votes N' = pre_votes N \<union> {(t, i, ?D)}" "counted N' = counted N \<union> {}" using N' V PreAccept by simp_all
      show "q = t \<and> cmd_of r' a \<noteq> None" if "(q, a, D) \<in> {(t, i, ?D)}" for q a D using that cmd_i by simp
      show "b \<in> D" if "(t, a, D) \<in> {(t, i, ?D)}" "(t, b, Db) \<in> pre_votes N" "a \<noteq> b" "cmd_of r' a = Some ca"
          "cmd_of ?r b = Some cb" "ifr ca cb \<or> ifr cb ca" for a D b Db ca cb
        using that cmd_i vote_consistent [OF inv ord ft(2) that(2,5,3,6)] by auto
      show "toks N' a q \<le> 1" for a q
        by (rule toks_unchanged [OF p N'(2) _ O(4)]) (use N'(4) PreAccept r'(2) in \<open>auto simp: sent_def\<close>)
      have split: "q \<in># flight N \<or> q = (t, f, PreAcceptReply i b ms ?D)" if "q \<in># flight N'" for q
        using that by (auto simp: N'(2) r'(2) sent_def dest: in_diffD)
      show "(f', u, PreAcceptReply i' b' s' d') \<in># flight N \<or> (f', i', d') \<in> {(t, i, ?D)} \<and> f' \<noteq> ins_replica i'"
        if "(f', u, PreAcceptReply i' b' s' d') \<in># flight N'" for f' u i' b' s' d'
        using split [OF that] ti by auto
      show "(f', u, PreAccept i' b' c' s' d') \<in># flight N \<or> u \<noteq> ins_replica i'"
        if "(f', u, PreAccept i' b' c' s' d') \<in># flight N'" for f' u i' b' c' s' d'
        using split [OF that] by auto
      show "coll_ok rs N' a y" if "bt_get (collects r') a = Some y" for a y
      proof -
        have "bt_get (collects ?r) a = Some y" using that by (simp add: r')
        from coll_ok_mono [OF O(10) [OF ft(2) this]] show ?thesis
          using N' PreAccept counted_of_finite(1) [OF ord] by (auto simp: counted_of_def)
      qed
      show "com ?r a = Some (c', s', D) \<or> backed rs N' a D" if "com r' a = Some (c', s', D)" for a c' s' D
        using that by (simp add: r' com_record_inst)
    qed auto
  next
    case (Accept i b c s d)
    then have r': "r' = record_inst i c s d Accepted b ?r" "outs = [(f, AcceptReply i b)]"
      using h by (auto simp: on_accept_def)
    show ?thesis
      by (rule deliver_quiet [OF inv ord p ft(2) g N'(1,2)])
         (use N'(3,4) Accept in \<open>auto simp: r' com_record_inst\<close>)
  next
    case (Commit i c s d)
    have mi': "f = ins_replica i" "com (reps N f) i = Some (c, s, d)" "finite d" using mi Commit by auto
    have r': "r' = commit_exec SM i c s d ?r" "outs = []"
      using h Commit on_commit_eq [OF I(3) mi'(3)] by auto
    show ?thesis
    proof (rule deliver_quiet [OF inv ord p ft(2) g N'(1,2)])
      show "com ?r a = Some (c', s', D) \<or> backed rs N a D" if "ins_replica a = t" "com r' a = Some (c', s', D)" for a c' s' D
        using that mi' com_commit_exec [OF I(3) mi'(3), of SM i c s a] by (auto simp: r' split: if_splits)
    qed (use N'(3,4) Commit in \<open>auto simp: r'\<close>)
  next
    case (AcceptReply i b)
    have h': "on_accept_reply SM i b ?r = Some (r', outs)" using h AcceptReply by simp
    show ?thesis
    proof (rule on_accept_reply_cases [OF I(3), of SM i b])
      assume "on_accept_reply SM i b ?r = Some (?r, [])"
      then have "r' = ?r" "outs = []" using h' by simp_all
      then show ?thesis
        by (intro deliver_quiet [OF inv ord p ft(2) g N'(1,2)]) (use N'(3,4) AcceptReply in auto)
    next
      fix c assume c: "bt_get (collects ?r) i = Some c" "co_accepting c" "on_accept_reply SM i b ?r =
         Some (?r\<lparr>collects := bt_insert i (c\<lparr>co_accept_oks := co_accept_oks c + 1\<rparr>) (collects ?r)\<rparr>, [])"
      then have r': "r' = ?r\<lparr>collects := bt_insert i (c\<lparr>co_accept_oks := co_accept_oks c + 1\<rparr>) (collects ?r)\<rparr>"
        "outs = []" using h' by simp_all
      have "coll_ok rs N i (c\<lparr>co_accept_oks := co_accept_oks c + 1\<rparr>)"
        using O(10) [OF ft(2) c(1)] c(2) by (simp add: coll_ok_def)
      then show ?thesis
        by (intro deliver_quiet [OF inv ord p ft(2) g N'(1,2)])
           (use N'(3,4) AcceptReply in \<open>auto simp: r' split: if_splits\<close>)
    next
      fix c assume c: "bt_get (collects ?r) i = Some c" "co_accepting c" "on_accept_reply SM i b ?r =
         Some (commit_exec SM i (co_command c) (co_union_seq c) (co_union_deps c)
                 (?r\<lparr>collects := bt_remove i (bt_insert i (c\<lparr>co_accept_oks := co_accept_oks c + 1\<rparr>) (collects ?r))\<rparr>),
               map (\<lambda>p. (p, Commit i (co_command c) (co_union_seq c) (co_union_deps c))) (ep_peers ?r))"
      let ?r1 = "?r\<lparr>collects := bt_remove i (bt_insert i (c\<lparr>co_accept_oks := co_accept_oks c + 1\<rparr>) (collects ?r))\<rparr>"
      have r': "r' = commit_exec SM i (co_command c) (co_union_seq c) (co_union_deps c) ?r1"
        "outs = map (\<lambda>p. (p, Commit i (co_command c) (co_union_seq c) (co_union_deps c))) (ep_peers ?r)"
        using h' c(3) by simp_all
      have bk: "backed rs N i (co_union_deps c)" using O(10) [OF ft(2) c(1)] c(2) by (simp add: coll_ok_def)
      show ?thesis
      proof (rule deliver_quiet [OF inv ord p ft(2) g N'(1,2)])
        show "com ?r a = Some (c', s', D) \<or> backed rs N a D"
          if "com r' a = Some (c', s', D)" for a c' s' D
          using that bk leader_commit_com [OF I(3) c(1)] by (auto simp: r' split: if_splits)
      qed (use N'(3,4) AcceptReply in \<open>auto simp: r' split: if_splits\<close>)
    qed
  next
    case (PreAcceptReply i b s d)
    have d: "finite d" and ti: "t = ins_replica i" using mi PreAcceptReply by auto
    have h': "on_preaccept_reply SM i b s d ?r = Some (r', outs)" using h PreAcceptReply by simp
    note p' = p [unfolded PreAcceptReply]
    have N'': "flight N' = flight N - {#(f, t, PreAcceptReply i b s d)#} + sent t outs"
      "pre_votes N' = pre_votes N" "counted N' = counted N \<union> {(i, f)}"
      using N' PreAcceptReply by simp_all
    have nf: "f \<notin> counted_of N i"
      using tok_in_flight [OF p', of i f] O(4) [of i f]
      by (auto simp: toks_def counted_of_def simp del: filter_mset_eq_mempty_iff)
    have cnt: "counted_of N' i = insert f (counted_of N i)" using N''(3) by (auto simp: counted_of_def)
    then have in_rs: "ins_replica i \<in> set rs" "counted_of N' i \<subseteq> set rs"
      using ft ti counted_of_finite(2) [OF ord, of i] by auto
    have tallied: "open_ok N' i (tally s d c)" if "bt_get (collects ?r) i = Some c" "\<not> co_accepting c" for c
    proof (rule open_ok_tally [OF _ counted_of_finite(1) [OF ord] nf O(6,5) [OF p'] _ cnt])
      show "open_ok N i c" using O(10) [OF ft(2) that(1)] that(2) by (simp add: coll_ok_def)
    qed (use N''(2) in simp)
    have fqr: "fast_quorum ?r = fq rs" by (rule fast_quorum_fq [OF I(2)])
    note reply = reply_ord [OF inv ord p' g N'(1) N'']
    show ?thesis
    proof (rule on_preaccept_reply_cases [OF I(3) d, of SM i b s])
      assume c: "on_preaccept_reply SM i b s d ?r = Some (?r, [])"
        "\<And>c. bt_get (collects ?r) i = Some c \<Longrightarrow> co_accepting c"
      then have r': "r' = ?r" "outs = []" using h' by simp_all
      have "coll_ok rs N' i c0" if "bt_get (collects ?r) i = Some c0" for c0
        using O(10) [OF ft(2) that] c(2) [OF that] backed_mono [of rs N i "co_union_deps c0" N'] N''(2)
        by (simp add: coll_ok_def)
      then show ?thesis by (intro reply) (auto simp: r')
    next
      fix c assume c: "bt_get (collects ?r) i = Some c" "\<not> co_accepting c"
        "on_preaccept_reply SM i b s d ?r = Some (?r\<lparr>collects := bt_insert i (tally s d c) (collects ?r)\<rparr>, [])"
      then have r': "r' = ?r\<lparr>collects := bt_insert i (tally s d c) (collects ?r)\<rparr>" "outs = []" using h' by simp_all
      have "coll_ok rs N' i (tally s d c)" using tallied [OF c(1,2)] c(2) by (simp add: coll_ok_def tally_def)
      then show ?thesis by (intro reply) (auto simp: r')
    next
      fix c assume c: "bt_get (collects ?r) i = Some c" "\<not> co_accepting c" "fast_quorum ?r \<le> co_agreed (tally s d c)"
        "on_preaccept_reply SM i b s d ?r =
         Some (commit_exec SM i (co_command c) (co_init_seq c) (co_init_deps c)
                 (?r\<lparr>collects := bt_remove i (bt_insert i (tally s d c) (collects ?r))\<rparr>),
               map (\<lambda>p. (p, Commit i (co_command c) (co_init_seq c) (co_init_deps c))) (ep_peers ?r))"
      let ?r1 = "?r\<lparr>collects := bt_remove i (bt_insert i (tally s d c) (collects ?r))\<rparr>"
      have r': "r' = commit_exec SM i (co_command c) (co_init_seq c) (co_init_deps c) ?r1"
        "outs = map (\<lambda>p. (p, Commit i (co_command c) (co_init_seq c) (co_init_deps c))) (ep_peers ?r)"
        using h' c(4) by simp_all
      have "backed rs N' i (co_init_deps (tally s d c))"
        by (rule open_ok_fast [OF tallied [OF c(1,2)] in_rs]) (use c(3) fqr in simp)
      then have bk: "backed rs N' i (co_init_deps c)" by (simp add: tally_def)
      show ?thesis
        by (rule reply) (use bk leader_commit_com(2) [OF I(3) c(1)] in \<open>auto simp: r' split: if_splits\<close>)
    next
      fix c assume c: "bt_get (collects ?r) i = Some c" "\<not> co_accepting c" "fast_quorum ?r \<le> co_replies (tally s d c)"
        "on_preaccept_reply SM i b s d ?r =
         (let c1 = tally s d c
          in Some (record_inst i (co_command c) (co_union_seq c1) (co_union_deps c1) Accepted 0
                (?r\<lparr>collects := bt_insert i (c1\<lparr>co_accepting := True, co_accept_oks := 1\<rparr>)
                                (bt_insert i c1 (collects ?r))\<rparr>),
              map (\<lambda>p. (p, Accept i 0 (co_command c) (co_union_seq c1) (co_union_deps c1))) (ep_peers ?r)))"
      let ?c1 = "tally s d c"
      have r': "r' = record_inst i (co_command c) (co_union_seq ?c1) (co_union_deps ?c1) Accepted 0
          (?r\<lparr>collects := bt_insert i (?c1\<lparr>co_accepting := True, co_accept_oks := 1\<rparr>) (bt_insert i ?c1 (collects ?r))\<rparr>)"
        "outs = map (\<lambda>p. (p, Accept i 0 (co_command c) (co_union_seq ?c1) (co_union_deps ?c1))) (ep_peers ?r)"
        using h' c(4) by (simp_all add: Let_def)
      have "backed rs N' i (co_union_deps ?c1)"
        by (rule open_ok_slow [OF tallied [OF c(1,2)] in_rs]) (use c(3) fqr in simp)
      then have "coll_ok rs N' i (?c1\<lparr>co_accepting := True, co_accept_oks := 1\<rparr>)" by (simp add: coll_ok_def)
      then show ?thesis by (intro reply) (auto simp: r' com_record_inst)
    qed
  qed
qed

lemma ep_step_ord:
  assumes "ep_step SM rs dup N N'" "\<not> dup" "ep_inv rs N" "ord_inv rs ifr N"
  shows "ord_inv rs ifr N'"
proof -
  have g: "grows (reps N u) (reps N' u)" for u using ep_step_ok [OF assms(1,3)] by blast
  from assms(1) show ?thesis
  proof cases
    case (ep_lead t c r' outs)
    show ?thesis by (rule propose_ord [OF assms(3,4) ep_lead(2,3) g]) (simp_all add: ep_lead(1))
  next
    case (ep_deliver f t m keep r' outs)
    then have "\<not> keep" using assms(2) by blast
    then show ?thesis by (intro deliver_ord [OF assms(3,4) ep_deliver(2,4) g]) (simp_all add: ep_deliver(1))
  next
    case (ep_lose p)
    have "toks N' a q \<le> 1" for a q
      using ord_invD(4) [OF assms(4), of a q] size_mset_mono [OF multiset_filter_mono [OF diff_subset_eq_self [of "flight N" "{#p#}"], of "is_tok a q"]]
      unfolding toks_def ep_lose(1) by (simp del: filter_mset_eq_mempty_iff)
    moreover have "coll_ok rs N' a c = coll_ok rs N a c" "backed rs N' a D = backed rs N a D" for a c D
      unfolding ep_lose(1) coll_ok_def open_ok_def backed_def counted_of_def by simp_all
    ultimately show ?thesis using assms(4) unfolding ord_inv_def ep_lose(1)
      by (auto dest: in_diffD) (metis in_diffD)+
  qed
qed

lemma ep_reach_ord: "ep_reach SM rs False s0 N \<Longrightarrow> ep_inv rs N \<and> ord_inv rs ifr N"
proof (induction rule: ep_reach.induct)
  case (ep_start N)
  have "ep_inv rs N" by (rule ep_reach_inv [OF ep_reach.ep_start]) (use ep_start in auto)
  moreover have "bt_get (collects (reps N i)) a = None" "com (reps N i) a = None" if "i \<in> set rs" for i a
    using ep_start_rep [OF ep_start(1) [OF that]] by (simp_all add: com_def)
  ultimately show ?case using ep_start(2-4) by (auto simp: ord_inv_def toks_def)
qed (use ep_step_ok ep_step_ord in blast)

end

end
