(* ===== verification/Epaxos_Converge.thy ===== *)
theory Epaxos_Converge
  imports Epaxos_Order
begin

text \<open>
  What the clients of an EPaxos group see: the state of a replica is the result of running its
  executed instances in an order that respects the dependency graph, and replicas that have
  executed the same instances are in the same state, provided commands that do not interfere
  commute.
\<close>

section \<open>The state of a replica is a run of its executed instances\<close>

definition executed :: "'s ep_replica \<Rightarrow> instance_id set" where
  "executed r = {i. status_of (cmds r) i = Some Executed}"

definition traced :: "'s ep_state_machine \<Rightarrow> 's \<Rightarrow> 's ep_replica \<Rightarrow> bool" where
  "traced SM s0 r \<longleftrightarrow> (\<exists>L. distinct L \<and> set L = executed r \<and> ep_sm r = run_cmds SM (cmds r) L s0 \<and>
     sorted_wrt (\<lambda>a b. \<not> exec_before (cmds r) b a) L)"

text \<open>Two command logs that agree on the dependencies and sequence numbers of a closed set of instances.\<close>

definition same_on :: "instance_id set \<Rightarrow> (instance_id, instance_state) btree \<Rightarrow>
    (instance_id, instance_state) btree \<Rightarrow> bool" where
  "same_on E m m' \<longleftrightarrow> (\<forall>i \<in> E. \<exists>st st'. bt_get m i = Some st \<and> bt_get m' i = Some st' \<and>
     is_command st = is_command st' \<and> is_seq st = is_seq st' \<and> is_deps st = is_deps st')"

lemma same_onD:
  assumes "same_on E m m'" "i \<in> E"
  shows "(i, j) \<in> deps_rel m \<longleftrightarrow> (i, j) \<in> deps_rel m'" "inst_key m i = inst_key m' i"
    "map_option is_command (bt_get m i) = map_option is_command (bt_get m' i)"
  using assms by (fastforce simp: same_on_def deps_rel_def inst_key_def)+

lemma same_on_sym: "same_on E m m' \<Longrightarrow> same_on E m' m"
  unfolding same_on_def by metis

lemma same_on_reach:
  assumes s: "same_on E m m'" and closed: "deps_rel m `` E \<subseteq> E"
    and i: "i \<in> E" and r: "(i, j) \<in> (deps_rel m)\<^sup>*"
  shows "j \<in> E \<and> (i, j) \<in> (deps_rel m')\<^sup>*"
  using r
proof (induction rule: rtrancl_induct)
  case (step j k)
  then have "(j, k) \<in> deps_rel m'" using same_onD(1) [OF s] by blast
  moreover have "k \<in> E" using step closed by blast
  ultimately show ?case using step by (meson rtrancl.rtrancl_into_rtrancl)
qed (use i in simp)

lemma same_on_exec_before:
  assumes s: "same_on E m m'" and closed: "deps_rel m `` E \<subseteq> E"
    and ij: "i \<in> E" "j \<in> E"
  shows "exec_before m j i \<longleftrightarrow> exec_before m' j i"
proof -
  have closed': "deps_rel m' `` E \<subseteq> E" using closed same_onD(1) [OF s] by blast
  have "(a, b) \<in> (deps_rel m)\<^sup>* \<longleftrightarrow> (a, b) \<in> (deps_rel m')\<^sup>*" if "a \<in> E" for a b
    using same_on_reach [OF s closed that] same_on_reach [OF same_on_sym [OF s] closed' that] by blast
  then show ?thesis using ij same_onD(2) [OF s] by (simp add: exec_before_def)
qed

lemma exec_closed_executed:
  "exec_closed (cmds r) \<Longrightarrow> deps_rel (cmds r) `` executed r \<subseteq> executed r"
  unfolding exec_closed_def executed_def by blast

lemma sorted_wrt_cong: "(\<And>a b. a \<in> set xs \<Longrightarrow> b \<in> set xs \<Longrightarrow> P a b = Q a b) \<Longrightarrow> sorted_wrt P xs = sorted_wrt Q xs"
  by (induction xs) auto

lemma traced_frame:
  assumes t: "traced SM s0 r" and ok: "exec_closed (cmds r)" and e: "executed r' = executed r"
    and s: "\<And>i. i \<in> executed r \<Longrightarrow> bt_get (cmds r') i = bt_get (cmds r) i" and sm: "ep_sm r' = ep_sm r"
  shows "traced SM s0 r'"
proof -
  obtain L where L: "distinct L" "set L = executed r" "ep_sm r = run_cmds SM (cmds r) L s0"
    "sorted_wrt (\<lambda>a b. \<not> exec_before (cmds r) b a) L" using t unfolding traced_def by blast
  have same: "same_on (executed r) (cmds r) (cmds r')"
    unfolding same_on_def using s by (auto simp: executed_def status_of_def)
  have "sorted_wrt (\<lambda>a b. \<not> exec_before (cmds r') b a) L"
    using L(4) same_on_exec_before [OF same exec_closed_executed [OF ok]]
    by (subst sorted_wrt_cong [of L _ "\<lambda>a b. \<not> exec_before (cmds r) b a"]) (auto simp: L(2))
  moreover have "run_cmds SM (cmds r') L s0 = run_cmds SM (cmds r) L s0"
    by (rule run_cmds_cong) (use s L(2) in simp)
  ultimately show ?thesis unfolding traced_def using L e sm by auto
qed

lemma traced_record:
  assumes "traced SM s0 r" "rep_ok r" "t \<noteq> Executed"
  shows "traced SM s0 (record_inst i c s d t b r)"
proof (rule traced_frame [OF assms(1) rep_okD(2) [OF assms(2)]])
  show "executed (record_inst i c s d t b r) = executed r"
    unfolding executed_def using record_inst_executed(1) [OF assms(3)] by blast
  show "bt_get (cmds (record_inst i c s d t b r)) j = bt_get (cmds r) j" if "j \<in> executed r" for j
    using that record_inst_executed(2) [OF assms(3)] by (simp add: executed_def)
qed simp

lemma exec_before_mark [simp]: "exec_before (mark_executed xs m) = exec_before m"
  by (intro ext) (simp add: exec_before_def)

lemma traced_execute:
  assumes t: "traced SM s0 r" and ok: "rep_ok r"
  shows "traced SM s0 (exec_all SM (exec_order (cmds r)) r)"
proof -
  let ?m = "cmds r" and ?xs = "exec_order (cmds r)"
  note R = rep_okD [OF ok]
  note X = exec_order_ok [OF R(1,2)]
  obtain L where L: "distinct L" "set L = executed r" "ep_sm r = run_cmds SM ?m L s0"
    "sorted_wrt (\<lambda>a b. \<not> exec_before ?m b a) L" using t unfolding traced_def by blast
  have dis: "set L \<inter> set ?xs = {}"
    using L(2) X(2) eligible_not_executed [OF R(4)] by (auto simp: executed_def)
  have cross: "\<not> exec_before ?m b a" if "a \<in> set L" "b \<in> set ?xs" for a b
  proof
    assume "exec_before ?m b a"
    then have "(a, b) \<in> (deps_rel ?m)\<^sup>*" by (simp add: exec_before_def)
    then have "status_of ?m b = Some Executed"
      using executed_reach [OF R(2)] that(1) L(2) by (simp add: executed_def)
    then show False using that dis L(2) by (auto simp: executed_def)
  qed
  have ex: "executed (exec_all SM ?xs r) = executed r \<union> set ?xs"
  proof -
    have "bt_get ?m i \<noteq> None" if "i \<in> set ?xs" for i
      using exec_order_known [OF ok that] by (auto simp: com_def split: option.splits)
    then show ?thesis by (fastforce simp: executed_def status_of_mark)
  qed
  show ?thesis unfolding traced_def
    by (rule exI [of _ "L @ ?xs"]) (use L X dis cross ex in \<open>auto simp: sorted_wrt_append\<close>)
qed

lemma traced_commit:
  assumes "traced SM s0 r" "rep_ok r" "finite d"
  shows "traced SM s0 (commit_exec SM i c s d r)"
  unfolding commit_exec_def Let_def
  by (intro traced_execute traced_record record_inst_rep_ok assms) simp_all

lemma traced_cong: "cmds r = cmds r' \<Longrightarrow> ep_sm r = ep_sm r' \<Longrightarrow> traced SM s0 r = traced SM s0 r'"
  by (simp add: traced_def executed_def)

lemma traced_collects [simp]:
  "traced SM s0 (r\<lparr>collects := x\<rparr>) = traced SM s0 r" "traced SM s0 (r\<lparr>next_slot := n\<rparr>) = traced SM s0 r"
  by (rule traced_cong; simp)+

lemma traced_message:
  assumes inv: "ep_inv rs N" and p: "(f, t, m) \<in># flight N"
    and h: "ep_on_message SM f m (reps N t) = Some (r', outs)" and tr: "traced SM s0 (reps N t)"
  shows "traced SM s0 r'"
proof -
  note mi = ep_invD(4) [OF inv p]
  let ?r = "reps N t"
  note I = rep_invD [OF ep_invD(1) [OF inv ep_invD(3) [OF inv p]]]
  have fin: "finite (co_init_deps c) \<and> finite (co_union_deps c)" if "bt_get (collects ?r) j = Some c" for j c
    using rep_okD(3) [OF I(3)] that by (auto simp: collects_ok_def)
  have commit: "traced SM s0 (commit_exec SM i c s d (?r\<lparr>collects := bt_remove i (bt_insert i y (collects ?r))\<rparr>))"
    if "finite d" for i c s d y
  proof (rule traced_commit [OF _ _ that])
    show "rep_ok (?r\<lparr>collects := bt_remove i (bt_insert i y (collects ?r))\<rparr>)"
      by (rule rep_ok_collects [OF I(3)]) (use fin in \<open>auto split: if_splits\<close>)
  qed (use tr in simp)
  show ?thesis
  proof (cases m)
    case (PreAccept i b c s d)
    then show ?thesis using h traced_record [OF tr I(3), of PreAccepted]
      by (auto simp: on_preaccept_def Let_def case_prod_beta)
  next
    case (Accept i b c s d)
    then show ?thesis using h traced_record [OF tr I(3), of Accepted] by (auto simp: on_accept_def)
  next
    case (Commit i c s d)
    then show ?thesis using h mi on_commit_eq [OF I(3)] traced_commit [OF tr I(3)] by auto
  next
    case (AcceptReply i b)
    then have h': "on_accept_reply SM i b ?r = Some (r', outs)" using h by simp
    show ?thesis
      by (rule on_accept_reply_cases [OF I(3), of SM i b]) (use h' tr commit fin in auto)
  next
    case (PreAcceptReply i b s d)
    then have h': "on_preaccept_reply SM i b s d ?r = Some (r', outs)" and d: "finite d" using h mi by simp_all
    show ?thesis
    proof (rule on_preaccept_reply_cases [OF I(3) d, of SM i b s])
      fix c assume c: "bt_get (collects ?r) i = Some c" "on_preaccept_reply SM i b s d ?r =
         (let c1 = tally s d c
          in Some (record_inst i (co_command c) (co_union_seq c1) (co_union_deps c1) Accepted 0
                (?r\<lparr>collects := bt_insert i (c1\<lparr>co_accepting := True, co_accept_oks := 1\<rparr>)
                                (bt_insert i c1 (collects ?r))\<rparr>),
              map (\<lambda>p. (p, Accept i 0 (co_command c) (co_union_seq c1) (co_union_deps c1))) (ep_peers ?r)))"
      let ?r1 = "?r\<lparr>collects := bt_insert i ((tally s d c)\<lparr>co_accepting := True, co_accept_oks := 1\<rparr>)
          (bt_insert i (tally s d c) (collects ?r))\<rparr>"
      have "rep_ok ?r1"
        by (rule rep_ok_collects [OF I(3)]) (use fin fin [OF c(1)] d in \<open>auto simp: tally_def split: if_splits\<close>)
      then have "traced SM s0 (record_inst i (co_command c) (co_union_seq (tally s d c)) (co_union_deps (tally s d c))
          Accepted 0 ?r1)" by (intro traced_record) (use tr in simp_all)
      then show ?thesis using h' c(2) by (simp add: Let_def)
    qed (use h' tr commit fin in auto)
  qed
qed

lemma traced_propose:
  assumes tr: "traced SM s0 r" and ok: "rep_ok r" and p: "ep_propose SM c r = (r', outs)"
  shows "traced SM s0 r'"
proof -
  have "rep_ok (r\<lparr>next_slot := n\<rparr>)" for n using ok rep_ok_cong [of "r\<lparr>next_slot := n\<rparr>" r] by simp
  then have "traced SM s0 (record_inst i c s d PreAccepted b (r\<lparr>next_slot := n\<rparr>))" for i s d b n
    by (intro traced_record) (use tr in simp_all)
  then show ?thesis using p by (auto simp: ep_propose_def Let_def case_prod_beta)
qed

lemma ep_reach_traced: "ep_reach SM rs dup s0 N \<Longrightarrow> \<forall>r \<in> set rs. traced SM s0 (reps N r)"
proof (induction rule: ep_reach.induct)
  case (ep_start N)
  have "traced SM s0 (reps N i)" if "i \<in> set rs" for i
    using ep_start_rep [OF ep_start(1) [OF that]]
    by (auto simp: traced_def executed_def status_of_def intro!: exI [of _ "[]"])
  then show ?case by blast
next
  case (ep_more N N')
  note inv = ep_reach_inv [OF ep_more.hyps(1)]
  from ep_more.hyps(2) show ?case
  proof cases
    case (ep_lead t c r' outs)
    have "traced SM s0 r'"
      by (rule traced_propose [OF _ rep_invD(3) [OF ep_invD(1) [OF inv ep_lead(2)]] ep_lead(3)])
         (use ep_more.IH ep_lead(2) in blast)
    then show ?thesis using ep_more.IH by (auto simp: ep_lead(1))
  next
    case (ep_deliver f t m keep r' outs)
    have "traced SM s0 r'"
      by (rule traced_message [OF inv ep_deliver(2,4)])
         (use ep_more.IH ep_invD(3) [OF inv ep_deliver(2)] in blast)
    then show ?thesis using ep_more.IH by (auto simp: ep_deliver(1))
  next
    case (ep_lose p)
    then show ?thesis using ep_more.IH by simp
  qed
qed

section \<open>Replicas converge\<close>

lemma same_on_executed:
  assumes inv: "ep_inv rs N" and pq: "p \<in> set rs" "q \<in> set rs" "executed (reps N p) = executed (reps N q)"
  shows "same_on (executed (reps N p)) (cmds (reps N p)) (cmds (reps N q))"
  unfolding same_on_def
proof
  fix i assume i: "i \<in> executed (reps N p)"
  obtain st st' where st: "bt_get (cmds (reps N p)) i = Some st" "is_status st = Executed"
    "bt_get (cmds (reps N q)) i = Some st'" "is_status st' = Executed"
  proof -
    have "i \<in> executed (reps N q)" using i pq(3) by simp
    with i show ?thesis using that by (auto simp: executed_def status_of_def)
  qed
  then have "com (reps N p) i = Some (is_command st, is_seq st, is_deps st)"
    "com (reps N q) i = Some (is_command st', is_seq st', is_deps st')" by (simp_all add: com_def)
  then show "\<exists>st st'. bt_get (cmds (reps N p)) i = Some st \<and> bt_get (cmds (reps N q)) i = Some st' \<and>
      is_command st = is_command st' \<and> is_seq st = is_seq st' \<and> is_deps st = is_deps st'"
    using st rep_invD(5) [OF ep_invD(1) [OF inv pq(1)]] rep_invD(5) [OF ep_invD(1) [OF inv pq(2)]] by fastforce
qed

context interference
begin

lemma interfering_ordered:
  assumes reach: "ep_reach SM rs False s0 N" and q: "length (sort_dedup rs) < 2 * fq rs"
    and p: "p \<in> set rs" "com (reps N p) a = Some (ca, sa, Da)"
    and p': "p' \<in> set rs" "com (reps N p') b = Some (cb, sb, Db)" and ab: "a \<noteq> b" "ifr ca cb"
  shows "b \<in> Da \<or> a \<in> Db"
proof -
  note inv = conjunct1 [OF ep_reach_ord [OF reach]] and ord = conjunct2 [OF ep_reach_ord [OF reach]]
  have bk: "backed rs N i D \<and> cmd_of (reps N (ins_replica i)) i = Some c"
    if "r \<in> set rs" "com (reps N r) i = Some (c, s, D)" for r i c s D
  proof -
    note I = rep_invD [OF ep_invD(1) [OF inv that(1)]]
    have "com (reps N (ins_replica i)) i = Some (c, s, D)" by (rule I(5) [OF that(2)])
    moreover have "ins_replica i \<in> set rs" by (rule I(6) [OF com_cmd_of [OF that(2)]])
    ultimately show ?thesis using ord_invD(11) [OF ord] com_cmd_of by blast
  qed
  show ?thesis
    using backed_ordered [OF inv ord q _ _ _ _ ab] bk [OF p] bk [OF p'] by blast
qed

end

text \<open>
  What a client's \<open>execute\<close> must promise besides: commands that do not interfere commute.
\<close>

locale commuting = interference +
  assumes commute: "\<not> ifr x y \<Longrightarrow>
    fst (ep_execute SM (fst (ep_execute SM s x)) y) = fst (ep_execute SM (fst (ep_execute SM s y)) x)"
begin

lemma run_move_front:
  assumes "\<And>y. y \<in> set ys \<Longrightarrow> \<exists>cx cy. map_option is_command (bt_get m x) = Some cx \<and>
      map_option is_command (bt_get m y) = Some cy \<and> \<not> ifr cx cy"
  shows "run_cmds SM m (ys @ [x]) s = run_cmds SM m (x # ys) s"
  using assms
proof (induction ys arbitrary: s)
  case (Cons y ys)
  obtain cx cy where c: "map_option is_command (bt_get m x) = Some cx" "map_option is_command (bt_get m y) = Some cy"
    "\<not> ifr cx cy" using Cons.prems [of y] by auto
  have "run_cmds SM m (ys @ [x]) s' = run_cmds SM m (x # ys) s'" for s' by (rule Cons.IH) (use Cons.prems in simp)
  then have "run_cmds SM m ((y # ys) @ [x]) s = run_cmds SM m (x # ys) (run_cmds SM m [y] s)" by simp
  then show ?case using c commute [OF c(3)] by (auto split: option.splits)
qed simp

lemma run_permuted:
  assumes L: "distinct L" "distinct L'" "set L = set L'" "sorted_wrt P L" "sorted_wrt P L'"
    and P: "\<And>x y. x \<in> set L \<Longrightarrow> y \<in> set L \<Longrightarrow> x \<noteq> y \<Longrightarrow> P x y \<Longrightarrow> P y x \<Longrightarrow>
      \<exists>cx cy. map_option is_command (bt_get m x) = Some cx \<and> map_option is_command (bt_get m y) = Some cy \<and> \<not> ifr cx cy"
  shows "run_cmds SM m L s = run_cmds SM m L' s"
  using assms
proof (induction L arbitrary: L' s)
  case (Cons x xs)
  have "x \<in> set L'" using Cons.prems(3) by auto
  then obtain ys zs where L': "L' = ys @ x # zs" by (auto simp: in_set_conv_decomp)
  have set_eq: "set xs = set (ys @ zs)" and dis: "distinct (ys @ zs)"
    using Cons.prems(1-3) unfolding L' by auto
  have "\<exists>cx cy. map_option is_command (bt_get m x) = Some cx \<and> map_option is_command (bt_get m y) = Some cy \<and> \<not> ifr cx cy"
    if y: "y \<in> set ys" for y
  proof (rule Cons.prems(6))
    have yx: "y \<in> set xs" using y set_eq by simp
    then show "x \<in> set (x # xs)" "y \<in> set (x # xs)" "x \<noteq> y" "P x y" using Cons.prems(1,4) by auto
    show "P y x" using Cons.prems(5) y unfolding L' by (simp add: sorted_wrt_append)
  qed
  then have "run_cmds SM m L' s = run_cmds SM m zs (run_cmds SM m (x # ys) s)"
    using run_move_front [of ys m x s] unfolding L' by simp
  also have "\<dots> = run_cmds SM m (ys @ zs) (run_cmds SM m [x] s)" by simp
  also have "\<dots> = run_cmds SM m xs (run_cmds SM m [x] s)"
  proof (rule Cons.IH [symmetric])
    show "sorted_wrt P (ys @ zs)" using Cons.prems(5) unfolding L' by (simp add: sorted_wrt_append)
    show "\<exists>cx cy. map_option is_command (bt_get m u) = Some cx \<and> map_option is_command (bt_get m v) = Some cy \<and> \<not> ifr cx cy"
      if "u \<in> set xs" "v \<in> set xs" "u \<noteq> v" "P u v" "P v u" for u v using Cons.prems(6) [of u v] that by simp
  qed (use Cons.prems set_eq dis in auto)
  finally show ?case by simp
qed simp

lemma converge:
  assumes reach: "ep_reach SM rs False s0 N" and q: "length (sort_dedup rs) < 2 * fq rs"
    and pq: "p \<in> set rs" "p' \<in> set rs" "executed (reps N p) = executed (reps N p')"
  shows "ep_sm (reps N p) = ep_sm (reps N p')"
proof -
  note inv = conjunct1 [OF ep_reach_ord [OF reach]]
  let ?r = "reps N p" and ?r' = "reps N p'"
  let ?P = "\<lambda>a b. \<not> exec_before (cmds ?r) b a"
  note same = same_on_executed [OF inv pq]
  have cl: "exec_closed (cmds ?r)" using rep_okD(2) [OF rep_invD(3) [OF ep_invD(1) [OF inv pq(1)]]] .
  obtain L where L: "distinct L" "set L = executed ?r" "ep_sm ?r = run_cmds SM (cmds ?r) L s0" "sorted_wrt ?P L"
    using ep_reach_traced [OF reach] pq(1) unfolding traced_def by blast
  obtain L' where L': "distinct L'" "set L' = executed ?r'" "ep_sm ?r' = run_cmds SM (cmds ?r') L' s0"
    "sorted_wrt (\<lambda>a b. \<not> exec_before (cmds ?r') b a) L'"
    using ep_reach_traced [OF reach] pq(2) unfolding traced_def by blast
  have sorted': "sorted_wrt ?P L'"
    using L'(4) same_on_exec_before [OF same exec_closed_executed [OF cl]] L'(2) pq(3)
    by (subst sorted_wrt_cong [of L' _ "\<lambda>a b. \<not> exec_before (cmds ?r') b a"]) auto
  have run': "run_cmds SM (cmds ?r') L' s0 = run_cmds SM (cmds ?r) L' s0"
    by (rule run_cmds_cong) (use same_onD(3) [OF same] L'(2) pq(3) in simp)
  have "run_cmds SM (cmds ?r) L s0 = run_cmds SM (cmds ?r) L' s0"
  proof (rule run_permuted [OF L(1) L'(1) _ L(4) sorted'])
    show "set L = set L'" using L(2) L'(2) pq(3) by simp
    fix x y assume xy: "x \<in> set L" "y \<in> set L" "x \<noteq> y" "?P x y" "?P y x"
    then obtain sx sy where s: "bt_get (cmds ?r) x = Some sx" "is_status sx = Executed"
      "bt_get (cmds ?r) y = Some sy" "is_status sy = Executed"
      using L(2) by (auto simp: executed_def status_of_def)
    have key: "inst_key (cmds ?r) x \<noteq> inst_key (cmds ?r) y" using xy(3) s by (simp add: inst_key_def)
    have "\<not> ifr (is_command sx) (is_command sy)"
    proof
      assume i: "ifr (is_command sx) (is_command sy)"
      have "com ?r x = Some (is_command sx, is_seq sx, is_deps sx)" "com ?r y = Some (is_command sy, is_seq sy, is_deps sy)"
        using s by (simp_all add: com_def)
      from interfering_ordered [OF reach q pq(1) this(1) pq(1) this(2) xy(3) i]
      have "(x, y) \<in> deps_rel (cmds ?r) \<or> (y, x) \<in> deps_rel (cmds ?r)" using s by (auto simp: deps_rel_def)
      then show False using xy(3-5) key by (auto simp: exec_before_def)
    qed
    then show "\<exists>cx cy. map_option is_command (bt_get (cmds ?r) x) = Some cx \<and>
        map_option is_command (bt_get (cmds ?r) y) = Some cy \<and> \<not> ifr cx cy" using s by simp
  qed
  then show ?thesis using L(3) L'(3) run' by simp
qed

end

end
