(* ===== verification/Epaxos_Claims.thy ===== *)
theory Epaxos_Claims
  imports Epaxos_Converge Sim
begin

text \<open>
  The properties of the EPaxos engine, with concrete runs.  The runs are produced by the
  cluster harness of \<open>sim.rs\<close>, whose every run is a run of the network model.
\<close>

section \<open>Clusters of EPaxos replicas\<close>

text \<open>\<open>impl SimNode for EpaxosReplica\<close>: no timers, messages as they come.\<close>

definition epaxos_sim :: "'s ep_state_machine \<Rightarrow> ('s ep_replica, ep_message) sim_node" where
  "epaxos_sim SM =
     \<lparr>sim_id = ep_id, sim_tick = (\<lambda>r. Some (r, [])), sim_message = (\<lambda>f m r. ep_on_message SM f m r)\<rparr>"

definition ep_rel :: "nat list \<Rightarrow> (nat, 's ep_replica) btree \<Rightarrow> (nat \<times> nat \<times> ep_message) list \<Rightarrow> 's ep_net \<Rightarrow> bool" where
  "ep_rel rs ns fl N \<longleftrightarrow> (\<forall>i r. bt_get ns i = Some r \<longrightarrow> i \<in> set rs \<and> reps N i = r) \<and> mset fl = flight N"

lemma ep_rel_update:
  "ep_rel rs ns fl N \<Longrightarrow> i \<in> set rs \<Longrightarrow> reps N' = (reps N)(i := r) \<Longrightarrow> mset fl' = flight N' \<Longrightarrow>
     ep_rel rs (bt_insert i r ns) fl' N'"
  by (auto simp: ep_rel_def)

lemma sent_map: "sent f outs = mset (map (\<lambda>(t, m). (f, t, m)) outs)"
  by (simp add: sent_def)

interpretation ep_cluster: simulates "epaxos_sim SM" "ep_reach SM rs False s0" "ep_rel rs" for SM rs s0
proof
  fix N and ns :: "(nat, 'a ep_replica) btree" and fl i n n' outs
  assume a: "ep_reach SM rs False s0 N" "ep_rel rs ns fl N" "bt_get ns i = Some n"
    "sim_tick (epaxos_sim SM) n = Some (n', outs)"
  then have "outs = []" "n' = n" by (simp_all add: epaxos_sim_def)
  then have "ep_rel rs (bt_insert i n' ns) (fl @ map (\<lambda>(t, m). (i, t, m)) outs) N"
    using a(2,3) by (intro ep_rel_update [OF a(2)]) (auto simp: ep_rel_def)
  then show "\<exists>N'. ep_reach SM rs False s0 N' \<and>
      ep_rel rs (bt_insert i n' ns) (fl @ map (\<lambda>(t, m). (i, t, m)) outs) N'" using a(1) by blast
next
  fix N and ns :: "(nat, 'a ep_replica) btree" and f t m fl n n' outs
  assume a: "ep_reach SM rs False s0 N" "ep_rel rs ns ((f, t, m) # fl) N" "bt_get ns t = Some n"
    "sim_message (epaxos_sim SM) f m n = Some (n', outs)"
  have t: "t \<in> set rs" "reps N t = n" "flight N = add_mset (f, t, m) (mset fl)"
    using a(2,3) by (auto simp: ep_rel_def)
  let ?N' = "N\<lparr>reps := (reps N)(t := n'), flight := flight N - {#(f, t, m)#} + sent t outs,
      pre_votes := pre_votes N \<union> new_votes SM m (reps N t), counted := counted N \<union> new_counted f m\<rparr>"
  have "ep_step SM rs False N ?N'"
    using ep_step.ep_deliver [of f t m N False False SM n' outs rs] a(4) t by (simp add: epaxos_sim_def)
  then have "ep_reach SM rs False s0 ?N'" by (rule ep_reach.ep_more [OF a(1)])
  moreover have "ep_rel rs (bt_insert t n' ns) (fl @ map (\<lambda>(u, m). (t, u, m)) outs) ?N'"
    by (rule ep_rel_update [OF a(2) t(1)]) (simp_all add: t(3) sent_map)
  ultimately show "\<exists>N'. ep_reach SM rs False s0 N' \<and>
      ep_rel rs (bt_insert t n' ns) (fl @ map (\<lambda>(u, m). (t, u, m)) outs) N'" by blast
next
  fix N and ns :: "(nat, 'a ep_replica) btree" and a p b
  assume a: "ep_reach SM rs False s0 N" "ep_rel rs ns (a @ p # b) N"
  then have fl: "flight N = add_mset p (mset a + mset b)" by (simp add: ep_rel_def)
  then have "p \<in># flight N" by simp
  from ep_reach.ep_more [OF a(1) ep_step.ep_lose [OF this]] a(2) fl
  show "\<exists>N'. ep_reach SM rs False s0 N' \<and> ep_rel rs ns (a @ b) N'"
    by (intro exI [of _ "N\<lparr>flight := flight N - {#p#}\<rparr>"]) (auto simp: ep_rel_def)
qed

text \<open>Leading a command from the harness (\<open>act\<close> with \<open>propose\<close>).\<close>

definition lead :: "'s ep_state_machine \<Rightarrow> bytes \<Rightarrow> 's ep_replica \<Rightarrow> 's ep_replica \<times> unit \<times> ep_out list" where
  "lead SM c r = (let (r', outs) = ep_propose SM c r in (r', (), outs))"

lemma lead_simulated:
  assumes "ep_cluster.simulated SM rs s0 C" "act i (lead SM c) C = Some (C', u)"
  shows "ep_cluster.simulated SM rs s0 C'"
proof (rule ep_cluster.act_simulated [OF assms(1) _ assms(2)])
  fix N ns fl n n' r outs
  assume a: "ep_reach SM rs False s0 N" "ep_rel rs ns fl N" "bt_get ns i = Some n" "lead SM c n = (n', r, outs)"
  have i: "i \<in> set rs" "reps N i = n" "flight N = mset fl" using a(2,3) by (auto simp: ep_rel_def)
  have p: "ep_propose SM c (reps N i) = (n', outs)" using a(4) i(2) by (auto simp: lead_def Let_def split: prod.splits)
  let ?N' = "N\<lparr>reps := (reps N)(i := n'), flight := flight N + sent i outs,
      pre_votes := pre_votes N \<union> lead_vote SM c (reps N i)\<rparr>"
  have "ep_reach SM rs False s0 ?N'" by (rule ep_reach.ep_more [OF a(1) ep_step.ep_lead [OF i(1) p]])
  moreover have "ep_rel rs (bt_insert i n' ns) (fl @ map (\<lambda>(u, m). (i, u, m)) outs) ?N'"
    by (rule ep_rel_update [OF a(2) i(1)]) (simp_all add: i(3) sent_map)
  ultimately show "\<exists>w'. ep_reach SM rs False s0 w' \<and>
      ep_rel rs (bt_insert i n' ns) (fl @ map (\<lambda>(t, m). (i, t, m)) outs) w'" by blast
qed

section \<open>A register store\<close>

text \<open>
  A state machine with the interference relation of the tests' \<open>KvSm\<close> (a command is a key and a
  value, two commands interfere when they have the same key) that stores the last value of each
  key, so commands on different keys commute.
\<close>

definition same_key :: "bytes \<Rightarrow> bytes \<Rightarrow> bool" where
  "same_key a b \<longleftrightarrow> a \<noteq> [] \<and> b \<noteq> [] \<and> hd a = hd b"

definition reg_sm :: "(byte, bytes) btree ep_state_machine" where
  "reg_sm =
     \<lparr>ep_interferes = (\<lambda>_. same_key),
      ep_execute = (\<lambda>s c. (case c of [] \<Rightarrow> s | k # v \<Rightarrow> bt_insert k v s, []))\<rparr>"

lemma bt_insert_commute: "k \<noteq> l \<Longrightarrow> bt_insert k v (bt_insert l w m) = bt_insert l w (bt_insert k v m)"
  by (induction m) (auto simp: not_less)

interpretation reg: commuting reg_sm same_key
  by unfold_locales
     (auto simp: reg_sm_def same_key_def bt_insert_commute split: list.splits)

definition reg_cluster :: "nat list \<Rightarrow> ((byte, bytes) btree ep_replica, ep_message) cluster option" where
  "reg_cluster rs =
     map_option (\<lambda>ns. \<lparr>nodes = map (\<lambda>r. (ep_id r, r)) ns, inflight = [], isolated = {}, max_deliveries = 20\<rparr>)
       (those (map (\<lambda>i. ep_new i rs []) rs))"

definition reg_lead :: "nat \<Rightarrow> bytes \<Rightarrow> ((byte, bytes) btree ep_replica, ep_message) cluster option \<Rightarrow>
    ((byte, bytes) btree ep_replica, ep_message) cluster option" where
  "reg_lead i c C = Option.bind C (\<lambda>C. map_option fst (act i (lead reg_sm c) C))"

definition reg_settle :: "((byte, bytes) btree ep_replica, ep_message) cluster option \<Rightarrow>
    ((byte, bytes) btree ep_replica, ep_message) cluster option" where
  "reg_settle C = Option.bind C (\<lambda>C. map_option fst (deliver_all (epaxos_sim reg_sm) C))"

definition three_run :: "((byte, bytes) btree ep_replica, ep_message) cluster option" where
  "three_run = reg_settle (reg_lead 1 [7, 2] (reg_settle (reg_lead 0 [7, 1] (reg_cluster [0, 1, 2]))))"

definition two_run :: "((byte, bytes) btree ep_replica, ep_message) cluster option" where
  "two_run = reg_settle (reg_lead 1 [7, 2] (reg_lead 0 [7, 1] (reg_cluster [0, 1])))"

lemma reg_cluster_simulated:
  assumes "reg_cluster rs = Some C" "sorted_wrt (<) rs"
  shows "ep_cluster.simulated reg_sm rs [] C"
proof -
  define N where "N = \<lparr>reps = (\<lambda>i. \<lparr>ep_id = i, ep_replicas = sort_dedup rs, next_slot = 0, cmds = [], collects = [],
      ep_sm = [] :: (byte, bytes) btree\<rparr>), flight = {#}, pre_votes = {}, counted = {}\<rparr>"
  have new: "ep_new i rs [] = Some (reps N i)" if "i \<in> set rs" for i using that by (simp add: ep_new_def N_def)
  have r: "ep_reach reg_sm rs False [] N" by (rule ep_reach.ep_start) (simp_all add: new, simp_all add: N_def)
  have "those (map (\<lambda>i. ep_new i rs []) xs) = Some (map (reps N) xs)" if "set xs \<subseteq> set rs" for xs
    using that by (induction xs) (simp_all add: new)
  then have C: "nodes C = map (\<lambda>i. (i, reps N i)) rs" "inflight C = []"
    using assms(1) by (auto simp: reg_cluster_def N_def comp_def)
  have "bt_get (map (\<lambda>i. (i, reps N i)) xs) i = Some n \<Longrightarrow> i \<in> set xs \<and> reps N i = n" for xs i n
    by (induction xs) (auto simp: bt_get_def split: if_splits)
  then have "ep_rel rs (nodes C) (inflight C) N" unfolding ep_rel_def C by (simp add: N_def)
  with r show ?thesis unfolding ep_cluster.simulated_def by blast
qed

lemma reg_lead_simulated:
  assumes "\<And>C. C0 = Some C \<Longrightarrow> ep_cluster.simulated reg_sm rs [] C" "reg_lead i c C0 = Some C'"
  shows "ep_cluster.simulated reg_sm rs [] C'"
  using assms lead_simulated by (cases C0) (fastforce simp: reg_lead_def)+

lemma reg_settle_simulated:
  assumes "\<And>C. C0 = Some C \<Longrightarrow> ep_cluster.simulated reg_sm rs [] C" "reg_settle C0 = Some C'"
  shows "ep_cluster.simulated reg_sm rs [] C'"
proof -
  obtain C k where C: "C0 = Some C" "deliver_from (epaxos_sim reg_sm) 0 C = Some (C', k)"
    using assms(2) by (cases C0) (auto simp: reg_settle_def deliver_all_def)
  show ?thesis by (rule ep_cluster.deliver_from_simulated [OF assms(1) [OF C(1)] C(2)])
qed

definition view :: "((byte, bytes) btree ep_replica, ep_message) cluster option \<Rightarrow>
    (nat \<times> (byte, bytes) btree \<times> (instance_id \<times> bytes \<times> nat \<times> instance_id set \<times> status) list) list option" where
  "view C = map_option (\<lambda>C. map (\<lambda>(i, r). (i, ep_sm r,
     map (\<lambda>(j, st). (j, is_command st, is_seq st, is_deps st, is_status st)) (cmds r))) (nodes C)) C"

lemma three_view: "view three_run = Some (map (\<lambda>i. (i, [(7, [2])],
    [(Instance 0 0, [7, 1], 1, {}, Executed), (Instance 1 0, [7, 2], 2, {Instance 0 0}, Executed)])) [0, 1, 2])"
  by code_simp

lemma two_view: "view two_run = Some
    [(0, [(7, [2])], [(Instance 0 0, [7, 1], 1, {}, Executed), (Instance 1 0, [7, 2], 1, {}, Executed)]),
     (1, [(7, [1])], [(Instance 0 0, [7, 1], 1, {}, Executed), (Instance 1 0, [7, 2], 1, {}, Executed)])]"
  by code_simp

text \<open>The network behind a run, read off its view.\<close>

lemma view_net:
  assumes v: "view C0 = Some V" and C0: "\<And>C. C0 = Some C \<Longrightarrow> ep_cluster.simulated reg_sm rs [] C"
  shows "\<exists>N. ep_reach reg_sm rs False [] N \<and> (\<forall>i s cs. map_of V i = Some (s, cs) \<longrightarrow> i \<in> set rs \<and>
     ep_sm (reps N i) = s \<and>
     (\<forall>j. com (reps N i) j = map_option (\<lambda>(c, s, d, st). (c, s, d))
        (case map_of cs j of Some (c, s, d, st) \<Rightarrow> if Committed \<le> st then Some (c, s, d, st) else None | None \<Rightarrow> None)) \<and>
     executed (reps N i) = {j. \<exists>c s d. map_of cs j = Some (c, s, d, Executed)})"
proof -
  obtain C where C: "C0 = Some C" using v by (auto simp: view_def)
  obtain N where N: "ep_reach reg_sm rs False [] N" "ep_rel rs (nodes C) (inflight C) N"
    using C0 [OF C] unfolding ep_cluster.simulated_def by blast
  have conv: "map_of (map (\<lambda>(i, r). (i, f r)) xs) i = map_option f (map_of xs i)" for f xs and i :: nat
    by (induction xs) auto
  have conv': "map_of (map (\<lambda>(j, st). (j, g st)) xs) j = map_option g (map_of xs j)" for g xs and j :: instance_id
    by (induction xs) auto
  have "i \<in> set rs \<and> ep_sm (reps N i) = s \<and>
     (\<forall>j. com (reps N i) j = map_option (\<lambda>(c, s, d, st). (c, s, d))
        (case map_of cs j of Some (c, s, d, st) \<Rightarrow> if Committed \<le> st then Some (c, s, d, st) else None | None \<Rightarrow> None)) \<and>
     executed (reps N i) = {j. \<exists>c s d. map_of cs j = Some (c, s, d, Executed)}"
    if Vi: "map_of V i = Some (s, cs)" for i s cs
  proof -
    obtain r where r: "bt_get (nodes C) i = Some r" "s = ep_sm r"
      "cs = map (\<lambda>(j, st). (j, is_command st, is_seq st, is_deps st, is_status st)) (cmds r)"
      using Vi v C by (auto simp: view_def conv bt_get_def)
    then have i: "i \<in> set rs" "reps N i = r" using N(2) by (auto simp: ep_rel_def)
    show ?thesis using i r(2)
      by (auto simp: r(3) conv' com_def executed_def status_of_def bt_get_def split: option.splits)
  qed
  then show ?thesis using N(1) by blast
qed

lemma three_run_simulated: "three_run = Some C \<Longrightarrow> ep_cluster.simulated reg_sm [0, 1, 2] [] C"
  unfolding three_run_def
  by (rule reg_settle_simulated [OF reg_lead_simulated [OF reg_settle_simulated
        [OF reg_lead_simulated [OF reg_cluster_simulated]]]]) simp_all

lemma two_run_simulated: "two_run = Some C \<Longrightarrow> ep_cluster.simulated reg_sm [0, 1] [] C"
  unfolding two_run_def
  by (rule reg_settle_simulated [OF reg_lead_simulated [OF reg_lead_simulated [OF reg_cluster_simulated]]]) simp_all

lemma three_run_net:
  obtains N where "ep_reach reg_sm [0, 1, 2] False [] N"
    "\<And>i. i \<in> {0, 1, 2} \<Longrightarrow> com (reps N i) (Instance 0 0) = Some ([7, 1], 1, {})"
    "\<And>i. i \<in> {0, 1, 2} \<Longrightarrow> com (reps N i) (Instance 1 0) = Some ([7, 2], 2, {Instance 0 0})"
    "\<And>i. i \<in> {0, 1, 2} \<Longrightarrow> executed (reps N i) = {Instance 0 0, Instance 1 0}"
proof -
  obtain N where N: "ep_reach reg_sm [0, 1, 2] False [] N" and V: "\<forall>i s cs.
      map_of (map (\<lambda>i. (i, [(7 :: byte, [2 :: byte])], [(Instance 0 0, [7 :: byte, 1], 1 :: nat, {}, Executed),
        (Instance 1 0, [7, 2], 2, {Instance 0 0}, Executed)])) [0, 1, 2]) i = Some (s, cs) \<longrightarrow>
      i \<in> set [0, 1, 2] \<and> ep_sm (reps N i) = s \<and>
     (\<forall>j. com (reps N i) j = map_option (\<lambda>(c, s, d, st). (c, s, d))
        (case map_of cs j of Some (c, s, d, st) \<Rightarrow> if Committed \<le> st then Some (c, s, d, st) else None | None \<Rightarrow> None)) \<and>
     executed (reps N i) = {j. \<exists>c s d. map_of cs j = Some (c, s, d, Executed)}"
    using view_net [OF three_view three_run_simulated] by blast
  have *: "com (reps N i) (Instance 0 0) = Some ([7, 1], 1, {}) \<and>
      com (reps N i) (Instance 1 0) = Some ([7, 2], 2, {Instance 0 0}) \<and>
      executed (reps N i) = {Instance 0 0, Instance 1 0}" if "i \<in> {0, 1, 2}" for i
    using V [rule_format, of i] that by (auto split: if_splits)
  show ?thesis by (rule that [OF N]) (use * in auto)
qed

lemma two_run_net:
  obtains N where "ep_reach reg_sm [0, 1] False [] N" "executed (reps N 0) = executed (reps N 1)"
    "ep_sm (reps N 0) = [(7, [2])]" "ep_sm (reps N 1) = [(7, [1])]"
proof -
  obtain N where N: "ep_reach reg_sm [0, 1] False [] N" and V: "\<forall>i s cs.
      map_of [(0, [(7 :: byte, [2 :: byte])], [(Instance 0 0, [7 :: byte, 1], 1 :: nat, {}, Executed), (Instance 1 0, [7, 2], 1, {}, Executed)]),
     (1, [(7, [1])], [(Instance 0 0, [7, 1], 1, {}, Executed), (Instance 1 0, [7, 2], 1, {}, Executed)])] i = Some (s, cs) \<longrightarrow>
      i \<in> set [0, 1] \<and> ep_sm (reps N i) = s \<and>
     (\<forall>j. com (reps N i) j = map_option (\<lambda>(c, s, d, st). (c, s, d))
        (case map_of cs j of Some (c, s, d, st) \<Rightarrow> if Committed \<le> st then Some (c, s, d, st) else None | None \<Rightarrow> None)) \<and>
     executed (reps N i) = {j. \<exists>c s d. map_of cs j = Some (c, s, d, Executed)}"
    using view_net [OF two_view two_run_simulated] by blast
  show ?thesis by (rule that [OF N]) (use V [rule_format, of 0] V [rule_format, of 1] in auto)
qed

section \<open>Claims\<close>

text \<open>
  C18: committed instances agree.  On a network that may also duplicate messages, two replicas
  that have committed an instance have the same command, sequence number and dependencies for it.
\<close>

theorem ep_agreement:
  assumes "ep_reach SM rs dup s0 N" "p \<in> set rs" "q \<in> set rs"
    and "com (reps N p) i = Some v" "com (reps N q) i = Some w"
  shows "v = w"
proof -
  note inv = ep_reach_inv [OF assms(1)]
  show ?thesis
    using rep_invD(5) [OF ep_invD(1) [OF inv assms(2)] assms(4)] rep_invD(5) [OF ep_invD(1) [OF inv assms(3)] assms(5)]
    by simp
qed

theorem ep_agreement_witness:
  "\<exists>N. ep_reach reg_sm [0, 1, 2] False [] N \<and> com (reps N 0) (Instance 0 0) \<noteq> None \<and>
     com (reps N 0) (Instance 0 0) = com (reps N 2) (Instance 0 0)"
proof (rule three_run_net)
  fix N assume N: "ep_reach reg_sm [0, 1, 2] False [] N"
    "\<And>i. i \<in> {0, 1, 2} \<Longrightarrow> com (reps N i) (Instance 0 0) = Some ([7, 1], 1, {})"
  obtain v where v: "com (reps N 2) (Instance 0 0) = Some v" using N(2) [of 2] by simp
  have c0: "com (reps N 0) (Instance 0 0) = Some ([7, 1], 1, {})" using N(2) [of 0] by simp
  have "([7, 1], 1, {}) = v" by (rule ep_agreement [OF N(1) _ _ c0 v]) simp_all
  then show ?thesis using N(1) c0 v by auto
qed

text \<open>
  C19: interfering commands are ordered.  When two fast quorums always share a replica and
  replies are not duplicated, of two committed interfering instances one is a dependency of the
  other, at whichever replicas they are committed.
\<close>

theorem ep_interfering_ordered:
  assumes "ep_reach SM rs False s0 N" "length (sort_dedup rs) < 2 * fq rs"
    and "\<And>s x y. ep_interferes SM s x y = ifr x y" "\<And>x y. ifr x y = ifr y x"
    and "p \<in> set rs" "com (reps N p) a = Some (ca, sa, Da)"
    and "q \<in> set rs" "com (reps N q) b = Some (cb, sb, Db)"
    and "a \<noteq> b" "ifr ca cb"
  shows "b \<in> Da \<or> a \<in> Db"
proof -
  have "interference SM ifr" using assms(3,4) by unfold_locales auto
  from interference.interfering_ordered [OF this assms(1,2,5-10)] show ?thesis .
qed

theorem ep_interfering_ordered_witness:
  "\<exists>N sa Da sb Db. ep_reach reg_sm [0, 1, 2] False [] N \<and> com (reps N 0) (Instance 0 0) = Some ([7, 1], sa, Da) \<and>
     com (reps N 2) (Instance 1 0) = Some ([7, 2], sb, Db) \<and> (Instance 1 0 \<in> Da \<or> Instance 0 0 \<in> Db)"
proof (rule three_run_net)
  fix N assume N: "ep_reach reg_sm [0, 1, 2] False [] N"
    "\<And>i. i \<in> {0, 1, 2} \<Longrightarrow> com (reps N i) (Instance 0 0) = Some ([7, 1], 1, {})"
    "\<And>i. i \<in> {0, 1, 2} \<Longrightarrow> com (reps N i) (Instance 1 0) = Some ([7, 2], 2, {Instance 0 0})"
  have c: "com (reps N 0) (Instance 0 0) = Some ([7, 1], 1, {})"
    "com (reps N 2) (Instance 1 0) = Some ([7, 2], 2, {Instance 0 0})" using N(2) [of 0] N(3) [of 2] by simp_all
  have "length (sort_dedup [0, 1, 2 :: nat]) < 2 * fq [0, 1, 2]" by (simp add: fq_def sort_dedup_def)
  then have "Instance 1 0 \<in> {} \<or> Instance 0 0 \<in> {Instance 0 0}"
    by (rule ep_interfering_ordered [OF N(1) _ reg.interferes reg.ifr_sym _ c(1) _ c(2)]) (simp_all add: same_key_def)
  then show ?thesis using N(1) c by blast
qed

text \<open>
  C20: replicas converge.  If besides commands that do not interfere commute, two replicas that
  have executed the same instances are in the same state, whatever orders the messages arrived in.
\<close>

theorem ep_convergence:
  assumes "ep_reach SM rs False s0 N" "length (sort_dedup rs) < 2 * fq rs"
    and "\<And>s x y. ep_interferes SM s x y = ifr x y" "\<And>x y. ifr x y = ifr y x"
    and "\<And>s x y. \<not> ifr x y \<Longrightarrow>
      fst (ep_execute SM (fst (ep_execute SM s x)) y) = fst (ep_execute SM (fst (ep_execute SM s y)) x)"
    and "p \<in> set rs" "q \<in> set rs" "executed (reps N p) = executed (reps N q)"
  shows "ep_sm (reps N p) = ep_sm (reps N q)"
proof -
  have "commuting SM ifr" using assms(3-5) by unfold_locales auto
  from commuting.converge [OF this assms(1,2,6-8)] show ?thesis .
qed

theorem ep_convergence_witness:
  "\<exists>N. ep_reach reg_sm [0, 1, 2] False [] N \<and> executed (reps N 0) = {Instance 0 0, Instance 1 0} \<and>
     executed (reps N 1) = {Instance 0 0, Instance 1 0} \<and> ep_sm (reps N 0) = ep_sm (reps N 1)"
proof (rule three_run_net)
  fix N assume N: "ep_reach reg_sm [0, 1, 2] False [] N"
    "\<And>i. i \<in> {0, 1, 2} \<Longrightarrow> executed (reps N i) = {Instance 0 0, Instance 1 0}"
  have e: "executed (reps N 0) = {Instance 0 0, Instance 1 0}" "executed (reps N 1) = {Instance 0 0, Instance 1 0}"
    using N(2) [of 0] N(2) [of 1] by simp_all
  have "length (sort_dedup [0, 1, 2 :: nat]) < 2 * fq [0, 1, 2]" by (simp add: fq_def sort_dedup_def)
  then have "ep_sm (reps N 0) = ep_sm (reps N 1)"
    by (rule ep_convergence [OF N(1) _ reg.interferes reg.ifr_sym reg.commute _ _ trans [OF e(1) e(2) [symmetric]]]) simp_all
  then show ?thesis using N(1) e by blast
qed

text \<open>
  C24: two replicas diverge.  In a group of two the fast quorum is zero, so a leader commits its
  own dependencies on the first reply whatever the reply says.  Two concurrent writes to one
  register then commit without depending on each other, and the replicas execute them in
  opposite orders and end in different states.
\<close>

theorem ep_two_replicas_diverge:
  "\<exists>N. ep_reach reg_sm [0, 1] False [] N \<and> executed (reps N 0) = executed (reps N 1) \<and>
     ep_sm (reps N 0) \<noteq> ep_sm (reps N 1)"
  by (rule two_run_net) fastforce

text \<open>
  C23: no message makes a replica panic or loop.  Every handler returns on every message in
  flight; in particular the eligibility fixpoint and the Tarjan loop of \<open>execute_committed\<close>
  terminate and every map lookup succeeds.
\<close>

theorem ep_handlers_return:
  assumes "ep_reach SM rs dup s0 N" "(f, t, m) \<in># flight N"
  shows "\<exists>r' outs. ep_on_message SM f m (reps N t) = Some (r', outs) \<and> rep_ok r'"
proof -
  note inv = ep_reach_inv [OF assms(1)]
  obtain r' outs where r': "ep_on_message SM f m (reps N t) = Some (r', outs)"
    using ep_no_panic [OF inv assms(2), of SM] by auto
  have t: "t \<in> set rs" by (rule ep_invD(3) [OF inv assms(2)])
  let ?N = "N\<lparr>reps := (reps N)(t := r'), flight := flight N - {#(f, t, m)#} + sent t outs,
      pre_votes := pre_votes N \<union> new_votes SM m (reps N t), counted := counted N \<union> new_counted f m\<rparr>"
  have "ep_step SM rs dup N ?N" using ep_step.ep_deliver [OF assms(2) _ r', of False dup rs] by simp
  then have "ep_inv rs ?N" using ep_step_ok [OF _ inv] by blast
  then show ?thesis using r' rep_invD(3) [OF ep_invD(1) [OF _ t]] by fastforce
qed

theorem ep_handlers_return_witness:
  "\<exists>N r' outs. ep_reach reg_sm [0, 1] True [] N \<and>
     (0, 1, PreAccept (Instance 0 0) 0 [7, 1] 1 {}) \<in># flight N \<and>
     ep_on_message reg_sm 0 (PreAccept (Instance 0 0) 0 [7, 1] 1 {}) (reps N 1) = Some (r', outs)"
proof -
  define N where "N = \<lparr>reps = (\<lambda>i. \<lparr>ep_id = i, ep_replicas = [0, 1], next_slot = 0, cmds = [], collects = [],
      ep_sm = [] :: (byte, bytes) btree\<rparr>), flight = {#}, pre_votes = {}, counted = {}\<rparr>"
  have r: "ep_reach reg_sm [0, 1] True [] N"
    by (rule ep_reach.ep_start) (auto simp: N_def ep_new_def sort_dedup_def)
  obtain r' outs where p: "ep_propose reg_sm [7, 1] (reps N 0) = (r', outs)" by (cases "ep_propose reg_sm [7, 1] (reps N 0)")
  have outs: "outs = [(1, PreAccept (Instance 0 0) 0 [7, 1] 1 {})]"
    using p by (auto simp: ep_propose_def N_def deps_and_seq_def Let_def ep_peers_def record_inst_def)
  let ?N = "N\<lparr>reps := (reps N)(0 := r'), flight := flight N + sent 0 outs,
      pre_votes := pre_votes N \<union> lead_vote reg_sm [7, 1] (reps N 0)\<rparr>"
  have r2: "ep_reach reg_sm [0, 1] True [] ?N" by (rule ep_reach.ep_more [OF r ep_step.ep_lead [OF _ p]]) simp
  have m: "(0, 1, PreAccept (Instance 0 0) 0 [7, 1] 1 {}) \<in># flight ?N" by (simp add: outs sent_def)
  show ?thesis using ep_handlers_return [OF r2 m] r2 m by blast
qed

text \<open>
  C21: \<open>execute_committed\<close> runs what is ready, once and in order.  On a well-formed command log it
  returns; it executes exactly the largest set of committed instances whose dependencies are
  executed or in the set, each once; and it never runs an instance before one it depends on,
  except inside a cycle, which runs in the order of sequence numbers.
\<close>

theorem ep_execute_order:
  assumes "cmds_wf (cmds r)" "exec_closed (cmds r)"
  shows "\<exists>order. execute_committed SM r = Some (r\<lparr>ep_sm := run_cmds SM (cmds r) order (ep_sm r),
      cmds := mark_executed order (cmds r)\<rparr>) \<and> distinct order \<and>
    (set order \<subseteq> committed_set (cmds r) \<and> dep_stable (cmds r) (set order) \<and>
     (\<forall>E. E \<subseteq> committed_set (cmds r) \<and> dep_stable (cmds r) E \<longrightarrow> E \<subseteq> set order)) \<and>
    sorted_wrt (\<lambda>a b. \<not> exec_before (cmds r) b a) order"
proof -
  have b: "bt_inv (cmds r)" using assms(1) by (simp add: cmds_wf_def)
  show ?thesis
    using execute_committed_eq [OF assms, of SM] exec_order_ok [OF assms] eligible_set_ok(2-4) [OF b]
    by (intro exI [of _ "exec_order (cmds r)"]) auto
qed

theorem ep_execute_order_witness:
  "\<exists>r' :: (byte, bytes) btree ep_replica.
     execute_committed reg_sm \<lparr>ep_id = 0, ep_replicas = [0], next_slot = 0,
       cmds = [(Instance 0 0, \<lparr>is_command = [7, 1], is_seq = 1, is_deps = {}, is_status = Committed, is_ballot = 0\<rparr>)],
       collects = [], ep_sm = []\<rparr> = Some r'"
proof -
  let ?m = "[(Instance 0 0, \<lparr>is_command = [7, 1], is_seq = 1, is_deps = {}, is_status = Committed, is_ballot = 0\<rparr>)]"
  have "cmds_wf ?m" "exec_closed ?m"
    by (auto simp: cmds_wf_def bt_inv_def bt_get_def exec_closed_def status_of_def split: if_splits)
  then show ?thesis
    using ep_execute_order [of "\<lparr>ep_id = 0, ep_replicas = [0], next_slot = 0, cmds = ?m, collects = [], ep_sm = []\<rparr>" reg_sm]
    by auto
qed

text \<open>
  C22: \<open>tarjan_scc\<close> computes the strongly connected components.  On a graph closed under
  successors the iterative algorithm returns a partition of the nodes into components, any two
  nodes of a component reach each other, and every edge leads to the same or an earlier component.
\<close>

theorem ep_tarjan:
  assumes "graph_ok V succ"
  shows "\<exists>cs. tarjan_scc V succ = Some cs \<and> set (concat cs) = V \<and> distinct (concat cs) \<and>
    (\<forall>c \<in> set cs. \<forall>x \<in> set c. \<forall>y \<in> set c. (x, y) \<in> (edge succ)\<^sup>*) \<and>
    (\<forall>p < length cs. \<forall>x \<in> set (cs ! p). \<forall>w. (x, w) \<in> edge succ \<longrightarrow> (\<exists>q \<le> p. w \<in> set (cs ! q)))"
  using tarjan_scc_ok [OF assms] unfolding sccs_ok_def .

theorem ep_tarjan_witness:
  "\<exists>cs. tarjan_scc {Instance 0 0, Instance 1 0} (\<lambda>_. Some [Instance 0 0]) = Some cs \<and>
     set (concat cs) = {Instance 0 0, Instance 1 0}"
proof -
  have "graph_ok {Instance 0 0, Instance 1 0} (\<lambda>_. Some [Instance 0 0])" by (simp add: graph_ok_def)
  then show ?thesis using ep_tarjan by blast
qed

end
