(* ===== verification/Frame.thy ===== *)
theory Frame
  imports Wire
begin

text \<open>
  Channels and framing of \<open>crates/cs-net\<close> (\<open>lib.rs\<close>, \<open>framing.rs\<close>): the six logical channels,
  the encoder of one frame and the streaming decoder.  The decoder is fed whatever pieces the
  transport reads; the lemmas show that the pieces do not matter.  Error texts are represented
  by the values they print.
\<close>

section \<open>Channels\<close>

datatype channel = Control | Consensus | Messages | Workflow | Bulk | Observability

primrec channel_tag :: "channel \<Rightarrow> nat" where
  "channel_tag Control = 0"
| "channel_tag Consensus = 1"
| "channel_tag Messages = 2"
| "channel_tag Workflow = 3"
| "channel_tag Bulk = 4"
| "channel_tag Observability = 5"

definition channel_all :: "channel list" where
  "channel_all = [Control, Consensus, Messages, Workflow, Bulk, Observability]"

primrec channel_name :: "channel \<Rightarrow> string" where
  "channel_name Control = ''control''"
| "channel_name Consensus = ''consensus''"
| "channel_name Messages = ''messages''"
| "channel_name Workflow = ''workflow''"
| "channel_name Bulk = ''bulk''"
| "channel_name Observability = ''observability''"

primrec priority :: "channel \<Rightarrow> int" where
  "priority Control = 10"
| "priority Consensus = 8"
| "priority Messages = 0"
| "priority Workflow = 0"
| "priority Bulk = -10"
| "priority Observability = -10"

datatype frame_fault = Oversized nat nat | Unknown_Tag nat

datatype transport_error =
    PeerClosed
  | Backpressure channel nat
  | Handshake string
  | Framing frame_fault
  | Tls string
  | Io string
  | NotImplemented

section \<open>Frames\<close>

abbreviation HEADER_LEN :: nat where
  "HEADER_LEN \<equiv> 5"

definition channel_from_tag :: "byte \<Rightarrow> channel option" where
  "channel_from_tag tag = find (\<lambda>c. of_nat (channel_tag c) = tag) channel_all"

text \<open>The length is cast to 32 bits.\<close>

definition encode_frame :: "channel \<Rightarrow> bytes \<Rightarrow> bytes \<Rightarrow> bytes" where
  "encode_frame c payload out = out @ [of_nat (channel_tag c)] @ be_bytes 4 (length payload) @ payload"

definition encode_frame_vec :: "channel \<Rightarrow> bytes \<Rightarrow> bytes" where
  "encode_frame_vec c payload = encode_frame c payload []"

record frame_decoder =
  fd_buf :: bytes
  fd_max :: nat

definition decoder_new :: "nat \<Rightarrow> frame_decoder" where
  "decoder_new m = \<lparr>fd_buf = [], fd_max = m\<rparr>"

definition decoder_push :: "bytes \<Rightarrow> frame_decoder \<Rightarrow> frame_decoder" where
  "decoder_push bs d = d\<lparr>fd_buf := fd_buf d @ bs\<rparr>"

definition buffered :: "frame_decoder \<Rightarrow> nat" where
  "buffered d = length (fd_buf d)"

definition next_frame :: "frame_decoder \<Rightarrow> ((channel \<times> bytes) option, transport_error) outcome \<times> frame_decoder" where
  "next_frame d =
     (let b = fd_buf d
      in if length b < HEADER_LEN then (Ok None, d)
         else let tag = b ! 0; len = be_value [b ! 1, b ! 2, b ! 3, b ! 4]
         in if fd_max d < len then (Err (Framing (Oversized len (fd_max d))), d)
         else case channel_from_tag tag of
                None \<Rightarrow> (Err (Framing (Unknown_Tag (unat tag))), d)
              | Some c \<Rightarrow>
                  if length b < HEADER_LEN + len then (Ok None, d)
                  else (Ok (Some (c, take len (drop HEADER_LEN b))), d\<lparr>fd_buf := drop (HEADER_LEN + len) b\<rparr>))"

text \<open>The loop of the stream readers: pull frames until more bytes are needed or the stream is malformed.\<close>

lemma next_frame_shrinks: "next_frame d = (Ok (Some f), d') \<Longrightarrow> length (fd_buf d') < length (fd_buf d)"
  by (auto simp: next_frame_def Let_def split: if_splits option.splits)

function pull_frames :: "frame_decoder \<Rightarrow> (channel \<times> bytes) list \<times> transport_error option \<times> frame_decoder" where
  "pull_frames d =
     (case next_frame d of
        (Ok (Some f), d') \<Rightarrow> (let (fs, e, d'') = pull_frames d' in (f # fs, e, d''))
      | (Ok None, d') \<Rightarrow> ([], None, d')
      | (Err e, d') \<Rightarrow> ([], Some e, d')
      | (Panic, d') \<Rightarrow> ([], None, d'))"
  by pat_completeness auto
termination
  by (relation "measure (\<lambda>d. length (fd_buf d))") (auto intro: next_frame_shrinks [OF sym])

declare pull_frames.simps [simp del]

text \<open>Reading a stream piece by piece; a malformed frame ends it.\<close>

fun read_stream :: "bytes list \<Rightarrow> frame_decoder \<Rightarrow> (channel \<times> bytes) list \<times> transport_error option \<times> frame_decoder" where
  "read_stream [] d = ([], None, d)"
| "read_stream (c # cs) d =
     (case pull_frames (decoder_push c d) of
        (fs, Some e, d') \<Rightarrow> (fs, Some e, d')
      | (fs, None, d') \<Rightarrow> (let (gs, e, d'') = read_stream cs d' in (fs @ gs, e, d'')))"

section \<open>The decoder and its buffer\<close>

lemma channel_from_tag_tag [simp]: "channel_from_tag (of_nat (channel_tag c)) = Some c"
  by (cases c) (simp_all add: channel_from_tag_def channel_all_def word_unat_eq_iff)

lemma set_channel_all [simp]: "set channel_all = UNIV"
  using channel.exhaust by (auto simp: channel_all_def)

lemma next_frame_no_panic [simp]: "next_frame d \<noteq> (Panic, d')"
  by (auto simp: next_frame_def Let_def split: option.splits)

lemma next_frame_stuck: "next_frame d = (Ok None, d') \<Longrightarrow> d' = d" "next_frame d = (Err e, d') \<Longrightarrow> d' = d"
  by (auto simp: next_frame_def Let_def split: if_splits option.splits)

lemma next_frame_append:
  "next_frame d = (Ok (Some f), d') \<Longrightarrow>
     next_frame (decoder_push bs d) = (Ok (Some f), decoder_push bs d')"
  "next_frame d = (Err e, d) \<Longrightarrow> next_frame (decoder_push bs d) = (Err e, decoder_push bs d)"
  by (auto simp: next_frame_def decoder_push_def Let_def nth_append split: if_splits option.splits)

lemma decoder_push_eq: "decoder_push bs d = \<lparr>fd_buf = fd_buf d @ bs, fd_max = fd_max d\<rparr>"
  by (cases d) (simp add: decoder_push_def)

lemma decoder_push_push [simp]: "decoder_push b (decoder_push a d) = decoder_push (a @ b) d"
  by (simp add: decoder_push_def)

lemma decoder_push_Nil [simp]: "decoder_push [] d = d"
  by (simp add: decoder_push_def)

lemma pull_frames_cases [case_names more wait bad]:
  assumes "\<And>f d'. next_frame d = (Ok (Some f), d') \<Longrightarrow> P"
    and "next_frame d = (Ok None, d) \<Longrightarrow> pull_frames d = ([], None, d) \<Longrightarrow> P"
    and "\<And>e. next_frame d = (Err e, d) \<Longrightarrow> pull_frames d = ([], Some e, d) \<Longrightarrow> P"
  shows P
proof (cases "next_frame d")
  case (Pair r d')
  show ?thesis
  proof (cases r)
    case (Ok f)
    show ?thesis
    proof (cases f)
      case None
      have "d' = d" by (rule next_frame_stuck(1)) (use Pair Ok None in simp)
      then show ?thesis using assms(2) Pair Ok None by (simp add: pull_frames.simps)
    qed (use assms(1) Pair Ok in simp)
  next
    case (Err e)
    have "d' = d" by (rule next_frame_stuck(2)) (use Pair Err in simp)
    then show ?thesis using assms(3) Pair Err by (simp add: pull_frames.simps)
  qed (use Pair next_frame_no_panic [of d d'] in simp)
qed

text \<open>Pulling everything early and the rest later is pulling everything at once.\<close>

lemma pull_frames_append:
  "pull_frames d = (fs, None, d') \<Longrightarrow> pull_frames (decoder_push bs d') = (gs, e, d'') \<Longrightarrow>
     pull_frames (decoder_push bs d) = (fs @ gs, e, d'')"
  "pull_frames d = (fs, Some e', d') \<Longrightarrow> pull_frames (decoder_push bs d) = (fs, Some e', decoder_push bs d')"
proof (induction d arbitrary: fs rule: pull_frames.induct)
  case (1 d)
  {
    case 1
    note pre = this
    show ?case
    proof (cases rule: pull_frames_cases [of d])
      case (more f d1)
      obtain fs1 where fs1: "pull_frames d1 = (fs1, None, d')" "fs = f # fs1"
        using pre(1) more by (auto simp: pull_frames.simps [of d] split: prod.splits)
      have "pull_frames (decoder_push bs d1) = (fs1 @ gs, e, d'')"
        using "1.IH"(1) [OF more [symmetric] refl refl fs1(1) pre(2)] .
      then show ?thesis
        using next_frame_append(1) [OF more, of bs] fs1(2) by (simp add: pull_frames.simps [of "decoder_push bs d"])
    qed (use pre in auto)
  next
    case 2
    note pre = this
    show ?case
    proof (cases rule: pull_frames_cases [of d])
      case (more f d1)
      obtain fs1 where fs1: "pull_frames d1 = (fs1, Some e', d')" "fs = f # fs1"
        using pre more by (auto simp: pull_frames.simps [of d] split: prod.splits)
      have "pull_frames (decoder_push bs d1) = (fs1, Some e', decoder_push bs d')"
        using "1.IH"(2) [OF more [symmetric] refl refl fs1(1)] .
      then show ?thesis
        using next_frame_append(1) [OF more, of bs] fs1(2) by (simp add: pull_frames.simps [of "decoder_push bs d"])
    next
      case (bad e)
      then show ?thesis
        using pre next_frame_append(2) [OF bad(1), of bs] by (simp add: pull_frames.simps [of "decoder_push bs d"])
    qed (use pre in auto)
  }
qed

lemma pull_frames_stuck: "pull_frames d = (fs, None, d') \<Longrightarrow> pull_frames d' = ([], None, d')"
proof (induction d arbitrary: fs rule: pull_frames.induct)
  case (1 d)
  show ?case
  proof (cases rule: pull_frames_cases [of d])
    case (more f d1)
    obtain fs1 where "pull_frames d1 = (fs1, None, d')"
      using "1.prems" more by (auto simp: pull_frames.simps [of d] split: prod.splits)
    from "1.IH" [OF more [symmetric] refl refl this] show ?thesis .
  qed (use "1.prems" in auto)
qed

text \<open>How the stream is cut does not matter.\<close>

lemma read_stream_concat:
  assumes "pull_frames d = ([], None, d)" "read_stream cs d = (fs, e, d')"
    and "pull_frames (decoder_push (concat cs) d) = (gs, e2, d2)"
  shows "gs = fs \<and> e2 = e \<and> (e = None \<longrightarrow> d2 = d')"
  using assms
proof (induction cs arbitrary: d fs gs e d' e2 d2)
  case (Cons c cs)
  obtain fs1 e1 d1 where p: "pull_frames (decoder_push c d) = (fs1, e1, d1)" by (cases "pull_frames (decoder_push c d)")
  show ?case
  proof (cases e1)
    case None
    obtain fs2 e' d3 where r: "read_stream cs d1 = (fs2, e', d3)" by (cases "read_stream cs d1")
    obtain gs1 e4 d4 where q: "pull_frames (decoder_push (concat cs) d1) = (gs1, e4, d4)"
      by (cases "pull_frames (decoder_push (concat cs) d1)")
    have st: "pull_frames d1 = ([], None, d1)" using pull_frames_stuck p None by blast
    have "pull_frames (decoder_push (concat (c # cs)) d) = (fs1 @ gs1, e4, d4)"
      using pull_frames_append(1) [OF p [unfolded None] q] by simp
    then show ?thesis using Cons.IH [OF st r q] Cons.prems(2,3) p None r by auto
  next
    case (Some x)
    then show ?thesis
      using pull_frames_append(2) [OF p [unfolded Some], of "concat cs"] Cons.prems(2,3) p by auto
  qed
qed auto

section \<open>Frames on the stream\<close>

definition fits :: "nat \<Rightarrow> channel \<times> bytes \<Rightarrow> bool" where
  "fits m f \<longleftrightarrow> length (snd f) \<le> m \<and> length (snd f) < 2 ^ 32"

abbreviation on_wire :: "(channel \<times> bytes) list \<Rightarrow> bytes" where
  "on_wire fs \<equiv> concat (map (\<lambda>(c, p). encode_frame_vec c p) fs)"

lemma be_bytes_4: "be_bytes 4 n = [of_nat (n div 256 div 256 div 256), of_nat (n div 256 div 256), of_nat (n div 256), of_nat n]"
proof -
  have "(4 :: nat) = Suc (Suc (Suc (Suc 0)))" by simp
  then show ?thesis by (simp only: be_bytes.simps append.simps)
qed

lemma drop_header: "drop (HEADER_LEN + length p) (t # b1 # b2 # b3 # b4 # p @ rest) = rest"
  using drop_drop [of "length p" HEADER_LEN "t # b1 # b2 # b3 # b4 # p @ rest"] by (simp add: add.commute)

lemma next_frame_encoded:
  assumes "fits (fd_max d) (c, p)" "fd_buf d = encode_frame_vec c p @ rest"
  shows "next_frame d = (Ok (Some (c, p)), d\<lparr>fd_buf := rest\<rparr>)"
proof -
  obtain b1 b2 b3 b4 where b: "be_bytes 4 (length p) = [b1, b2, b3, b4]" by (simp add: be_bytes_4)
  have "be_value [b1, b2, b3, b4] = length p"
    unfolding b [symmetric] using assms(1) by (intro be_value_bytes) (simp add: fits_def)
  then show ?thesis
    using assms by (simp add: next_frame_def encode_frame_vec_def encode_frame_def b Let_def fits_def drop_header)
qed

lemma next_frame_partial:
  assumes "fits (fd_max d) (c, p)" "strict_prefix (fd_buf d) (encode_frame_vec c p)"
  shows "next_frame d = (Ok None, d)"
proof (cases "length (fd_buf d) < HEADER_LEN")
  case True
  then show ?thesis by (simp add: next_frame_def Let_def)
next
  case False
  obtain b1 b2 b3 b4 where b: "be_bytes 4 (length p) = [b1, b2, b3, b4]" by (simp add: be_bytes_4)
  have v: "be_value [b1, b2, b3, b4] = length p"
    unfolding b [symmetric] using assms(1) by (intro be_value_bytes) (simp add: fits_def)
  obtain u where u: "encode_frame_vec c p = fd_buf d @ u" "u \<noteq> []"
    using assms(2) by (auto elim: strict_prefixE')
  have nth: "fd_buf d ! i = encode_frame_vec c p ! i" if "i < HEADER_LEN" for i
    using u(1) that False by (simp add: nth_append)
  have "length (fd_buf d) < HEADER_LEN + length p"
    using arg_cong [OF u(1), of length] u(2) by (simp add: encode_frame_vec_def encode_frame_def)
  then show ?thesis
    using False nth [of 0] nth [of 1] nth [of 2] nth [of 3] nth [of 4] v assms(1)
    by (simp add: next_frame_def Let_def encode_frame_vec_def encode_frame_def b fits_def)
qed

lemma pull_frames_encoded:
  assumes "list_all (fits m) fs" "\<And>d. fd_buf d = rest \<Longrightarrow> fd_max d = m \<Longrightarrow> next_frame d = (Ok None, d)"
  shows "pull_frames \<lparr>fd_buf = on_wire fs @ rest, fd_max = m\<rparr> = (fs, None, \<lparr>fd_buf = rest, fd_max = m\<rparr>)"
  using assms
proof (induction fs)
  case Nil
  then show ?case by (simp add: pull_frames.simps)
next
  case (Cons f fs)
  obtain c p where f: "f = (c, p)" by (cases f)
  have "next_frame \<lparr>fd_buf = on_wire (f # fs) @ rest, fd_max = m\<rparr>
      = (Ok (Some (c, p)), \<lparr>fd_buf = on_wire fs @ rest, fd_max = m\<rparr>)"
    using next_frame_encoded [of "\<lparr>fd_buf = on_wire (f # fs) @ rest, fd_max = m\<rparr>" c p "on_wire fs @ rest"] Cons.prems(1) f
    by simp
  then show ?case using Cons f by (simp add: pull_frames.simps [of "\<lparr>fd_buf = _ @ _, fd_max = m\<rparr>"])
qed

lemma on_wire_split:
  assumes "prefix b (on_wire fs)"
  obtains gs hs rest where "fs = gs @ hs" "b = on_wire gs @ rest"
    "rest = [] \<or> (\<exists>c p hs'. hs = (c, p) # hs' \<and> strict_prefix rest (encode_frame_vec c p))"
  using assms
proof (induction fs arbitrary: b thesis)
  case (Cons f fs)
  obtain c p where f: "f = (c, p)" by (cases f)
  from Cons.prems(2) consider "strict_prefix b (encode_frame_vec c p)"
    | b' where "b = encode_frame_vec c p @ b'" "prefix b' (on_wire fs)"
    unfolding f by (cases "b = encode_frame_vec c p") (auto simp: prefix_append strict_prefix_def)
  then show ?case
  proof cases
    case 1
    then show ?thesis using Cons.prems(1) [of "[]" "f # fs" b] f by auto
  next
    case 2
    show ?thesis
    proof (rule Cons.IH [OF _ 2(2)])
      fix gs hs rest
      assume "fs = gs @ hs" "b' = on_wire gs @ rest"
        "rest = [] \<or> (\<exists>c p hs'. hs = (c, p) # hs' \<and> strict_prefix rest (encode_frame_vec c p))"
      then show ?thesis using Cons.prems(1) [of "f # gs" hs rest] 2(1) f by simp
    qed
  qed
qed auto

text \<open>What has arrived of a stream of frames is decoded as far as it is complete; the rest stays buffered.\<close>

lemma pull_frames_prefix:
  assumes "list_all (fits m) fs" "prefix b (on_wire fs)"
  obtains gs hs rest where "pull_frames \<lparr>fd_buf = b, fd_max = m\<rparr> = (gs, None, \<lparr>fd_buf = rest, fd_max = m\<rparr>)"
    "fs = gs @ hs" "b = on_wire gs @ rest" "hs = [] \<Longrightarrow> rest = []"
proof -
  obtain gs hs rest where s: "fs = gs @ hs" "b = on_wire gs @ rest"
    "rest = [] \<or> (\<exists>c p hs'. hs = (c, p) # hs' \<and> strict_prefix rest (encode_frame_vec c p))"
    using on_wire_split [OF assms(2)] .
  have "pull_frames \<lparr>fd_buf = on_wire gs @ rest, fd_max = m\<rparr> = (gs, None, \<lparr>fd_buf = rest, fd_max = m\<rparr>)"
  proof (rule pull_frames_encoded)
    fix d :: frame_decoder
    assume d: "fd_buf d = rest" "fd_max d = m"
    from s(3) show "next_frame d = (Ok None, d)"
    proof
      assume "rest = []"
      then show ?thesis using d by (simp add: next_frame_def Let_def)
    next
      assume "\<exists>c p hs'. hs = (c, p) # hs' \<and> strict_prefix rest (encode_frame_vec c p)"
      then obtain c p hs' where h: "hs = (c, p) # hs'" "strict_prefix rest (encode_frame_vec c p)" by blast
      show ?thesis by (rule next_frame_partial [of d c p]) (use h d assms(1) s(1) in simp_all)
    qed
  qed (use assms(1) s(1) in simp)
  then show ?thesis using that s by blast
qed

section \<open>Claims\<close>



text \<open>
  A malformed header is refused before its payload arrives.  With five bytes in the buffer an
  unknown channel or a length above the maximum is an error, whatever follows.
\<close>

theorem malformed_header_refused:
  assumes "HEADER_LEN \<le> length (fd_buf d)"
    and "fd_max d < be_value (take 4 (drop 1 (fd_buf d))) \<or> channel_from_tag (fd_buf d ! 0) = None"
  shows "\<exists>e. next_frame (decoder_push later d) = (Err (Framing e), decoder_push later d)"
proof -
  obtain b0 b1 b2 b3 b4 r where b: "fd_buf d = b0 # b1 # b2 # b3 # b4 # r"
    using assms(1) by (auto simp: Suc_le_length_iff numeral_eq_Suc)
  then show ?thesis using assms by (auto simp: next_frame_def decoder_push_def Let_def split: option.splits)
qed

theorem malformed_header_refused_witness:
  "\<exists>e. next_frame (decoder_push [1, 2, 3] \<lparr>fd_buf = [0, 255, 255, 255, 255], fd_max = 1024\<rparr>)
     = (Err (Framing e), decoder_push [1, 2, 3] \<lparr>fd_buf = [0, 255, 255, 255, 255], fd_max = 1024\<rparr>)"
  by (rule malformed_header_refused) (simp_all add: be_value_def)

text \<open>
  C27: a payload of 4 GiB or more desynchronises the stream.  The encoder writes the length modulo
  \<open>2 ^ 32\<close>; the decoder returns an empty frame for a payload of exactly \<open>2 ^ 32\<close> bytes and takes the
  payload for the next headers.
\<close>

theorem oversized_payload_misread:
  assumes "length p = 2 ^ 32"
  shows "next_frame (decoder_push (encode_frame_vec c p) (decoder_new m)) = (Ok (Some (c, [])), \<lparr>fd_buf = p, fd_max = m\<rparr>)"
proof -
  have "be_bytes 4 (2 ^ 32 mod 256 ^ 4) = be_bytes 4 (2 ^ 32)" by (rule be_bytes_mod)
  then have "be_bytes 4 (length p) = [0, 0, 0, 0]" unfolding assms by (simp add: be_bytes_4)
  then show ?thesis
    by (simp add: next_frame_def decoder_push_def decoder_new_def encode_frame_vec_def encode_frame_def Let_def be_value_def)
qed

theorem oversized_payload_misread_witness:
  "next_frame (decoder_push (encode_frame_vec Bulk (replicate (2 ^ 32) 7)) (decoder_new 64))
     = (Ok (Some (Bulk, [])), \<lparr>fd_buf = replicate (2 ^ 32) 7, fd_max = 64\<rparr>)"
  by (rule oversized_payload_misread) (rule length_replicate)

end
