(* ===== verification/Transport.thy ===== *)
theory Transport
  imports Frame
begin

text \<open>
  The transport interface of \<open>crates/cs-net/src/lib.rs\<close> and its in-memory implementation (module
  \<open>sim\<close>).  A transport is a record of the trait's methods over the state \<open>'w\<close> they share; an
  endpoint of a pair reaches the pair through a link name, so one state holds a whole cluster.
  A registered inbound waker is represented by the number of times it was called.
\<close>

section \<open>The interface\<close>

record transport_config =
  control_high_watermark :: nat
  messages_high_watermark :: nat
  bulk_high_watermark :: nat
  max_frame_bytes :: nat

definition default_transport_config :: transport_config where
  "default_transport_config =
     \<lparr>control_high_watermark = 1024, messages_high_watermark = 16 * 1024, bulk_high_watermark = 64,
      max_frame_bytes = 16 * 1024 * 1024\<rparr>"

record 'w transport =
  tr_send :: "channel \<Rightarrow> bytes \<Rightarrow> 'w \<Rightarrow> (unit, transport_error) outcome \<times> 'w"
  tr_recv :: "channel \<Rightarrow> 'w \<Rightarrow> (bytes option, transport_error) outcome \<times> 'w"
  tr_label :: "'w \<Rightarrow> string"
  tr_is_closed :: "'w \<Rightarrow> bool"
  tr_close :: "'w \<Rightarrow> 'w"
  tr_set_waker :: "'w \<Rightarrow> 'w"

text \<open>\<open>while let Ok(Some(frame)) = t.try_recv(c)\<close>: the loop of the consensus drivers.\<close>

partial_function (option) drain :: "'w transport \<Rightarrow> channel \<Rightarrow> 'w \<Rightarrow> (bytes list \<times> 'w) option" where
  "drain T c w =
     (case tr_recv T c w of
        (Ok (Some f), w') \<Rightarrow> Option.bind (drain T c w') (\<lambda>(fs, w''). Some (f # fs, w''))
      | (_, w') \<Rightarrow> Some ([], w'))"

text \<open>
  What a receiver relies on: each transport has a queue per channel, a receive takes its first
  frame and disturbs no other queue, and an empty queue is answered by nothing or by the end of
  the stream.
\<close>

locale mailboxes =
  fixes T :: "'h \<Rightarrow> 'w transport" and pending :: "'h \<Rightarrow> channel \<Rightarrow> 'w \<Rightarrow> bytes list"
  assumes recv_some: "pending h c w = f # fs \<Longrightarrow>
      \<exists>w'. tr_recv (T h) c w = (Ok (Some f), w') \<and>
        (\<forall>h' c'. pending h' c' w' = (if h' = h \<and> c' = c then fs else pending h' c' w))"
    and recv_none: "pending h c w = [] \<Longrightarrow> tr_recv (T h) c w \<in> {(Ok None, w), (Err PeerClosed, w)}"
begin

lemma drain_all:
  "\<exists>w'. drain (T h) c w = Some (pending h c w, w') \<and>
     (\<forall>h' c'. pending h' c' w' = (if h' = h \<and> c' = c then [] else pending h' c' w))"
proof (induction "pending h c w" arbitrary: w)
  case Nil
  then show ?case using recv_none [of h c w] by (subst drain.simps) auto
next
  case (Cons f fs)
  obtain w' where w': "tr_recv (T h) c w = (Ok (Some f), w')"
    "\<forall>h' c'. pending h' c' w' = (if h' = h \<and> c' = c then fs else pending h' c' w)"
    using recv_some [OF Cons.hyps(2) [symmetric]] by blast
  then have p: "pending h c w' = fs" by simp
  from Cons.hyps(1) [OF p [symmetric]] obtain w'' where "drain (T h) c w' = Some (fs, w'')"
    "\<forall>h' c'. pending h' c' w'' = (if h' = h \<and> c' = c then [] else pending h' c' w')" using p by auto
  then show ?case using w' Cons.hyps(2) by (subst drain.simps) auto
qed

end

section \<open>The simulated transport\<close>

record sim_queues =
  sq_deque :: "channel \<Rightarrow> bytes list"
  sq_high :: "channel \<Rightarrow> nat"
  sq_waker :: "nat option"

fun sim_hwm :: "transport_config \<Rightarrow> channel \<Rightarrow> nat" where
  "sim_hwm cfg c =
     (case c of
        Control \<Rightarrow> control_high_watermark cfg | Consensus \<Rightarrow> control_high_watermark cfg
      | Messages \<Rightarrow> messages_high_watermark cfg | Workflow \<Rightarrow> messages_high_watermark cfg
      | Bulk \<Rightarrow> bulk_high_watermark cfg | Observability \<Rightarrow> bulk_high_watermark cfg)"

declare sim_hwm.simps [simp del]

definition sim_queues_new :: "transport_config \<Rightarrow> sim_queues" where
  "sim_queues_new cfg = \<lparr>sq_deque = (\<lambda>_. []), sq_high = sim_hwm cfg, sq_waker = None\<rparr>"

record sim_pair =
  sp_a_label :: string
  sp_b_label :: string
  sp_qa :: sim_queues
  sp_qb :: sim_queues
  sp_closed :: bool

definition sim_with_config :: "string \<Rightarrow> string \<Rightarrow> transport_config \<Rightarrow> sim_pair" where
  "sim_with_config a b cfg =
     \<lparr>sp_a_label = a, sp_b_label = b, sp_qa = sim_queues_new cfg, sp_qb = sim_queues_new cfg, sp_closed = False\<rparr>"

definition sim_new :: "string \<Rightarrow> string \<Rightarrow> sim_pair" where
  "sim_new a b = sim_with_config a b default_transport_config"

text \<open>The two endpoints of a pair; an endpoint reads its own queues and writes the other's.\<close>

datatype side = Side_A | Side_B

primrec other :: "side \<Rightarrow> side" where
  "other Side_A = Side_B"
| "other Side_B = Side_A"

primrec sim_inbound :: "side \<Rightarrow> sim_pair \<Rightarrow> sim_queues" where
  "sim_inbound Side_A P = sp_qa P"
| "sim_inbound Side_B P = sp_qb P"

primrec set_inbound :: "side \<Rightarrow> sim_queues \<Rightarrow> sim_pair \<Rightarrow> sim_pair" where
  "set_inbound Side_A q P = P\<lparr>sp_qa := q\<rparr>"
| "set_inbound Side_B q P = P\<lparr>sp_qb := q\<rparr>"

definition sim_send :: "side \<Rightarrow> channel \<Rightarrow> bytes \<Rightarrow> sim_pair \<Rightarrow> (unit, transport_error) outcome \<times> sim_pair" where
  "sim_send s c payload P =
     (if sp_closed P then (Err PeerClosed, P)
      else let q = sim_inbound (other s) P
           in if sq_high q c \<le> length (sq_deque q c)
              then (Err (Backpressure c (length (sq_deque q c))), P)
              else (Ok (), set_inbound (other s)
                     (q\<lparr>sq_deque := (sq_deque q)(c := sq_deque q c @ [payload]),
                        sq_waker := map_option Suc (sq_waker q)\<rparr>) P))"

definition sim_try_recv :: "side \<Rightarrow> channel \<Rightarrow> sim_pair \<Rightarrow> (bytes option, transport_error) outcome \<times> sim_pair" where
  "sim_try_recv s c P =
     (let q = sim_inbound s P
      in case sq_deque q c of
           frame # rest \<Rightarrow> (Ok (Some frame), set_inbound s (q\<lparr>sq_deque := (sq_deque q)(c := rest)\<rparr>) P)
         | [] \<Rightarrow> if sp_closed P then (Err PeerClosed, P) else (Ok None, P))"

definition sim_peer_label :: "side \<Rightarrow> sim_pair \<Rightarrow> string" where
  "sim_peer_label s P = (case s of Side_A \<Rightarrow> sp_b_label P | Side_B \<Rightarrow> sp_a_label P)"

definition sim_close :: "sim_pair \<Rightarrow> sim_pair" where
  "sim_close P = P\<lparr>sp_closed := True\<rparr>"

definition sim_set_waker :: "side \<Rightarrow> sim_pair \<Rightarrow> sim_pair" where
  "sim_set_waker s P = set_inbound s ((sim_inbound s P)\<lparr>sq_waker := Some 0\<rparr>) P"

text \<open>\<open>impl Transport for SimEndpoint\<close>, for side \<open>s\<close> of link \<open>l\<close>.\<close>

definition sim_endpoint :: "'l \<times> side \<Rightarrow> ('l \<Rightarrow> sim_pair) transport" where
  "sim_endpoint h = (case h of (l, s) \<Rightarrow>
     \<lparr>tr_send = (\<lambda>c p w. let (r, P) = sim_send s c p (w l) in (r, w(l := P))),
      tr_recv = (\<lambda>c w. let (r, P) = sim_try_recv s c (w l) in (r, w(l := P))),
      tr_label = (\<lambda>w. sim_peer_label s (w l)),
      tr_is_closed = (\<lambda>w. sp_closed (w l)),
      tr_close = (\<lambda>w. w(l := sim_close (w l))),
      tr_set_waker = (\<lambda>w. w(l := sim_set_waker s (w l)))\<rparr>)"

section \<open>Queues of a pair\<close>

abbreviation sim_queue :: "side \<Rightarrow> channel \<Rightarrow> sim_pair \<Rightarrow> bytes list" where
  "sim_queue s c P \<equiv> sq_deque (sim_inbound s P) c"

definition sim_pending :: "'l \<times> side \<Rightarrow> channel \<Rightarrow> ('l \<Rightarrow> sim_pair) \<Rightarrow> bytes list" where
  "sim_pending h c w = sim_queue (snd h) c (w (fst h))"

lemma other_other [simp]: "other (other s) = s"
  by (cases s) simp_all

lemma other_neq [simp]: "other s \<noteq> s" "s \<noteq> other s"
  by (cases s; simp)+

lemma side_cases: "t \<noteq> s \<Longrightarrow> t = other s" "t \<noteq> other s \<Longrightarrow> t = s"
  by (cases s; cases t; simp)+

lemma other_eq [simp]: "other s = other t \<longleftrightarrow> s = t"
  by (cases s; cases t) simp_all

lemma inbound_closed [simp]: "sim_inbound s (P\<lparr>sp_closed := b\<rparr>) = sim_inbound s P"
  by (cases s) simp_all

lemma inbound_set [simp]: "sim_inbound t (set_inbound s q P) = (if t = s then q else sim_inbound t P)"
  by (cases s; cases t) simp_all

lemma set_inbound_same [simp]: "set_inbound s (sim_inbound s P) P = P"
  by (cases s) simp_all

lemma set_inbound_closed [simp]: "sp_closed (set_inbound s q P) = sp_closed P"
  by (cases s) simp_all

interpretation sim_net: mailboxes sim_endpoint sim_pending
proof
  fix h :: "'l \<times> side" and c w f fs
  assume "sim_pending h c w = f # fs"
  then show "\<exists>w'. tr_recv (sim_endpoint h) c w = (Ok (Some f), w') \<and>
      (\<forall>h' c'. sim_pending h' c' w' = (if h' = h \<and> c' = c then fs else sim_pending h' c' w))"
    by (cases h) (auto simp: sim_endpoint_def sim_try_recv_def sim_pending_def Let_def)
next
  fix h :: "'l \<times> side" and c w
  assume "sim_pending h c w = []"
  then show "tr_recv (sim_endpoint h) c w \<in> {(Ok None, w), (Err PeerClosed, w)}"
    by (cases h) (auto simp: sim_endpoint_def sim_try_recv_def sim_pending_def Let_def)
qed

lemma sim_send_cases [case_names closed full sent]:
  assumes "sp_closed P \<Longrightarrow> sim_send s c p P = (Err PeerClosed, P) \<Longrightarrow> R"
    and "\<not> sp_closed P \<Longrightarrow> sq_high (sim_inbound (other s) P) c \<le> length (sim_queue (other s) c P) \<Longrightarrow>
      sim_send s c p P = (Err (Backpressure c (length (sim_queue (other s) c P))), P) \<Longrightarrow> R"
    and "\<And>P'. \<not> sp_closed P \<Longrightarrow> length (sim_queue (other s) c P) < sq_high (sim_inbound (other s) P) c \<Longrightarrow>
      sim_send s c p P = (Ok (), P') \<Longrightarrow> \<not> sp_closed P' \<Longrightarrow>
      (\<And>t d. sim_queue t d P' = (if t = other s \<and> d = c then sim_queue t d P @ [p] else sim_queue t d P)) \<Longrightarrow>
      (\<And>t. sq_high (sim_inbound t P') = sq_high (sim_inbound t P)) \<Longrightarrow> R"
  shows R
proof (cases "sp_closed P")
  case True
  then show ?thesis using assms(1) by (simp add: sim_send_def)
next
  case False
  show ?thesis
  proof (cases "sq_high (sim_inbound (other s) P) c \<le> length (sim_queue (other s) c P)")
    case True
    then show ?thesis using assms(2) False by (simp add: sim_send_def Let_def)
  next
    case notfull: False
    show ?thesis
    proof (rule assms(3) [OF False])
      show "sim_send s c p P = (Ok (), snd (sim_send s c p P))"
        using False notfull by (simp add: sim_send_def Let_def)
    qed (use False notfull in \<open>auto simp: sim_send_def Let_def not_le\<close>)
  qed
qed

section \<open>Runs of a pair\<close>

datatype sim_op = Op_Send side channel bytes | Op_Recv side channel | Op_Close | Op_Waker side

text \<open>\<open>sim_run\<close> also returns, per side and channel, the payloads accepted for sending and those received.\<close>

type_synonym traffic = "side \<Rightarrow> channel \<Rightarrow> bytes list"

definition log_at :: "side \<Rightarrow> channel \<Rightarrow> bytes \<Rightarrow> traffic \<Rightarrow> traffic" where
  "log_at s c p t = t(s := (t s)(c := t s c @ [p]))"

fun sim_do :: "sim_op \<Rightarrow> traffic \<times> traffic \<times> sim_pair \<Rightarrow> traffic \<times> traffic \<times> sim_pair" where
  "sim_do (Op_Send s c p) (acc, got, P) =
     (case sim_send s c p P of (Ok _, P') \<Rightarrow> (log_at s c p acc, got, P') | (_, P') \<Rightarrow> (acc, got, P'))"
| "sim_do (Op_Recv s c) (acc, got, P) =
     (case sim_try_recv s c P of (Ok (Some f), P') \<Rightarrow> (acc, log_at s c f got, P') | (_, P') \<Rightarrow> (acc, got, P'))"
| "sim_do Op_Close (acc, got, P) = (acc, got, sim_close P)"
| "sim_do (Op_Waker s) (acc, got, P) = (acc, got, sim_set_waker s P)"

definition sim_run :: "sim_op list \<Rightarrow> sim_pair \<Rightarrow> traffic \<times> traffic \<times> sim_pair" where
  "sim_run ops P = fold sim_do ops (\<lambda>_ _. [], \<lambda>_ _. [], P)"

definition fifo_inv :: "transport_config \<Rightarrow> traffic \<times> traffic \<times> sim_pair \<Rightarrow> bool" where
  "fifo_inv cfg st \<longleftrightarrow> (case st of (acc, got, P) \<Rightarrow> \<forall>s c.
     acc (other s) c = got s c @ sim_queue s c P \<and>
     length (sim_queue s c P) \<le> sim_hwm cfg c \<and> sq_high (sim_inbound s P) = sim_hwm cfg)"

lemma fifo_inv_step: "fifo_inv cfg st \<Longrightarrow> fifo_inv cfg (sim_do op st)"
proof (cases st)
  case (fields acc got P)
  assume inv: "fifo_inv cfg st"
  show ?thesis
  proof (cases op)
    case (Op_Send s c p)
    show ?thesis
    proof (cases rule: sim_send_cases [of P s c p])
      case (sent P')
      then show ?thesis using inv fields Op_Send unfolding fifo_inv_def by (auto simp: log_at_def)
    qed (use inv fields Op_Send in auto)
  next
    case (Op_Recv s c)
    show ?thesis
    proof (cases "sim_queue s c P")
      case Nil
      then show ?thesis using inv fields Op_Recv by (auto simp: sim_try_recv_def Let_def)
    next
      case (Cons f fs)
      then have "sim_try_recv s c P = (Ok (Some f), set_inbound s ((sim_inbound s P)\<lparr>sq_deque := (sq_deque (sim_inbound s P))(c := fs)\<rparr>) P)"
        by (simp add: sim_try_recv_def Let_def)
      moreover have "length fs \<le> sim_hwm cfg c" "acc (other s) c = got s c @ f # fs"
        using inv [unfolded fifo_inv_def fields case_prod_conv, rule_format, of s c] Cons by simp_all
      ultimately show ?thesis using inv fields Op_Recv Cons unfolding fifo_inv_def by (auto simp: log_at_def)
    qed
  next
    case Op_Close
    then show ?thesis using inv fields unfolding fifo_inv_def by (auto simp: sim_close_def)
  next
    case (Op_Waker s)
    then show ?thesis using inv fields unfolding fifo_inv_def by (auto simp: sim_set_waker_def)
  qed
qed

lemma fifo_inv_run: "fifo_inv cfg (sim_run ops (sim_with_config a b cfg))"
proof -
  have "sim_inbound s (sim_with_config a b cfg) = sim_queues_new cfg" for s
    by (cases s) (simp_all add: sim_with_config_def)
  then have "fifo_inv cfg (\<lambda>_ _. [], \<lambda>_ _. [], sim_with_config a b cfg)"
    by (simp add: fifo_inv_def sim_queues_new_def)
  then show ?thesis unfolding sim_run_def by (rule fold_invariant) (rule fifo_inv_step)
qed

section \<open>Claims\<close>

text \<open>
  C28: the simulated transport delivers each channel in order, exactly once.  After any calls on the two
  endpoints, the payloads a side had accepted on a channel are those the other side received on it
  followed by those still queued, and no queue exceeds the high watermark of its channel.
\<close>

theorem sim_fifo:
  "case sim_run ops (sim_with_config a b cfg) of (acc, got, P) \<Rightarrow>
     acc (other s) c = got s c @ sim_queue s c P \<and> length (sim_queue s c P) \<le> sim_hwm cfg c"
  using fifo_inv_run [of cfg ops a b] unfolding fifo_inv_def by (auto split: prod.splits)

text \<open>
  A close ends both directions but loses nothing.  On a closed pair every send is refused, every
  queued frame can still be received in order, and after the last one the receiver is told that
  the peer is gone.
\<close>

theorem sim_close_drains:
  assumes "sp_closed P"
  shows "sim_send s c p P = (Err PeerClosed, P) \<and>
    (\<exists>w. drain (sim_endpoint ((), t)) d (\<lambda>_. P) = Some (sim_queue t d P, w) \<and>
       tr_recv (sim_endpoint ((), t)) d w = (Err PeerClosed, w))"
proof -
  obtain w where w: "drain (sim_endpoint ((), t)) d (\<lambda>_. P) = Some (sim_pending ((), t) d (\<lambda>_. P), w)"
    "\<And>h' c'. sim_pending h' c' w = (if h' = ((), t) \<and> c' = d then [] else sim_pending h' c' (\<lambda>_. P))"
    using sim_net.drain_all [of "((), t)" d "\<lambda>_. P"] by auto
  have keeps: "sp_closed (w ())" if "drain (sim_endpoint ((), t)) d v = Some (fs, w)" "sp_closed (v ())" for v fs
    using that
  proof (induction fs arbitrary: v)
    case Nil
    then show ?case by (subst (asm) drain.simps) (auto simp: sim_endpoint_def sim_try_recv_def Let_def
        split: prod.splits outcome.splits option.splits list.splits Option.bind_splits)
  next
    case (Cons f fs)
    from Cons.prems(1) obtain v' where v': "tr_recv (sim_endpoint ((), t)) d v = (Ok (Some f), v')"
      "drain (sim_endpoint ((), t)) d v' = Some (fs, w)"
      by (subst (asm) drain.simps) (auto split: prod.splits outcome.splits option.splits Option.bind_splits)
    have "sp_closed (v' ())" using v'(1) Cons.prems(2)
      by (auto simp: sim_endpoint_def sim_try_recv_def Let_def split: list.splits prod.splits)
    from Cons.IH [OF v'(2) this] show ?case .
  qed
  have "sim_queue t d (w ()) = []" using w(2) [of "((), t)" d] by (simp add: sim_pending_def)
  moreover have "sp_closed (w ())" by (rule keeps [OF w(1)]) (use assms in simp)
  ultimately have "tr_recv (sim_endpoint ((), t)) d w = (Err PeerClosed, w)"
    by (simp add: sim_endpoint_def sim_try_recv_def Let_def fun_upd_idem)
  then show ?thesis using w(1) assms by (simp add: sim_send_def sim_pending_def)
qed

theorem sim_close_drains_witness:
  "sim_send Side_A Messages [9] (sim_close (sim_new ''a'' ''b'')) = (Err PeerClosed, sim_close (sim_new ''a'' ''b''))"
  by (rule conjunct1 [OF sim_close_drains [of _ Side_A Messages "[9]" Side_B Messages]]) (simp add: sim_close_def)

end
