(* ===== verification/Tcp.thy ===== *)
theory Tcp
  imports Transport
begin

text \<open>
  The TCP transport of \<open>crates/cs-net/src/lib.rs\<close> (module \<open>tcp\<close>).  A connection is two endpoints and
  two byte streams.  The tasks an endpoint spawns are steps: the writer frames one payload at a
  time in channel order, the reader takes any piece of the stream, reassembles and queues.  Steps of
  the two sides interleave freely; writes may fail half way, and either side may be closed or
  dropped at any time.  The receive delay \<open>CW_NET_DELAY_MS\<close> is taken at its default 0, and sockets and TLS
  are represented by the byte streams they carry.
\<close>

section \<open>Endpoints\<close>

record tcp_end =
  te_out :: "channel \<Rightarrow> bytes list"
  te_in :: "channel \<Rightarrow> bytes list"
  te_closed :: bool
  te_waker :: "nat option"
  te_dec :: frame_decoder
  te_reader :: bool
  te_writer :: bool

definition tcp_from_stream :: "transport_config \<Rightarrow> tcp_end" where
  "tcp_from_stream cfg =
     \<lparr>te_out = (\<lambda>_. []), te_in = (\<lambda>_. []), te_closed = False, te_waker = None,
      te_dec = decoder_new (max_frame_bytes cfg), te_reader = True, te_writer = True\<rparr>"

definition tcp_send :: "channel \<Rightarrow> bytes \<Rightarrow> tcp_end \<Rightarrow> (unit, transport_error) outcome \<times> tcp_end" where
  "tcp_send c p e =
     (if te_closed e then (Err PeerClosed, e)
      else (Ok (), e\<lparr>te_out := (te_out e)(c := te_out e c @ [p])\<rparr>))"

definition tcp_try_recv :: "channel \<Rightarrow> tcp_end \<Rightarrow> (bytes option, transport_error) outcome \<times> tcp_end" where
  "tcp_try_recv c e =
     (case te_in e c of
        f # fs \<Rightarrow> (Ok (Some f), e\<lparr>te_in := (te_in e)(c := fs)\<rparr>)
      | [] \<Rightarrow> if te_closed e then (Err PeerClosed, e) else (Ok None, e))"

definition tcp_close :: "tcp_end \<Rightarrow> tcp_end" where
  "tcp_close e = e\<lparr>te_closed := True\<rparr>"

definition tcp_set_waker :: "tcp_end \<Rightarrow> tcp_end" where
  "tcp_set_waker e = e\<lparr>te_waker := Some 0\<rparr>"

definition tcp_drop :: "tcp_end \<Rightarrow> tcp_end" where
  "tcp_drop e = e\<lparr>te_closed := True, te_reader := False, te_writer := False\<rparr>"

text \<open>The writer: the first frame of the first channel that has one.\<close>

definition tcp_pick :: "tcp_end \<Rightarrow> ((channel \<times> bytes) \<times> tcp_end) option" where
  "tcp_pick e =
     (case find (\<lambda>c. te_out e c \<noteq> []) channel_all of
        Some c \<Rightarrow> Some ((c, hd (te_out e c)), e\<lparr>te_out := (te_out e)(c := tl (te_out e c))\<rparr>)
      | None \<Rightarrow> None)"

text \<open>The reader: one \<open>read\<close> of the stream; the waker is called once when the batch decoded cleanly.\<close>

definition tcp_enqueue :: "(channel \<times> bytes) list \<Rightarrow> tcp_end \<Rightarrow> tcp_end" where
  "tcp_enqueue fs e = fold (\<lambda>(c, p) e. e\<lparr>te_in := (te_in e)(c := te_in e c @ [p])\<rparr>) fs e"

definition tcp_read :: "bytes \<Rightarrow> tcp_end \<Rightarrow> tcp_end" where
  "tcp_read chunk e =
     (let (fs, err, d) = pull_frames (decoder_push chunk (te_dec e));
          e1 = tcp_enqueue fs (e\<lparr>te_dec := d\<rparr>)
      in if err = None
         then if fs = [] then e1 else e1\<lparr>te_waker := map_option Suc (te_waker e1)\<rparr>
         else e1\<lparr>te_reader := False, te_closed := True\<rparr>)"

section \<open>Connections\<close>

record tcp_conn =
  tc_end :: "side \<Rightarrow> tcp_end"
  tc_wire :: "side \<Rightarrow> bytes"
  tc_sent :: traffic
  tc_got :: traffic

definition tcp_connected :: "transport_config \<Rightarrow> transport_config \<Rightarrow> tcp_conn" where
  "tcp_connected ca cb =
     \<lparr>tc_end = (\<lambda>s. tcp_from_stream (case s of Side_A \<Rightarrow> ca | Side_B \<Rightarrow> cb)), tc_wire = (\<lambda>_. []),
      tc_sent = (\<lambda>_ _. []), tc_got = (\<lambda>_ _. [])\<rparr>"

abbreviation put_end :: "side \<Rightarrow> tcp_end \<Rightarrow> tcp_conn \<Rightarrow> tcp_conn" where
  "put_end s e C \<equiv> C\<lparr>tc_end := (tc_end C)(s := e)\<rparr>"

text \<open>
  \<open>tc_wire s\<close> are the bytes side \<open>s\<close> has written and the other side has not read.  \<open>tc_sent\<close> and
  \<open>tc_got\<close> record the payloads accepted and received; no operation reads them.  \<open>ok\<close> restricts the
  payloads that are sent.
\<close>

inductive tcp_step :: "(channel \<times> bytes \<Rightarrow> bool) \<Rightarrow> tcp_conn \<Rightarrow> tcp_conn \<Rightarrow> bool" for ok where
  send_ok: "ok (c, p) \<Longrightarrow> tcp_send c p (tc_end C s) = (Ok (), e) \<Longrightarrow>
    tcp_step ok C ((put_end s e C)\<lparr>tc_sent := log_at s c p (tc_sent C)\<rparr>)"
| recv_ok: "tcp_try_recv c (tc_end C s) = (Ok (Some f), e) \<Longrightarrow>
    tcp_step ok C ((put_end s e C)\<lparr>tc_got := log_at s c f (tc_got C)\<rparr>)"
| close_end: "tcp_step ok C (put_end s (tcp_close (tc_end C s)) C)"
| set_waker: "tcp_step ok C (put_end s (tcp_set_waker (tc_end C s)) C)"
| drop_end: "tcp_step ok C (put_end s (tcp_drop (tc_end C s)) C)"
| write_ok: "te_writer (tc_end C s) \<Longrightarrow> tcp_pick (tc_end C s) = Some ((c, p), e) \<Longrightarrow>
    tcp_step ok C ((put_end s e C)\<lparr>tc_wire := (tc_wire C)(s := tc_wire C s @ encode_frame c p [])\<rparr>)"
| write_fails: "te_writer (tc_end C s) \<Longrightarrow> tcp_pick (tc_end C s) = Some ((c, p), e) \<Longrightarrow>
    prefix t (encode_frame c p []) \<Longrightarrow>
    tcp_step ok C ((put_end s (e\<lparr>te_closed := True, te_writer := False\<rparr>) C)\<lparr>tc_wire := (tc_wire C)(s := tc_wire C s @ t)\<rparr>)"
| flush_fails: "te_writer (tc_end C s) \<Longrightarrow> tcp_pick (tc_end C s) = None \<Longrightarrow>
    tcp_step ok C (put_end s ((tc_end C s)\<lparr>te_closed := True, te_writer := False\<rparr>) C)"
| writer_exits: "te_writer (tc_end C s) \<Longrightarrow> tcp_pick (tc_end C s) = None \<Longrightarrow> te_closed (tc_end C s) \<Longrightarrow>
    tcp_step ok C (put_end s ((tc_end C s)\<lparr>te_writer := False\<rparr>) C)"
| read_ok: "te_reader (tc_end C s) \<Longrightarrow> tc_wire C (other s) = chunk @ rest \<Longrightarrow> chunk \<noteq> [] \<Longrightarrow> length chunk \<le> 64 * 1024 \<Longrightarrow>
    tcp_step ok C ((put_end s (tcp_read chunk (tc_end C s)) C)\<lparr>tc_wire := (tc_wire C)(other s := rest)\<rparr>)"
| read_ends: "te_reader (tc_end C s) \<Longrightarrow>
    tcp_step ok C (put_end s ((tc_end C s)\<lparr>te_reader := False, te_closed := True\<rparr>) C)"

inductive tcp_reach :: "(channel \<times> bytes \<Rightarrow> bool) \<Rightarrow> transport_config \<Rightarrow> transport_config \<Rightarrow> tcp_conn \<Rightarrow> bool"
  for ok ca cb where
  start: "tcp_reach ok ca cb (tcp_connected ca cb)"
| step: "tcp_reach ok ca cb C \<Longrightarrow> tcp_step ok C C' \<Longrightarrow> tcp_reach ok ca cb C'"

section \<open>What is on the way\<close>

definition on_chan :: "channel \<Rightarrow> (channel \<times> bytes) list \<Rightarrow> bytes list" where
  "on_chan c fs = map snd (filter (\<lambda>f. fst f = c) fs)"

lemma on_chan_simps [simp]:
  "on_chan c [] = []" "on_chan c (f # fs) = (if fst f = c then [snd f] else []) @ on_chan c fs"
  "on_chan c (fs @ gs) = on_chan c fs @ on_chan c gs"
  by (simp_all add: on_chan_def)

lemma tcp_enqueue_fields [simp]:
  "te_in (tcp_enqueue fs e) c = te_in e c @ on_chan c fs"
  "te_out (tcp_enqueue fs e) = te_out e" "te_dec (tcp_enqueue fs e) = te_dec e"
  "te_closed (tcp_enqueue fs e) = te_closed e" "te_writer (tcp_enqueue fs e) = te_writer e"
  "te_reader (tcp_enqueue fs e) = te_reader e" "te_waker (tcp_enqueue fs e) = te_waker e"
  unfolding tcp_enqueue_def by (induction fs arbitrary: e) auto

lemma tcp_pick_SomeD:
  assumes "tcp_pick e = Some ((c, p), e')"
  shows "te_out e c = p # te_out e' c" "d \<noteq> c \<Longrightarrow> te_out e' d = te_out e d"
    "te_in e' = te_in e" "te_dec e' = te_dec e" "te_writer e' = te_writer e" "te_closed e' = te_closed e"
  using assms by (auto simp: tcp_pick_def find_Some_iff neq_Nil_conv split: option.splits)

text \<open>
  The direction out of side \<open>s\<close>: the frames \<open>fs\<close> are written, at least in part, and not decoded.
\<close>

definition flow_ok :: "nat \<Rightarrow> tcp_conn \<Rightarrow> side \<Rightarrow> (channel \<times> bytes) list \<Rightarrow> bool" where
  "flow_ok m C s fs \<longleftrightarrow>
     (let e = tc_end C s; r = tc_end C (other s); b = fd_buf (te_dec r) @ tc_wire C s
      in list_all (fits m) fs \<and> (\<forall>c p. p \<in> set (te_out e c) \<longrightarrow> fits m (c, p)) \<and>
         (\<forall>c. tc_sent C s c = tc_got C (other s) c @ te_in r c @ on_chan c fs @ te_out e c) \<and>
         fd_max (te_dec r) = m \<and> prefix b (on_wire fs) \<and> (te_writer e \<longrightarrow> b = on_wire fs) \<and>
         pull_frames (te_dec r) = ([], None, te_dec r))"

lemma flow_okD:
  assumes "flow_ok m C s fs"
  shows "list_all (fits m) fs" "p \<in> set (te_out (tc_end C s) c) \<Longrightarrow> fits m (c, p)"
    "tc_sent C s c = tc_got C (other s) c @ te_in (tc_end C (other s)) c @ on_chan c fs @ te_out (tc_end C s) c"
    "fd_max (te_dec (tc_end C (other s))) = m"
    "prefix (fd_buf (te_dec (tc_end C (other s))) @ tc_wire C s) (on_wire fs)"
    "te_writer (tc_end C s) \<Longrightarrow> fd_buf (te_dec (tc_end C (other s))) @ tc_wire C s = on_wire fs"
    "pull_frames (te_dec (tc_end C (other s))) = ([], None, te_dec (tc_end C (other s)))"
  using assms unfolding flow_ok_def Let_def by blast+

lemma flow_okI:
  assumes "list_all (fits m) fs" "\<And>c p. p \<in> set (te_out (tc_end C s) c) \<Longrightarrow> fits m (c, p)"
    "\<And>c. tc_sent C s c = tc_got C (other s) c @ te_in (tc_end C (other s)) c @ on_chan c fs @ te_out (tc_end C s) c"
    "fd_max (te_dec (tc_end C (other s))) = m"
    "prefix (fd_buf (te_dec (tc_end C (other s))) @ tc_wire C s) (on_wire fs)"
    "te_writer (tc_end C s) \<Longrightarrow> fd_buf (te_dec (tc_end C (other s))) @ tc_wire C s = on_wire fs"
    "pull_frames (te_dec (tc_end C (other s))) = ([], None, te_dec (tc_end C (other s)))"
  shows "flow_ok m C s fs"
  using assms unfolding flow_ok_def Let_def by blast

text \<open>A step that touches neither the direction's queues, its stream nor its decoder keeps it.\<close>

lemma flow_ok_frame:
  assumes "flow_ok m C s fs" "te_out (tc_end C' s) = te_out (tc_end C s)"
    "te_in (tc_end C' (other s)) = te_in (tc_end C (other s))" "te_dec (tc_end C' (other s)) = te_dec (tc_end C (other s))"
    "te_writer (tc_end C' s) \<Longrightarrow> te_writer (tc_end C s)" "tc_wire C' s = tc_wire C s"
    "tc_sent C' s = tc_sent C s" "tc_got C' (other s) = tc_got C (other s)"
  shows "flow_ok m C' s fs"
  using assms unfolding flow_ok_def by (auto simp: Let_def)

lemma flow_ok_flags:
  assumes "flow_ok m C s fs" "te_out e' = te_out (tc_end C t)" "te_in e' = te_in (tc_end C t)"
    "te_dec e' = te_dec (tc_end C t)" "te_writer e' \<longrightarrow> te_writer (tc_end C t)"
  shows "\<exists>fs. flow_ok m (put_end t e' C) s fs"
  by (rule exI [of _ fs], rule flow_ok_frame [OF assms(1)]) (use assms(2-) in \<open>auto split: if_splits\<close>)

lemma tcp_read_fields:
  assumes "pull_frames (decoder_push chunk (te_dec e)) = (gs, None, d)"
  shows "te_out (tcp_read chunk e) = te_out e" "te_in (tcp_read chunk e) c = te_in e c @ on_chan c gs"
    "te_dec (tcp_read chunk e) = d" "te_writer (tcp_read chunk e) = te_writer e"
  using assms by (simp_all add: tcp_read_def Let_def)

lemma tcp_read_frame: "te_out (tcp_read chunk e) = te_out e" "te_writer (tcp_read chunk e) = te_writer e"
  by (simp_all add: tcp_read_def Let_def split: prod.splits)

lemma flow_ok_read:
  assumes f: "flow_ok m C s fs" and w: "tc_wire C s = chunk @ rest"
  obtains hs where "flow_ok m ((put_end (other s) (tcp_read chunk (tc_end C (other s))) C)\<lparr>tc_wire := (tc_wire C)(s := rest)\<rparr>) s hs"
proof -
  note F = flow_okD [OF f]
  let ?d = "te_dec (tc_end C (other s))"
  have "prefix (fd_buf ?d @ chunk) (on_wire fs)"
    using F(5) w by (metis append.assoc append_prefixD)
  from pull_frames_prefix [OF F(1) this] obtain gs hs b where
    p: "pull_frames \<lparr>fd_buf = fd_buf ?d @ chunk, fd_max = m\<rparr> = (gs, None, \<lparr>fd_buf = b, fd_max = m\<rparr>)"
    and s: "fs = gs @ hs" "fd_buf ?d @ chunk = on_wire gs @ b" by blast
  have pull: "pull_frames (decoder_push chunk ?d) = (gs, None, \<lparr>fd_buf = b, fd_max = m\<rparr>)"
    using p F(4) by (simp add: decoder_push_eq)
  note R = tcp_read_fields [OF pull]
  have eq: "fd_buf ?d @ tc_wire C s = on_wire gs @ b @ rest" using s(2) w by (metis append.assoc)
  show ?thesis
  proof (rule that, rule flow_okI)
    show "list_all (fits m) hs" using F(1) s(1) by simp
  qed (use F eq s(1) R pull_frames_stuck [OF pull] in \<open>auto simp: prefix_append\<close>)
qed

lemma flow_ok_write:
  assumes f: "flow_ok m C s fs" and w: "te_writer (tc_end C s)" and p: "tcp_pick (tc_end C s) = Some ((c, p), e)"
    and u: "prefix u (encode_frame c p [])" and e': "te_out e' = te_out e" "te_in e' = te_in e" "te_dec e' = te_dec e"
      "te_writer e' \<Longrightarrow> u = encode_frame c p []"
  shows "flow_ok m ((put_end s e' C)\<lparr>tc_wire := (tc_wire C)(s := tc_wire C s @ u)\<rparr>) s (fs @ [(c, p)])"
proof -
  note F = flow_okD [OF f] and P = tcp_pick_SomeD [OF p]
  have eq: "fd_buf (te_dec (tc_end C (other s))) @ tc_wire C s @ x = on_wire fs @ x" for x
    using F(6) [OF w] by (metis append.assoc)
  have pf: "prefix (fd_buf (te_dec (tc_end C (other s))) @ tc_wire C s @ u) (on_wire fs @ encode_frame c p [])"
    unfolding eq using u by simp
  have "tc_sent C s d = tc_got C (other s) d @ te_in (tc_end C (other s)) d @ on_chan d (fs @ [(c, p)]) @ te_out e d" for d
    using F(3) [of d] P(1,2) by (cases "d = c") auto
  moreover have "fits m (d, q)" if "q \<in> set (te_out e d)" for d q
    using F(2) [of q d] P(1,2) that by (cases "d = c") auto
  moreover have "fits m (c, p)" using F(2) [of p c] P(1) by simp
  ultimately show ?thesis
  proof (intro flow_okI, goal_cases)
    case 5
    then show ?case using pf by (simp add: encode_frame_vec_def)
  next
    case 6
    then have "u = encode_frame c p []" using e'(4) by simp
    then show ?case using eq [of u] by (simp add: encode_frame_vec_def)
  qed (use F(1,4,7) e' in auto)
qed

lemma flow_ok_step:
  assumes "tcp_step ok C C'" "flow_ok m C s fs" and ok: "\<And>f. ok f \<Longrightarrow> fits m f"
  shows "\<exists>fs'. flow_ok m C' s fs'"
  using assms(1,2)
proof (induction rule: tcp_step.induct)
  case (send_ok c p C t e)
  note F = flow_okD [OF send_ok.prems]
  have e: "e = (tc_end C t)\<lparr>te_out := (te_out (tc_end C t))(c := te_out (tc_end C t) c @ [p])\<rparr>"
    using send_ok.hyps(2) by (auto simp: tcp_send_def split: if_splits)
  show ?case
  proof (cases "t = s")
    case True
    show ?thesis
      by (rule exI [of _ fs], rule flow_okI) (use F e True ok [OF send_ok.hyps(1)] in \<open>auto simp: log_at_def split: if_splits\<close>)
  next
    case False
    show ?thesis
      by (rule exI [of _ fs], rule flow_ok_frame [OF send_ok.prems]) (use e side_cases(1) [OF False] in \<open>auto simp: log_at_def\<close>)
  qed
next
  case (recv_ok c C t f e)
  note F = flow_okD [OF recv_ok.prems]
  have e: "te_in (tc_end C t) c = f # te_in e c" "\<And>d. d \<noteq> c \<Longrightarrow> te_in e d = te_in (tc_end C t) d"
    "te_out e = te_out (tc_end C t)" "te_dec e = te_dec (tc_end C t)" "te_writer e = te_writer (tc_end C t)"
    using recv_ok.hyps by (auto simp: tcp_try_recv_def split: list.splits if_splits)
  show ?case
  proof (cases "t = other s")
    case True
    show ?thesis
      by (rule exI [of _ fs], rule flow_okI) (use F e True in \<open>auto simp: log_at_def\<close>)
  next
    case False
    show ?thesis
      by (rule exI [of _ fs], rule flow_ok_frame [OF recv_ok.prems]) (use e side_cases(2) [OF False] in \<open>auto simp: log_at_def\<close>)
  qed
next
  case (write_ok C t c p e)
  show ?case
  proof (cases "t = s")
    case True
    have w: "te_writer (tc_end C s)" and p: "tcp_pick (tc_end C s) = Some ((c, p), e)" using write_ok.hyps True by auto
    show ?thesis using flow_ok_write [OF write_ok.prems w p, of "encode_frame c p []" e] True by auto
  next
    case False
    show ?thesis
      by (rule exI [of _ fs], rule flow_ok_frame [OF write_ok.prems])
        (use tcp_pick_SomeD(3-) [OF write_ok.hyps(2)] side_cases(1) [OF False] in auto)
  qed
next
  case (write_fails C t c p e u)
  show ?case
  proof (cases "t = s")
    case True
    have w: "te_writer (tc_end C s)" and p: "tcp_pick (tc_end C s) = Some ((c, p), e)" using write_fails.hyps True by auto
    show ?thesis
      using flow_ok_write [OF write_fails.prems w p write_fails.hyps(3), of "e\<lparr>te_closed := True, te_writer := False\<rparr>"] True by auto
  next
    case False
    show ?thesis
      by (rule exI [of _ fs], rule flow_ok_frame [OF write_fails.prems])
        (use tcp_pick_SomeD(3-) [OF write_fails.hyps(2)] side_cases(1) [OF False] in auto)
  qed
next
  case (read_ok C t chunk rest)
  show ?case
  proof (cases "t = other s")
    case True
    then show ?thesis using flow_ok_read [OF read_ok.prems, of chunk rest] read_ok.hyps(2) by auto
  next
    case False
    note t = side_cases(2) [OF False]
    show ?thesis
      by (rule exI [of _ fs], rule flow_ok_frame [OF read_ok.prems]) (use t in \<open>simp_all add: tcp_read_frame\<close>)
  qed
qed (erule flow_ok_flags; simp add: tcp_close_def tcp_set_waker_def tcp_drop_def)+

lemma flow_ok_reach:
  assumes "tcp_reach ok ca cb C" "\<And>f. ok f \<Longrightarrow> fits (max_frame_bytes ca) f \<and> fits (max_frame_bytes cb) f"
  shows "\<exists>fs. flow_ok (max_frame_bytes (case s of Side_A \<Rightarrow> cb | Side_B \<Rightarrow> ca)) C s fs"
  using assms(1)
proof (induction rule: tcp_reach.induct)
  case start
  show ?case
    by (rule exI [of _ "[]"], rule flow_okI)
      (cases s; simp add: tcp_connected_def tcp_from_stream_def decoder_new_def pull_frames.simps next_frame_def Let_def)+
next
  case (step C C')
  then obtain fs where "flow_ok (max_frame_bytes (case s of Side_A \<Rightarrow> cb | Side_B \<Rightarrow> ca)) C s fs" by blast
  then show ?case by (rule flow_ok_step [OF step.hyps(2)]) (use assms(2) in \<open>cases s; simp\<close>)
qed

section \<open>Endpoints as transports\<close>

text \<open>\<open>impl Transport for TcpTransport\<close>, for side \<open>s\<close> of link \<open>l\<close>.\<close>

definition tcp_endpoint :: "('l \<Rightarrow> side \<Rightarrow> string) \<Rightarrow> 'l \<times> side \<Rightarrow> ('l \<Rightarrow> side \<Rightarrow> tcp_end) transport" where
  "tcp_endpoint label h = (case h of (l, s) \<Rightarrow>
     let put = (\<lambda>w e. w(l := (w l)(s := e)))
     in \<lparr>tr_send = (\<lambda>c p w. let (r, e) = tcp_send c p (w l s) in (r, put w e)),
         tr_recv = (\<lambda>c w. let (r, e) = tcp_try_recv c (w l s) in (r, put w e)),
         tr_label = (\<lambda>w. label l s),
         tr_is_closed = (\<lambda>w. te_closed (w l s)),
         tr_close = (\<lambda>w. put w (tcp_close (w l s))),
         tr_set_waker = (\<lambda>w. put w (tcp_set_waker (w l s)))\<rparr>)"

definition tcp_pending :: "'l \<times> side \<Rightarrow> channel \<Rightarrow> ('l \<Rightarrow> side \<Rightarrow> tcp_end) \<Rightarrow> bytes list" where
  "tcp_pending h c w = te_in (w (fst h) (snd h)) c"

interpretation tcp_net: mailboxes "tcp_endpoint label" tcp_pending for label :: "'l \<Rightarrow> side \<Rightarrow> string"
proof
  fix h :: "'l \<times> side" and c w f fs
  assume "tcp_pending h c w = f # fs"
  then show "\<exists>w'. tr_recv (tcp_endpoint label h) c w = (Ok (Some f), w') \<and>
      (\<forall>h' c'. tcp_pending h' c' w' = (if h' = h \<and> c' = c then fs else tcp_pending h' c' w))"
    by (cases h) (auto simp: tcp_endpoint_def tcp_try_recv_def tcp_pending_def Let_def)
next
  fix h :: "'l \<times> side" and c w
  assume "tcp_pending h c w = []"
  then show "tr_recv (tcp_endpoint label h) c w \<in> {(Ok None, w), (Err PeerClosed, w)}"
    by (cases h) (auto simp: tcp_endpoint_def tcp_try_recv_def tcp_pending_def Let_def fun_upd_idem)
qed

section \<open>Claims\<close>

text \<open>
  C29: a TCP connection delivers each channel in order, exactly once.  However the two sides' calls, the
  writers, the network and the readers interleave, what was accepted on a channel is what the peer received,
  followed by what waits in its queue, what is on the way and what the sender still holds; nothing is lost
  on the way while the writer lives and the stream has been read, also when channels share the stream.
  Payloads must fit both sides' maximum frame size and the length field.
\<close>

theorem tcp_fifo:
  assumes "tcp_reach (\<lambda>f. fits (min (max_frame_bytes ca) (max_frame_bytes cb)) f) ca cb C"
  shows "\<exists>fs. tc_sent C (other r) c = tc_got C r c @ te_in (tc_end C r) c @ on_chan c fs @ te_out (tc_end C (other r)) c \<and>
    (te_writer (tc_end C (other r)) \<and> tc_wire C (other r) = [] \<longrightarrow> fs = [])"
proof -
  have "\<exists>fs. flow_ok (max_frame_bytes (case other r of Side_A \<Rightarrow> cb | Side_B \<Rightarrow> ca)) C (other r) fs"
    by (rule flow_ok_reach [OF assms]) (auto simp: fits_def)
  then obtain m fs where "flow_ok m C (other r) fs" by blast
  note F = flow_okD [OF this, unfolded other_other]
  have "fs = []" if w: "te_writer (tc_end C (other r))" "tc_wire C (other r) = []"
  proof (rule ccontr)
    assume "fs \<noteq> []"
    then obtain c p gs where fs: "fs = (c, p) # gs" by (cases fs) auto
    have "next_frame (te_dec (tc_end C r)) = (Ok (Some (c, p)), (te_dec (tc_end C r))\<lparr>fd_buf := on_wire gs\<rparr>)"
      by (rule next_frame_encoded) (use F(1,4) F(6) [OF w(1)] w(2) fs in auto)
    then show False using F(7) by (simp add: pull_frames.simps split: prod.splits)
  qed
  then show ?thesis using F(3) by blast
qed

text \<open>A frame sent, written and read on a fresh connection.\<close>

lemma tcp_one_frame:
  obtains C where "tcp_reach (\<lambda>f. fits (16 * 1024 * 1024) f) default_transport_config default_transport_config C"
    "tc_sent C Side_A Messages = [[7]]" "te_writer (tc_end C Side_A)" "tc_wire C Side_A = []"
    "te_out (tc_end C Side_A) Messages = []"
proof -
  let ?cfg = default_transport_config
  let ?ok = "\<lambda>f. fits (16 * 1024 * 1024) f"
  let ?C0 = "tcp_connected ?cfg ?cfg"
  let ?e0 = "tcp_from_stream ?cfg"
  let ?e1 = "?e0\<lparr>te_out := (te_out ?e0)(Messages := [[7]])\<rparr>"
  let ?C1 = "(put_end Side_A ?e1 ?C0)\<lparr>tc_sent := log_at Side_A Messages [7] (tc_sent ?C0)\<rparr>"
  let ?w = "encode_frame Messages [7] []"
  let ?C2 = "(put_end Side_A (?e1\<lparr>te_out := (te_out ?e1)(Messages := [])\<rparr>) ?C1)\<lparr>tc_wire := (tc_wire ?C1)(Side_A := tc_wire ?C1 Side_A @ ?w)\<rparr>"
  let ?C3 = "(put_end Side_B (tcp_read ?w (tc_end ?C2 Side_B)) ?C2)\<lparr>tc_wire := (tc_wire ?C2)(other Side_B := [])\<rparr>"
  have "tcp_step ?ok ?C0 ?C1"
    by (rule tcp_step.send_ok) (simp_all add: fits_def tcp_send_def tcp_connected_def tcp_from_stream_def)
  moreover have "tcp_step ?ok ?C1 ?C2"
    by (rule tcp_step.write_ok) (simp_all add: tcp_pick_def channel_all_def tcp_connected_def tcp_from_stream_def)
  moreover have "tcp_step ?ok ?C2 ?C3"
    by (rule tcp_step.read_ok) (simp_all add: tcp_connected_def tcp_from_stream_def encode_frame_def)
  ultimately have "tcp_reach ?ok ?cfg ?cfg ?C3" using tcp_reach.intros by meson
  then show ?thesis
    by (rule that) (simp_all add: tcp_connected_def tcp_from_stream_def log_at_def)
qed

theorem tcp_fifo_witness:
  "\<exists>C :: tcp_conn. tc_sent C Side_A Messages = [[7]] \<and> tc_got C Side_B Messages @ te_in (tc_end C Side_B) Messages = [[7]]"
proof (rule tcp_one_frame)
  fix C
  assume C: "tcp_reach (\<lambda>f. fits (16 * 1024 * 1024) f) default_transport_config default_transport_config C"
    "tc_sent C Side_A Messages = [[7]]" "te_writer (tc_end C Side_A)" "tc_wire C Side_A = []"
    "te_out (tc_end C Side_A) Messages = []"
  have "tcp_reach (\<lambda>f. fits (min (max_frame_bytes default_transport_config) (max_frame_bytes default_transport_config)) f)
      default_transport_config default_transport_config C"
    using C(1) by (simp add: default_transport_config_def)
  from tcp_fifo [OF this, of Side_B Messages] C(2-) show ?thesis by (intro exI [of _ C]) auto
qed

text \<open>
  C30: urgent channels are written first.  The frame the writer takes next is the oldest of its channel, and no
  channel of a higher priority has a frame waiting.
\<close>

theorem tcp_priority:
  assumes "tcp_pick e = Some ((c, p), e')"
  shows "te_out e c = p # te_out e' c \<and> {d. te_out e d \<noteq> [] \<and> priority c < priority d} = {}"
proof -
  obtain i where i: "find (\<lambda>c. te_out e c \<noteq> []) channel_all = Some c" "te_out e c \<noteq> []"
    using assms by (auto simp: tcp_pick_def find_Some_iff split: option.splits)
  have "priority d \<le> priority c" if "te_out e d \<noteq> []" for d
    using i that by (cases d; cases c) (auto simp: channel_all_def split: if_splits)
  then show ?thesis using tcp_pick_SomeD(1) [OF assms] by force
qed

theorem tcp_priority_witness:
  "te_out ((tcp_from_stream default_transport_config)\<lparr>te_out := (\<lambda>_. [])(Bulk := [[1]], Control := [[2]])\<rparr>) Control
     = [2] # te_out ((tcp_from_stream default_transport_config)\<lparr>te_out := (\<lambda>_. [])(Bulk := [[1]], Control := [])\<rparr>) Control"
  by (rule conjunct1 [OF tcp_priority]) (simp add: tcp_pick_def channel_all_def)

text \<open>
  A malformed frame silences the waker.  When a read brings complete frames followed by a malformed
  header, the frames are queued but the waker is not called, and the endpoint closes.
\<close>

theorem tcp_malformed_no_wake:
  assumes "pull_frames (decoder_push chunk (te_dec e)) = (fs, Some err, d)"
  shows "te_in (tcp_read chunk e) c = te_in e c @ on_chan c fs \<and> te_waker (tcp_read chunk e) = te_waker e \<and>
     te_closed (tcp_read chunk e)"
  using assms by (simp add: tcp_read_def Let_def)

theorem tcp_malformed_no_wake_witness:
  "let e = tcp_set_waker (tcp_from_stream default_transport_config);
       e' = tcp_read (encode_frame_vec Messages [7] @ [9, 0, 0, 0, 0]) e
   in te_in e' Messages = [[7]] \<and> te_waker e' = Some 0 \<and> te_closed e'"
proof -
  let ?m = "16777216 :: nat"
  let ?e = "tcp_set_waker (tcp_from_stream default_transport_config)"
  let ?chunk = "encode_frame_vec Messages [7] @ [9, 0, 0, 0, 0]"
  have d: "te_dec ?e = \<lparr>fd_buf = [], fd_max = ?m\<rparr>"
    by (simp add: tcp_set_waker_def tcp_from_stream_def decoder_new_def default_transport_config_def)
  have n: "next_frame \<lparr>fd_buf = ?chunk, fd_max = ?m\<rparr> = (Ok (Some (Messages, [7])), \<lparr>fd_buf = [9, 0, 0, 0, 0], fd_max = ?m\<rparr>)"
    using next_frame_encoded [of "\<lparr>fd_buf = ?chunk, fd_max = ?m\<rparr>" Messages "[7]" "[9, 0, 0, 0, 0]"] by (simp add: fits_def)
  have b: "next_frame \<lparr>fd_buf = [9, 0, 0, 0, 0], fd_max = ?m\<rparr> = (Err (Framing (Unknown_Tag 9)), \<lparr>fd_buf = [9, 0, 0, 0, 0], fd_max = ?m\<rparr>)"
    by (simp add: next_frame_def Let_def be_value_def channel_from_tag_def channel_all_def)
  have p: "pull_frames (decoder_push ?chunk (te_dec ?e))
      = ([(Messages, [7])], Some (Framing (Unknown_Tag 9)), \<lparr>fd_buf = [9, 0, 0, 0, 0], fd_max = ?m\<rparr>)"
    by (simp add: d decoder_push_eq pull_frames.simps [of "\<lparr>fd_buf = ?chunk, fd_max = ?m\<rparr>"] n
        pull_frames.simps [of "\<lparr>fd_buf = [9, 0, 0, 0, 0], fd_max = ?m\<rparr>"] b)
  from tcp_malformed_no_wake [OF p, of Messages] show ?thesis
    by (simp add: Let_def tcp_set_waker_def tcp_from_stream_def)
qed

end
