(* ===== verification/Driver.thy ===== *)
theory Driver
  imports Raft_Run Epaxos Codec Tcp
begin

text \<open>
  The drivers of \<open>crates/cs-consensus/src/driver.rs\<close>: the shims that connect a replica to its peers'
  transports and deliver commit notifications.  The transports are a parameter \<open>T\<close> (one record of
  methods per handle) over the state \<open>'w\<close> they share; the actors a notification goes to are names, and
  the notifications sent by a call are part of its result.  \<open>poll\<close> returns \<open>None\<close> where a decoder or a
  replica panics or a transport never stops returning frames.
\<close>

section \<open>The Raft driver\<close>

datatype notice =
    Applied_Notice (req_id: nat) (notice_result: bytes)
  | Committed_Notice (notice_index: index) (notice_command: bytes)

record ('s, 'h, 'a) raft_driver =
  drv_node :: "'s raft_node"
  drv_peers :: "(replica_id, 'h) btree"
  drv_pending :: "index \<rightharpoonup> 'a \<times> nat"
  drv_observer :: "'a option"
  notified_through :: index

definition drv_new :: "'s raft_node \<Rightarrow> ('s, 'h, 'a) raft_driver" where
  "drv_new n = \<lparr>drv_node = n, drv_peers = [], drv_pending = Map.empty, drv_observer = None, notified_through = last_applied n\<rparr>"

definition drv_add_peer :: "replica_id \<Rightarrow> 'h \<Rightarrow> ('s, 'h, 'a) raft_driver \<Rightarrow> ('s, 'h, 'a) raft_driver" where
  "drv_add_peer i h d = d\<lparr>drv_peers := bt_insert i h (drv_peers d)\<rparr>"

definition drv_set_observer :: "'a \<Rightarrow> ('s, 'h, 'a) raft_driver \<Rightarrow> ('s, 'h, 'a) raft_driver" where
  "drv_set_observer a d = d\<lparr>drv_observer := Some a\<rparr>"

text \<open>Encode and send each message to its peer; what a send returns is ignored.\<close>

definition drv_dispatch :: "('h \<Rightarrow> 'w transport) \<Rightarrow> (replica_id, 'h) btree \<Rightarrow> out list \<Rightarrow> 'w \<Rightarrow> 'w" where
  "drv_dispatch T ps outs w =
     fold (\<lambda>(t, m) w. case bt_get ps t of Some h \<Rightarrow> snd (tr_send (T h) Consensus (encode m) w) | None \<Rightarrow> w) outs w"

fun notify_one :: "applied \<Rightarrow> ('s, 'h, 'a) raft_driver \<times> ('a \<times> notice) list \<Rightarrow> ('s, 'h, 'a) raft_driver \<times> ('a \<times> notice) list" where
  "notify_one a (d, ns) =
     (if ap_index a \<le> notified_through d
      then (d\<lparr>drv_pending := (drv_pending d)(ap_index a := None)\<rparr>, ns)
      else let d1 = d\<lparr>notified_through := ap_index a\<rparr>;
               ns1 = (case drv_observer d of
                        Some obs \<Rightarrow> ns @ [(obs, Committed_Notice (ap_index a) (ap_command a))]
                      | None \<Rightarrow> ns)
           in case drv_pending d1 (ap_index a) of
                Some (reply, r) \<Rightarrow> (d1\<lparr>drv_pending := (drv_pending d1)(ap_index a := None)\<rparr>, ns1 @ [(reply, Applied_Notice r (ap_result a))])
              | None \<Rightarrow> (d1, ns1))"

definition notify_applied :: "('s, 'h, 'a) raft_driver \<Rightarrow> ('s, 'h, 'a) raft_driver \<times> ('a \<times> notice) list" where
  "notify_applied d =
     (let (n', applied) = take_applied (drv_node d) in fold notify_one applied (d\<lparr>drv_node := n'\<rparr>, []))"

definition drv_tick :: "'s state_machine \<Rightarrow> ('h \<Rightarrow> 'w transport) \<Rightarrow> ('s, 'h, 'a) raft_driver \<Rightarrow> 'w \<Rightarrow>
    (('s, 'h, 'a) raft_driver \<times> ('a \<times> notice) list) \<times> 'w" where
  "drv_tick SM T d w =
     (let (n', outs) = on_tick SM (drv_node d)
      in (notify_applied (d\<lparr>drv_node := n'\<rparr>), drv_dispatch T (drv_peers d) outs w))"

text \<open>\<open>poll\<close> first drains every peer in the order of the map, then feeds the node.\<close>

fun drain_peers :: "('h \<Rightarrow> 'w transport) \<Rightarrow> (replica_id, 'h) btree \<Rightarrow> 'w \<Rightarrow> ((replica_id \<times> bytes) list \<times> 'w) option" where
  "drain_peers T [] w = Some ([], w)"
| "drain_peers T ((i, h) # ps) w =
     Option.bind (drain (T h) Consensus w) (\<lambda>(fs, w1).
       Option.bind (drain_peers T ps w1) (\<lambda>(rest, w2). Some (map (Pair i) fs @ rest, w2)))"

fun feed_frames :: "'s state_machine \<Rightarrow> nat \<Rightarrow> ('h \<Rightarrow> 'w transport) \<Rightarrow> (replica_id \<times> bytes) list \<Rightarrow> nat \<Rightarrow>
    ('s, 'h, 'a) raft_driver \<Rightarrow> 'w \<Rightarrow> (('s, 'h, 'a) raft_driver \<times> nat \<times> 'w) option" where
  "feed_frames SM esz T [] k d w = Some (d, k, w)"
| "feed_frames SM esz T ((f, frame) # rest) k d w =
     (case decode esz frame of
        Ok m \<Rightarrow> (let (n', outs) = on_message SM f m (drv_node d)
                in feed_frames SM esz T rest (k + 1) (d\<lparr>drv_node := n'\<rparr>) (drv_dispatch T (drv_peers d) outs w))
      | Err _ \<Rightarrow> feed_frames SM esz T rest k d w
      | Panic \<Rightarrow> None)"

definition drv_poll :: "'s state_machine \<Rightarrow> nat \<Rightarrow> ('h \<Rightarrow> 'w transport) \<Rightarrow> ('s, 'h, 'a) raft_driver \<Rightarrow> 'w \<Rightarrow>
    ((('s, 'h, 'a) raft_driver \<times> ('a \<times> notice) list) \<times> nat \<times> 'w) option" where
  "drv_poll SM esz T d w =
     Option.bind (drain_peers T (drv_peers d) w) (\<lambda>(inbound, w1).
       Option.bind (feed_frames SM esz T inbound 0 d w1) (\<lambda>(d1, k, w2). Some (notify_applied d1, k, w2)))"

definition drv_propose :: "'s state_machine \<Rightarrow> ('h \<Rightarrow> 'w transport) \<Rightarrow> bytes \<Rightarrow> ('s, 'h, 'a) raft_driver \<Rightarrow> 'w \<Rightarrow>
    (('s, 'h, 'a) raft_driver \<times> ('a \<times> notice) list) \<times> index option \<times> 'w" where
  "drv_propose SM T c d w =
     (let (n', idx, outs) = propose SM c (drv_node d)
      in (notify_applied (d\<lparr>drv_node := n'\<rparr>), idx, drv_dispatch T (drv_peers d) outs w))"

definition propose_with_reply :: "'s state_machine \<Rightarrow> ('h \<Rightarrow> 'w transport) \<Rightarrow> bytes \<Rightarrow> 'a \<Rightarrow> nat \<Rightarrow> ('s, 'h, 'a) raft_driver \<Rightarrow> 'w \<Rightarrow>
    (('s, 'h, 'a) raft_driver \<times> ('a \<times> notice) list) \<times> index option \<times> 'w" where
  "propose_with_reply SM T c reply r d w =
     (let (n', idx, outs) = propose SM c (drv_node d);
          d1 = d\<lparr>drv_node := n'\<rparr>;
          d2 = (case idx of Some i \<Rightarrow> d1\<lparr>drv_pending := (drv_pending d1)(i \<mapsto> (reply, r))\<rparr> | None \<Rightarrow> d1)
      in (notify_applied d2, idx, drv_dispatch T (drv_peers d2) outs w))"

definition drv_read :: "'s state_machine \<Rightarrow> ('h \<Rightarrow> 'w transport) \<Rightarrow> nat \<Rightarrow> bytes \<Rightarrow> ('s, 'h, 'a) raft_driver \<Rightarrow> 'w \<Rightarrow>
    (('s, 'h, 'a) raft_driver \<times> ('a \<times> notice) list) \<times> 'w" where
  "drv_read SM T r q d w =
     (let (n', outs) = raft_read SM r q (drv_node d)
      in (notify_applied (d\<lparr>drv_node := n'\<rparr>), drv_dispatch T (drv_peers d) outs w))"

section \<open>The actor around it\<close>

text \<open>
  One period of \<open>spawn_raft_actor\<close>: the commands waiting in the mailbox, a tick and a poll.
\<close>

datatype 'a mail = Propose_Cmd bytes | ProposeReply_Cmd bytes 'a nat | Other_Mail

fun actor_command :: "'s state_machine \<Rightarrow> ('h \<Rightarrow> 'w transport) \<Rightarrow> 'a mail \<Rightarrow>
    (('s, 'h, 'a) raft_driver \<times> ('a \<times> notice) list) \<times> 'w \<Rightarrow> (('s, 'h, 'a) raft_driver \<times> ('a \<times> notice) list) \<times> 'w" where
  "actor_command SM T (Propose_Cmd c) ((d, ns), w) =
     (let ((d', ns'), _, w') = drv_propose SM T c d w in ((d', ns @ ns'), w'))"
| "actor_command SM T (ProposeReply_Cmd c reply r) ((d, ns), w) =
     (let ((d', ns'), _, w') = propose_with_reply SM T c reply r d w in ((d', ns @ ns'), w'))"
| "actor_command SM T Other_Mail st = st"

definition actor_period :: "'s state_machine \<Rightarrow> nat \<Rightarrow> ('h \<Rightarrow> 'w transport) \<Rightarrow> 'a mail list \<Rightarrow> ('s, 'h, 'a) raft_driver \<Rightarrow> 'w \<Rightarrow>
    ((('s, 'h, 'a) raft_driver \<times> ('a \<times> notice) list) \<times> 'w) option" where
  "actor_period SM esz T mailbox d w =
     (let ((d1, ns1), w1) = fold (actor_command SM T) mailbox ((d, []), w);
          ((d2, ns2), w2) = drv_tick SM T d1 w1
      in Option.bind (drv_poll SM esz T d2 w2) (\<lambda>((d3, ns3), k, w3). Some ((d3, ns1 @ ns2 @ ns3), w3)))"

section \<open>The EPaxos driver\<close>

record ('s, 'h) ep_driver =
  epd_node :: "'s ep_replica"
  epd_peers :: "(replica_id, 'h) btree"

definition epd_new :: "'s ep_replica \<Rightarrow> ('s, 'h) ep_driver" where
  "epd_new r = \<lparr>epd_node = r, epd_peers = []\<rparr>"

definition epd_add_peer :: "replica_id \<Rightarrow> 'h \<Rightarrow> ('s, 'h) ep_driver \<Rightarrow> ('s, 'h) ep_driver" where
  "epd_add_peer i h d = d\<lparr>epd_peers := bt_insert i h (epd_peers d)\<rparr>"

definition epd_dispatch :: "('h \<Rightarrow> 'w transport) \<Rightarrow> (replica_id, 'h) btree \<Rightarrow> ep_out list \<Rightarrow> 'w \<Rightarrow> 'w" where
  "epd_dispatch T ps outs w =
     fold (\<lambda>(t, m) w. case bt_get ps t of Some h \<Rightarrow> snd (tr_send (T h) Consensus (encode_epaxos m) w) | None \<Rightarrow> w) outs w"

definition epd_propose :: "'s ep_state_machine \<Rightarrow> ('h \<Rightarrow> 'w transport) \<Rightarrow> bytes \<Rightarrow> ('s, 'h) ep_driver \<Rightarrow> 'w \<Rightarrow> ('s, 'h) ep_driver \<times> 'w" where
  "epd_propose SM T c d w =
     (let (r', outs) = ep_propose SM c (epd_node d) in (d\<lparr>epd_node := r'\<rparr>, epd_dispatch T (epd_peers d) outs w))"

fun epd_feed :: "'s ep_state_machine \<Rightarrow> ('h \<Rightarrow> 'w transport) \<Rightarrow> (replica_id \<times> bytes) list \<Rightarrow> nat \<Rightarrow> ('s, 'h) ep_driver \<Rightarrow> 'w \<Rightarrow>
    (('s, 'h) ep_driver \<times> nat \<times> 'w) option" where
  "epd_feed SM T [] k d w = Some (d, k, w)"
| "epd_feed SM T ((f, frame) # rest) k d w =
     (case decode_epaxos frame of
        Ok m \<Rightarrow>
          (case ep_on_message SM f m (epd_node d) of
             None \<Rightarrow> None
           | Some (r', outs) \<Rightarrow> epd_feed SM T rest (k + 1) (d\<lparr>epd_node := r'\<rparr>) (epd_dispatch T (epd_peers d) outs w))
      | Err _ \<Rightarrow> epd_feed SM T rest k d w
      | Panic \<Rightarrow> None)"

definition epd_poll :: "'s ep_state_machine \<Rightarrow> ('h \<Rightarrow> 'w transport) \<Rightarrow> ('s, 'h) ep_driver \<Rightarrow> 'w \<Rightarrow> (('s, 'h) ep_driver \<times> nat \<times> 'w) option" where
  "epd_poll SM T d w =
     Option.bind (drain_peers T (epd_peers d) w) (\<lambda>(inbound, w1). epd_feed SM T inbound 0 d w1)"

section \<open>Commit notifications\<close>

text \<open>The indices announced to observers are increasing and bounded by \<open>notified_through\<close>.\<close>

definition committed_indices :: "('a \<times> notice) list \<Rightarrow> index list" where
  "committed_indices ns = concat (map (\<lambda>(a, n). case n of Committed_Notice i c \<Rightarrow> [i] | Applied_Notice _ _ \<Rightarrow> []) ns)"

lemma committed_indices_simps [simp]:
  "committed_indices [] = []" "committed_indices (ns @ ns') = committed_indices ns @ committed_indices ns'"
  "committed_indices ((a, Committed_Notice i c) # ns) = i # committed_indices ns"
  "committed_indices ((a, Applied_Notice r x) # ns) = committed_indices ns"
  by (simp_all add: committed_indices_def)

definition announced :: "index \<Rightarrow> ('a \<times> notice) list \<Rightarrow> index \<Rightarrow> bool" where
  "announced lo ns hi \<longleftrightarrow> lo \<le> hi \<and> sorted_wrt (<) (committed_indices ns) \<and> set (committed_indices ns) \<subseteq> {lo <.. hi}"

lemma announced_Nil [simp]: "announced lo [] lo"
  by (simp add: announced_def)

lemma announced_append: "announced a ns b \<Longrightarrow> announced b ns' c \<Longrightarrow> announced a (ns @ ns') c"
  by (fastforce simp: announced_def sorted_wrt_append)

lemma notify_one_announced:
  "announced lo ns (notified_through d) \<Longrightarrow> notify_one a (d, ns) = (d', ns') \<Longrightarrow> announced lo ns' (notified_through d')"
  by (fastforce simp: announced_def Let_def sorted_wrt_append split: if_splits option.splits)

lemma notify_fold_announced:
  "announced lo ns (notified_through d) \<Longrightarrow> fold notify_one as (d, ns) = (d', ns') \<Longrightarrow> announced lo ns' (notified_through d')"
proof (induction as arbitrary: d ns)
  case (Cons a as)
  obtain d1 ns1 where n: "notify_one a (d, ns) = (d1, ns1)" by (cases "notify_one a (d, ns)")
  from Cons.IH [OF notify_one_announced [OF Cons.prems(1) n]] Cons.prems(2) n show ?case by simp
qed simp

lemma notify_applied_announced:
  "notify_applied d = (d', ns) \<Longrightarrow> announced (notified_through d) ns (notified_through d')"
  using notify_fold_announced [of "notified_through d" "[]" "d\<lparr>drv_node := fst (take_applied (drv_node d))\<rparr>"]
  by (auto simp: notify_applied_def split: prod.splits)

lemma drv_announced:
  "fst (drv_propose SM T c d w) = (d', ns) \<Longrightarrow> announced (notified_through d) ns (notified_through d')"
  "fst (propose_with_reply SM T c reply r d w) = (d', ns) \<Longrightarrow> announced (notified_through d) ns (notified_through d')"
  "fst (drv_tick SM T d w) = (d', ns) \<Longrightarrow> announced (notified_through d) ns (notified_through d')"
  "fst (drv_read SM T rid q d w) = (d', ns) \<Longrightarrow> announced (notified_through d) ns (notified_through d')"
  by (auto simp: drv_propose_def propose_with_reply_def drv_tick_def drv_read_def Let_def
      dest!: notify_applied_announced split: prod.splits option.splits)

lemma feed_frames_notified: "feed_frames SM esz T fs k d w = Some (d', k', w') \<Longrightarrow> notified_through d' = notified_through d"
  by (induction SM esz T fs k d w rule: feed_frames.induct)
    (auto split: outcome.splits prod.splits)

lemma drv_poll_announced:
  "drv_poll SM esz T d w = Some ((d', ns), k, w') \<Longrightarrow> announced (notified_through d) ns (notified_through d')"
  by (auto simp: drv_poll_def split: Option.bind_splits dest!: feed_frames_notified notify_applied_announced)

lemma actor_command_announced:
  assumes "announced lo ns (notified_through d)" "actor_command SM T m ((d, ns), w) = ((d', ns'), w')"
  shows "announced lo ns' (notified_through d')"
proof (cases m)
  case (Propose_Cmd c)
  obtain d1 ns1 i w1 where "drv_propose SM T c d w = ((d1, ns1), i, w1)" by (metis prod.exhaust)
  then show ?thesis using assms Propose_Cmd announced_append [OF assms(1) drv_announced(1) [of SM T c d w]] by simp
next
  case (ProposeReply_Cmd c a r)
  obtain d1 ns1 i w1 where "propose_with_reply SM T c a r d w = ((d1, ns1), i, w1)" by (metis prod.exhaust)
  then show ?thesis using assms ProposeReply_Cmd announced_append [OF assms(1) drv_announced(2) [of SM T c a r d w]] by simp
qed (use assms in auto)

lemma actor_commands_announced:
  "announced lo ns (notified_through d) \<Longrightarrow> fold (actor_command SM T) ms ((d, ns), w) = ((d', ns'), w') \<Longrightarrow>
     announced lo ns' (notified_through d')"
proof (induction ms arbitrary: d ns w)
  case (Cons m ms)
  obtain d1 ns1 w1 where m: "actor_command SM T m ((d, ns), w) = ((d1, ns1), w1)" by (metis prod.exhaust)
  from Cons.IH [OF actor_command_announced [OF Cons.prems(1) m]] Cons.prems(2) m show ?case by simp
qed simp

lemma actor_period_announced:
  assumes "actor_period SM esz T mailbox d w = Some ((d', ns), w')"
  shows "announced (notified_through d) ns (notified_through d')"
proof -
  obtain d1 ns1 w1 where 1: "fold (actor_command SM T) mailbox ((d, []), w) = ((d1, ns1), w1)" by (metis prod.exhaust)
  obtain d2 ns2 w2 where 2: "drv_tick SM T d1 w1 = ((d2, ns2), w2)" by (metis prod.exhaust)
  obtain ns3 k where 3: "drv_poll SM esz T d2 w2 = Some ((d', ns3), k, w')" "ns = ns1 @ ns2 @ ns3"
    using assms 1 2 by (auto simp: actor_period_def split: Option.bind_splits)
  have "announced (notified_through d) ns1 (notified_through d1)"
    by (rule actor_commands_announced [OF _ 1]) simp
  moreover have "announced (notified_through d1) ns2 (notified_through d2)"
    by (rule drv_announced(3) [of SM T d1 w1]) (simp add: 2)
  ultimately show ?thesis unfolding 3(2) using drv_poll_announced [OF 3(1)] announced_append by blast
qed

text \<open>The actor's loop over a sequence of mailbox contents.\<close>

fun actor_run :: "'s state_machine \<Rightarrow> nat \<Rightarrow> ('h \<Rightarrow> 'w transport) \<Rightarrow> 'a mail list list \<Rightarrow> ('s, 'h, 'a) raft_driver \<Rightarrow> 'w \<Rightarrow>
    ((('s, 'h, 'a) raft_driver \<times> ('a \<times> notice) list) \<times> 'w) option" where
  "actor_run SM esz T [] d w = Some ((d, []), w)"
| "actor_run SM esz T (mb # mbs) d w =
     Option.bind (actor_period SM esz T mb d w) (\<lambda>((d1, ns1), w1).
       Option.bind (actor_run SM esz T mbs d1 w1) (\<lambda>((d2, ns2), w2). Some ((d2, ns1 @ ns2), w2)))"

lemma actor_run_announced:
  "actor_run SM esz T mbs d w = Some ((d', ns), w') \<Longrightarrow> announced (notified_through d) ns (notified_through d')"
proof (induction mbs arbitrary: d w ns)
  case (Cons mb mbs)
  then obtain d1 ns1 w1 ns2 where s: "actor_period SM esz T mb d w = Some ((d1, ns1), w1)"
    "actor_run SM esz T mbs d1 w1 = Some ((d', ns2), w')" "ns = ns1 @ ns2"
    by (auto split: Option.bind_splits)
  show ?case unfolding s(3) by (rule announced_append [OF actor_period_announced [OF s(1)] Cons.IH [OF s(2)]])
qed simp

section \<open>Messages between drivers\<close>

definition frame_ok :: "nat \<Rightarrow> message \<Rightarrow> bool" where
  "frame_ok esz m \<longleftrightarrow> msg_ok esz m \<and> length (encode m) < 2 ^ 63"

abbreviation feed_node :: "'s state_machine \<Rightarrow> (replica_id \<times> message) list \<Rightarrow> 's raft_node \<Rightarrow> 's raft_node" where
  "feed_node SM ms n \<equiv> fold (\<lambda>(f, m) n. fst (on_message SM f m n)) ms n"

lemma decode_frame_ok: "frame_ok esz m \<Longrightarrow> decode esz (encode m) = Ok m"
  using decode_encode [of esz m "[]"] by (simp add: frame_ok_def)

lemma feed_frames_encoded:
  assumes "\<And>f m. (f, m) \<in> set ms \<Longrightarrow> frame_ok esz m"
  shows "\<exists>w'. feed_frames SM esz T (map (\<lambda>(f, m). (f, encode m)) ms) k d w =
     Some (d\<lparr>drv_node := feed_node SM ms (drv_node d)\<rparr>, k + length ms, w')"
  using assms
proof (induction ms arbitrary: k d w)
  case (Cons x ms)
  obtain f m where x: "x = (f, m)" by (cases x)
  obtain n' outs where n: "on_message SM f m (drv_node d) = (n', outs)" by (cases "on_message SM f m (drv_node d)")
  have "frame_ok esz m" using Cons.prems [of f m] x by simp
  moreover obtain w' where "feed_frames SM esz T (map (\<lambda>(f, m). (f, encode m)) ms) (k + 1) (d\<lparr>drv_node := n'\<rparr>)
      (drv_dispatch T (drv_peers d) outs w) = Some (d\<lparr>drv_node := feed_node SM ms n'\<rparr>, k + 1 + length ms, w')"
    using Cons.IH [of "k + 1" "d\<lparr>drv_node := n'\<rparr>" "drv_dispatch T (drv_peers d) outs w"] Cons.prems by auto
  ultimately show ?case using x n by (simp add: decode_frame_ok)
qed simp

context mailboxes
begin

lemma drain_peers_all:
  assumes "distinct (map snd ps)"
  shows "\<exists>w'. drain_peers T ps w = Some (concat (map (\<lambda>(i, h). map (Pair i) (pending h Consensus w)) ps), w')"
  using assms
proof (induction ps arbitrary: w)
  case (Cons x ps)
  obtain i h where x: "x = (i, h)" by (cases x)
  obtain w1 where w1: "drain (T h) Consensus w = Some (pending h Consensus w, w1)"
    "\<And>h' c'. pending h' c' w1 = (if h' = h \<and> c' = Consensus then [] else pending h' c' w)"
    using drain_all [of h Consensus w] by auto
  have "map (\<lambda>(i, h). map (Pair i) (pending h Consensus w1)) ps = map (\<lambda>(i, h). map (Pair i) (pending h Consensus w)) ps"
    using Cons.prems x by (force simp: w1(2))
  note eq = this
  have "distinct (map snd ps)" using Cons.prems by simp
  from Cons.IH [OF this, of w1, unfolded eq] obtain w2 where
    "drain_peers T ps w1 = Some (concat (map (\<lambda>(i, h). map (Pair i) (pending h Consensus w)) ps), w2)" ..
  then show ?case using x w1(1) by simp
qed simp

lemma poll_delivers:
  assumes d: "distinct (map snd (drv_peers d))"
    and m: "\<And>i h. (i, h) \<in> set (drv_peers d) \<Longrightarrow> pending h Consensus w = map encode (ms h) \<and> list_all (frame_ok esz) (ms h)"
  shows "\<exists>w'. drv_poll SM esz T d w =
     Some (notify_applied (d\<lparr>drv_node := feed_node SM (concat (map (\<lambda>(i, h). map (Pair i) (ms h)) (drv_peers d))) (drv_node d)\<rparr>),
       length (concat (map (\<lambda>(i, h). ms h) (drv_peers d))), w')"
proof -
  let ?in = "concat (map (\<lambda>(i, h). map (Pair i) (ms h)) (drv_peers d))"
  obtain w1 where w1: "drain_peers T (drv_peers d) w =
      Some (concat (map (\<lambda>(i, h). map (Pair i) (pending h Consensus w)) (drv_peers d)), w1)"
    using drain_peers_all [OF d] by blast
  have "concat (map (\<lambda>(i, h). map (Pair i) (pending h Consensus w)) ps) = map (\<lambda>(f, m). (f, encode m)) (concat (map (\<lambda>(i, h). map (Pair i) (ms h)) ps))"
    if "set ps \<subseteq> set (drv_peers d)" for ps
    using that m by (induction ps) (auto simp: comp_def)
  from this [OF subset_refl] have eq: "concat (map (\<lambda>(i, h). map (Pair i) (pending h Consensus w)) (drv_peers d)) = map (\<lambda>(f, m). (f, encode m)) ?in" .
  have ok: "frame_ok esz mm" if "(f, mm) \<in> set ?in" for f mm
    using that m by (fastforce simp: list_all_iff)
  have len: "length ?in = length (concat (map (\<lambda>(i, h). ms h) (drv_peers d)))"
    by (induction "drv_peers d") (auto simp: length_concat comp_def split_def)
  have "\<exists>w2. feed_frames SM esz T (map (\<lambda>(f, m). (f, encode m)) ?in) 0 d w1 = Some (d\<lparr>drv_node := feed_node SM ?in (drv_node d)\<rparr>, 0 + length ?in, w2)"
    by (rule feed_frames_encoded) (erule ok)
  then obtain w2 where
    "feed_frames SM esz T (map (\<lambda>(f, m). (f, encode m)) ?in) 0 d w1 = Some (d\<lparr>drv_node := feed_node SM ?in (drv_node d)\<rparr>, length ?in, w2)"
    unfolding add_0 ..
  then show ?thesis unfolding drv_poll_def w1 eq len by simp
qed

end

end
