(* ===== verification/Driver_Claims.thy ===== *)
theory Driver_Claims
  imports Driver
begin

text \<open>
  Properties of the drivers: commit notifications come in order, messages dispatched on one side of
  a link are the messages the other side's node handles, and a proposer can be acknowledged for
  another leader's command.
\<close>

section \<open>A leader of a group of three\<close>

text \<open>The first leader of a fresh group, which has appended its no-op and heard from nobody.\<close>

definition young_leader :: "'s raft_node \<Rightarrow> bool" where
  "young_leader n \<longleftrightarrow> role n = Leader \<and> current_term n = 1 \<and> rn_id n = 1 \<and>
     log (store n) = [\<lparr>e_term = 1, e_index = 1, e_payload = Noop\<rparr>] \<and> st_base_index (store n) = 0 \<and>
     config n = Simple [1, 2, 3] \<and> base_config n = Simple [1, 2, 3] \<and> commit_index n = 0 \<and> last_applied n = 0 \<and>
     applied_outbox n = [] \<and> pending_reads n = [] \<and> match_index n = [3 \<mapsto> 0, 2 \<mapsto> 0] \<and>
     snapshot_threshold (cfg n) = 0"

lemmas log_eval = last_log_index_def last_index_def append_entries_def term_at_def entry_term_def slot_def
  base_index_def base_term_def peers_def is_quorum_def maj_def

lemma young_leader_propose:
  assumes "young_leader n"
  shows "\<exists>outs. propose SM c n = (n\<lparr>store := (store n)\<lparr>log := log (store n) @ [\<lparr>e_term = 1, e_index = 2, e_payload = Command c\<rparr>]\<rparr>,
      read_seq := read_seq n + 1\<rparr>, Some 2, outs)"
proof -
  note y = assms [unfolded young_leader_def]
  let ?e = "\<lparr>e_term = 1, e_index = 2, e_payload = Command c\<rparr>"
  let ?n1 = "n\<lparr>store := (store n)\<lparr>log := log (store n) @ [?e]\<rparr>\<rparr>"
  let ?n2 = "?n1\<lparr>read_seq := read_seq n + 1\<rparr>"
  have 1: "append_local (Command c) n = (?n1, 2)"
    using y by (simp add: append_local_def Let_def last_log_index_def last_index_def append_entries_def)
  obtain outs where 2: "broadcast_append ?n1 = (?n2, outs)" by (simp add: broadcast_append_def Let_def)
  have p: "peers ?n2 = [2, 3]" using y by (simp add: peers_def)
  have "acked_at ?n2 (Suc i) = {1}" for i using y by (simp add: acked_at_def p)
  then have c: "commit_step (Suc i) (?n2, False) = (?n2, False)" for i
    using y by (simp add: commit_step_def is_quorum_def maj_def)
  have "last_log_index ?n2 = 2" using y by (simp add: last_log_index_def last_index_def)
  then have "fold commit_step [Suc (commit_index ?n2)..<Suc (last_log_index ?n2)] (?n2, False) = (?n2, False)"
    using y c [of 0] c [of 1] by (simp add: numeral_2_eq_2 upt_rec)
  then have 3: "maybe_advance_commit SM ?n2 = ?n2" using y by (simp add: maybe_advance_commit_def)
  have r: "role n = Leader" using y by simp
  show ?thesis using 1 2 3 r by (simp add: propose_def)
qed

lemma new_pending_reads: "pending_reads (new_with_store i vs c s st) = []"
  by (simp add: new_with_store_def Let_def)

lemma young_leader_step3: "young_leader (fst run_step3)"
proof -
  let ?n = "fst run_step1"
  have 1: "role ?n = Candidate" "current_term ?n = 1" "rn_id ?n = 1" "config ?n = Simple [1, 2, 3]"
    "base_config ?n = Simple [1, 2, 3]" "log (store ?n) = []" "st_base_index (store ?n) = 0"
    "commit_index ?n = 0" "last_applied ?n = 0" "applied_outbox ?n = []" "pending_reads ?n = []"
    "cfg ?n = run_cfg" "votes ?n = {1}" "has_snapshot (store ?n) = False"
    by (simp_all add: run_step1_def run_eval new_pending_reads)
  let ?m = "?n\<lparr>votes := {2, 1}, role := Leader, leader_id := Some 1, heartbeat_elapsed := 0,
     next_index := [3 \<mapsto> 1, 2 \<mapsto> 1], match_index := [3 \<mapsto> 0, 2 \<mapsto> 0],
     store := (store ?n)\<lparr>log := [\<lparr>e_term = 1, e_index = 1, e_payload = Noop\<rparr>]\<rparr>\<rparr>"
  have p: "peers ?m = [2, 3]" using 1 by (simp add: peers_def)
  have "acked_at ?m 1 = {1}" using 1 by (simp add: acked_at_def p)
  then have "commit_step 1 (?m, False) = (?m, False)" using 1 by (simp add: commit_step_def is_quorum_def maj_def)
  then have 2: "maybe_advance_commit SM ?m = ?m" for SM :: "u64 state_machine"
    using 1 by (simp add: maybe_advance_commit_def last_log_index_def last_index_def)
  let ?c = "?n\<lparr>votes := {2, 1}\<rparr>"
  have p': "peers ?c = [2, 3]" using 1 by (simp add: peers_def)
  have l: "last_log_index ?c = 0" using 1 by (simp add: last_log_index_def last_index_def)
  have 4: "become_leader sum_sm ?c = broadcast_append ?m"
    using 1(2,3,6,7) p' l 2 by (simp add: become_leader_def Let_def append_local_def append_entries_def peers_def last_log_index_def last_index_def)
  have 5: "is_quorum ?c {2, 1}" using 1(4) by (simp add: is_quorum_def maj_def)
  have "run_step3 = become_leader sum_sm ?c"
    using 1(1,2,13) 5 by (simp add: run_step3_def handle_request_vote_resp_def Let_def)
  from this 4 have r: "run_step3 = broadcast_append ?m" by (rule trans)
  have 3: "fst run_step3 = ?m\<lparr>read_seq := read_seq ?n + 1\<rparr>" unfolding r by (simp add: broadcast_append_def Let_def)
  show ?thesis unfolding 3 young_leader_def using 1 by (simp add: run_cfg_def)
qed

lemma apply_noop_command:
  assumes "log (store n) = [\<lparr>e_term = t, e_index = 1, e_payload = Noop\<rparr>, \<lparr>e_term = t', e_index = 2, e_payload = Command c\<rparr>]"
    "st_base_index (store n) = 0" "commit_index n = 2" "last_applied n = 0" "applied_outbox n = []" "snapshot_threshold (cfg n) = 0"
  shows "applied_outbox (apply_committed SM n) = [\<lparr>ap_index = 1, ap_command = [], ap_result = []\<rparr>,
     \<lparr>ap_index = 2, ap_command = c, ap_result = snd (sm_apply SM (sm n) c)\<rparr>]"
proof -
  let ?n1 = "n\<lparr>last_applied := 1, applied_outbox := [\<lparr>ap_index = 1, ap_command = [], ap_result = []\<rparr>]\<rparr>"
  have 1: "apply_index SM (Suc 0) n = ?n1"
    using assms by (simp add: apply_index_def entry_at_def store_entry_def slot_def base_index_def Let_def)
  have 2: "apply_index SM 2 ?n1 = ?n1\<lparr>last_applied := 2, sm := fst (sm_apply SM (sm n) c),
      applied_outbox := applied_outbox ?n1 @ [\<lparr>ap_index = 2, ap_command = c, ap_result = snd (sm_apply SM (sm n) c)\<rparr>]\<rparr>"
    using assms by (simp add: apply_index_def entry_at_def store_entry_def slot_def base_index_def Let_def split: prod.splits)
  have "fold (apply_index SM) [Suc (last_applied n)..<Suc (commit_index n)] n = apply_index SM 2 ?n1"
    using assms 1 by (simp add: upt_rec numeral_2_eq_2)
  then show ?thesis using assms unfolding apply_committed_def 2
    by (simp add: maybe_compact_def serve_reads_def Let_def)
qed

text \<open>The deposed leader receives the new leader's entry for the index it proposed at.\<close>

lemma young_leader_deposed:
  assumes "young_leader n"
    and n': "n' = n\<lparr>store := (store n)\<lparr>log := log (store n) @ [\<lparr>e_term = 1, e_index = 2, e_payload = Command c\<rparr>]\<rparr>, read_seq := k\<rparr>"
    and m: "on_message SM 2 (AppendEntries 2 2 1 1 [\<lparr>e_term = 2, e_index = 2, e_payload = Command c'\<rparr>] 2 r) n' = (n2, outs)"
  shows "applied_outbox n2 = [\<lparr>ap_index = 1, ap_command = [], ap_result = []\<rparr>,
     \<lparr>ap_index = 2, ap_command = c', ap_result = snd (sm_apply SM (sm n) c')\<rparr>]"
proof -
  note y = assms(1) [unfolded young_leader_def]
  let ?e = "\<lparr>e_term = 2, e_index = 2, e_payload = Command c'\<rparr>"
  let ?n1 = "become_follower 2 (Some 2) n'"
  let ?n2 = "splice_entry ?e ?n1"
  have f: "log (store ?n1) = [\<lparr>e_term = 1, e_index = 1, e_payload = Noop\<rparr>, \<lparr>e_term = 1, e_index = 2, e_payload = Command c\<rparr>]"
    "st_base_index (store ?n1) = 0" "commit_index ?n1 = 0" "last_applied ?n1 = 0" "applied_outbox ?n1 = []"
    "sm ?n1 = sm n" "pending_reads ?n1 = []" "snapshot_threshold (cfg ?n1) = 0"
    using y n' by (simp_all add: become_follower_def persist_hard_state_def save_hard_state_def Let_def)
  have t: "term_at ?n1 1 = Some 1" "term_at ?n1 2 = Some 1"
    using f by (simp_all add: term_at_def entry_term_def slot_def base_index_def Let_def)
  have s: "store ?n2 = (store ?n1)\<lparr>log := [\<lparr>e_term = 1, e_index = 1, e_payload = Noop\<rparr>, ?e]\<rparr>"
    using f t by (simp add: splice_entry_def base_index_def append_entries_def truncate_suffix_def slot_def)
  have g: "commit_index ?n2 = 0" "last_applied ?n2 = 0" "applied_outbox ?n2 = []" "sm ?n2 = sm n" "pending_reads ?n2 = []"
    "snapshot_threshold (cfg ?n2) = 0"
    using f t by (simp_all add: splice_entry_def split: option.splits)
  let ?n3 = "persist_hard_state ((recompute_config ?n2)\<lparr>commit_index := 2\<rparr>)"
  have l: "last_log_index (recompute_config ?n2) = 2" using s f(2) by (simp add: last_log_index_def last_index_def recompute_config_def)
  have "n2 = apply_committed SM ?n3"
    using m y n' t g l by (simp add: handle_append_entries_def Let_def recompute_config_def)
  moreover have "log (store ?n3) = [\<lparr>e_term = 1, e_index = 1, e_payload = Noop\<rparr>, ?e]" "st_base_index (store ?n3) = 0"
    "commit_index ?n3 = 2" "last_applied ?n3 = 0" "applied_outbox ?n3 = []" "snapshot_threshold (cfg ?n3) = 0" "sm ?n3 = sm n"
    using s f g by (simp_all add: persist_hard_state_def save_hard_state_def recompute_config_def)
  ultimately show ?thesis using apply_noop_command [of ?n3 1 2 c' SM] by simp
qed

section \<open>Across a link\<close>

lemma notify_fold_peers: "drv_peers (fst (fold notify_one as (d, ns))) = drv_peers d"
proof (induction as arbitrary: d ns)
  case (Cons x as)
  obtain d1 ns1 where 1: "notify_one x (d, ns) = (d1, ns1)" by (cases "notify_one x (d, ns)")
  then have "drv_peers d1 = drv_peers d" by (auto simp: Let_def split: if_splits option.splits prod.splits)
  then show ?case using Cons.IH [of d1 ns1] 1 by simp
qed simp

lemma notify_peers [simp]: "drv_peers (fst (notify_applied d)) = drv_peers d"
  by (simp add: notify_applied_def notify_fold_peers split: prod.splits)

lemma solo_period:
  assumes "drv_peers d = []"
  shows "\<exists>d' ns w'. actor_period SM esz T [] d w = Some ((d', ns), w')"
proof -
  obtain d1 ns1 w1 where 1: "drv_tick SM T d w = ((d1, ns1), w1)" by (metis prod.exhaust)
  have "drv_peers (fst (fst (drv_tick SM T d w))) = []" using assms by (simp add: drv_tick_def split: prod.splits)
  then have "drv_poll SM esz T d1 w1 = Some (notify_applied d1, 0, w1)" using 1 by (simp add: drv_poll_def)
  moreover obtain d2 ns2 where "notify_applied d1 = (d2, ns2)" by (cases "notify_applied d1")
  ultimately have "actor_period SM esz T [] d w = Some ((d2, ns1 @ ns2), w1)" using 1 by (simp add: actor_period_def)
  then show ?thesis by blast
qed

abbreviation to_peer :: "replica_id \<Rightarrow> out list \<Rightarrow> message list" where
  "to_peer b outs \<equiv> map snd (filter (\<lambda>x. fst x = b) outs)"

lemma dispatch_queue:
  assumes "\<not> sp_closed (w l)"
    and "length (sim_pending (l, Side_B) Consensus w) + length (to_peer b outs) \<le> sq_high (sim_inbound Side_B (w l)) Consensus"
  shows "sim_pending (l, Side_B) Consensus (drv_dispatch sim_endpoint [(b, (l, Side_A))] outs w)
    = sim_pending (l, Side_B) Consensus w @ map encode (to_peer b outs)"
  using assms
proof (induction outs arbitrary: w)
  case (Cons x outs)
  obtain t m where x: "x = (t, m)" by (cases x)
  show ?case
  proof (cases "t = b")
    case True
    have room: "length (sim_queue Side_B Consensus (w l)) < sq_high (sim_inbound Side_B (w l)) Consensus"
      using Cons.prems(2) x True by (simp add: sim_pending_def)
    obtain P' where P': "sim_send Side_A Consensus (encode m) (w l) = (Ok (), P')" "\<not> sp_closed P'"
      "sim_queue Side_B Consensus P' = sim_queue Side_B Consensus (w l) @ [encode m]"
      "sq_high (sim_inbound Side_B P') = sq_high (sim_inbound Side_B (w l))"
      by (rule sim_send_cases [of "w l" Side_A Consensus "encode m"]) (use Cons.prems(1) room in \<open>auto simp del: sim_inbound.simps\<close>)
    define v where "v = w(l := P')"
    have v: "v l = P'" by (simp add: v_def)
    have "snd (tr_send (sim_endpoint (l, Side_A)) Consensus (encode m) w) = v" using P'(1) by (simp add: sim_endpoint_def v_def)
    then have "drv_dispatch sim_endpoint [(b, (l, Side_A))] (x # outs) w = drv_dispatch sim_endpoint [(b, (l, Side_A))] outs v"
      using x True by (simp add: drv_dispatch_def bt_get_def)
    then show ?thesis using Cons.IH [of v] P' Cons.prems(2) x True by (simp add: sim_pending_def v)
  next
    case False
    then show ?thesis using Cons.IH [of w] Cons.prems x by (simp add: drv_dispatch_def bt_get_def)
  qed
qed (simp add: drv_dispatch_def)

section \<open>Claims\<close>

text \<open>
  C31: messages cross a link unchanged and in order.  What a driver dispatches to a peer over an
  open link with room, encoded on the consensus channel, is exactly what the peer's next \<open>poll\<close>
  decodes and feeds to its node, from the right sender, and \<open>poll\<close> reports their number.
\<close>

theorem link_delivers:
  assumes "\<not> sp_closed (w l)" "sim_queue Side_B Consensus (w l) = []"
    and "length (to_peer b outs) \<le> sq_high (sim_inbound Side_B (w l)) Consensus"
    and "list_all (frame_ok esz) (to_peer b outs)" "drv_peers d = [(a, (l, Side_B))]"
  shows "\<exists>w'. drv_poll SM esz sim_endpoint d (drv_dispatch sim_endpoint [(b, (l, Side_A))] outs w) =
     Some (notify_applied (d\<lparr>drv_node := feed_node SM (map (Pair a) (to_peer b outs)) (drv_node d)\<rparr>), length (to_peer b outs), w')"
proof -
  let ?w = "drv_dispatch sim_endpoint [(b, (l, Side_A))] outs w"
  have "sim_pending (l, Side_B) Consensus ?w = map encode (to_peer b outs)"
    using dispatch_queue [of w l b outs] assms(1-3) by (simp add: sim_pending_def)
  then show ?thesis
    using sim_net.poll_delivers [of d ?w "\<lambda>_. to_peer b outs" esz SM] assms(4,5) by simp
qed

theorem link_delivers_witness:
  "\<exists>w'. drv_poll sum_sm 64 sim_endpoint (drv_add_peer 1 ((), Side_B) (drv_new (fresh_node 2) :: (u64, unit \<times> side, nat) raft_driver))
       (drv_dispatch sim_endpoint [(2, ((), Side_A))] [(2, RequestVote 1 1 0 0), (3, RequestVote 1 1 0 0)] (\<lambda>_. sim_new ''a'' ''b'')) =
     Some (notify_applied (drv_add_peer 1 ((), Side_B) (drv_new (fresh_node 2))\<lparr>drv_node := fst run_step2\<rparr>), 1, w')"
proof -
  let ?d = "drv_add_peer 1 ((), Side_B) (drv_new (fresh_node 2)) :: (u64, unit \<times> side, nat) raft_driver"
  have "length (encode (RequestVote 1 1 0 0)) < 2 ^ 63" by (simp add: put_u8_def put_u64_def)
  then have "list_all (frame_ok 64) (to_peer 2 [(2, RequestVote 1 1 0 0), (3, RequestVote 1 1 0 0)])"
    by (simp add: frame_ok_def)
  from link_delivers [OF _ _ _ this, of "\<lambda>_. sim_new ''a'' ''b''" "()" ?d 1 sum_sm] show ?thesis
    by (simp add: sim_new_def sim_with_config_def sim_queues_new_def sim_hwm.simps default_transport_config_def
        drv_add_peer_def drv_new_def run_step2_def)
qed

text \<open>
  C32: observers hear of commits in order.  Over any number of periods of the actor, whatever
  its mailbox and its peers bring, the indices announced to the commit observer are strictly
  increasing, start above the last index announced before, and end at or below \<open>notified_through\<close>.
\<close>

theorem observer_in_order:
  assumes "actor_run SM esz T mbs d w = Some ((d', ns), w')"
  shows "sorted_wrt (<) (committed_indices ns) \<and> set (committed_indices ns) \<subseteq> {notified_through d <.. notified_through d'}"
  using actor_run_announced [OF assms] unfolding announced_def by blast

theorem observer_in_order_witness:
  "\<exists>d' :: (u64, unit, nat) raft_driver. \<exists>ns w'.
     actor_run sum_sm 64 (\<lambda>_. sim_endpoint ((), Side_A)) [[]]
       (drv_set_observer 7 (drv_new (raft_new 1 [1] run_cfg 0))) (\<lambda>_. sim_new ''a'' ''b'') = Some ((d', ns), w') \<and>
     sorted_wrt (<) (committed_indices ns)"
proof -
  let ?T = "\<lambda>_ :: unit. sim_endpoint ((), Side_A)"
  let ?d = "drv_set_observer 7 (drv_new (raft_new 1 [1] run_cfg 0)) :: (u64, unit, nat) raft_driver"
  have "drv_peers ?d = []" by (simp add: drv_set_observer_def drv_new_def)
  from solo_period [OF this, of sum_sm 64 ?T "\<lambda>_. sim_new ''a'' ''b''"] obtain d' ns w' where
    "actor_run sum_sm 64 ?T [[]] ?d (\<lambda>_. sim_new ''a'' ''b'') = Some ((d', ns), w')" by auto
  note a = this
  show ?thesis using a observer_in_order [OF a] by blast
qed

text \<open>
  C33: a proposer can be acknowledged for another command.  A leader records a proposal at its index; when
  it is deposed and the new leader's entry for that index commits instead, the driver still finds
  the record and sends the proposer an acknowledgement with the result of the other command.
\<close>

theorem stale_proposal_acked:
  assumes "young_leader n" "c \<noteq> c'"
  shows "\<exists>d1 d2 outs w1. propose_with_reply SM T c a r (drv_new n) w = ((d1, []), Some 2, w1) \<and>
     on_message SM 2 (AppendEntries 2 2 1 1 [\<lparr>e_term = 2, e_index = 2, e_payload = Command c'\<rparr>] 2 s) (drv_node d1) = (drv_node d2, outs) \<and>
     d2 = d1\<lparr>drv_node := drv_node d2\<rparr> \<and>
     snd (notify_applied d2) = [(a, Applied_Notice r (snd (sm_apply SM (sm n) c')))]"
proof -
  let ?n1 = "n\<lparr>store := (store n)\<lparr>log := log (store n) @ [\<lparr>e_term = 1, e_index = 2, e_payload = Command c\<rparr>]\<rparr>, read_seq := read_seq n + 1\<rparr>"
  let ?m = "AppendEntries 2 2 1 1 [\<lparr>e_term = 2, e_index = 2, e_payload = Command c'\<rparr>] 2 s"
  have y: "applied_outbox n = []" "last_applied n = 0" using assms(1) by (simp_all add: young_leader_def)
  obtain outs1 where p: "propose SM c n = (?n1, Some 2, outs1)" using young_leader_propose [OF assms(1)] by blast
  obtain n2 outs where m: "on_message SM 2 ?m ?n1 = (n2, outs)" by (cases "on_message SM 2 ?m ?n1")
  note o = young_leader_deposed [OF assms(1) refl m]
  let ?d1 = "\<lparr>drv_node = ?n1, drv_peers = [], drv_pending = [2 \<mapsto> (a, r)], drv_observer = None, notified_through = 0\<rparr>"
  have 1: "propose_with_reply SM T c a r (drv_new n) w = ((?d1, []), Some 2, drv_dispatch T [] outs1 w)"
    using p y by (simp add: propose_with_reply_def drv_new_def notify_applied_def take_applied_def Let_def)
  have 2: "snd (notify_applied (?d1\<lparr>drv_node := n2\<rparr>)) = [(a, Applied_Notice r (snd (sm_apply SM (sm n) c')))]"
    using o by (simp add: notify_applied_def take_applied_def Let_def)
  show ?thesis
    by (rule exI [of _ ?d1], rule exI [of _ "?d1\<lparr>drv_node := n2\<rparr>"]) (use 1 2 m in auto)
qed

theorem stale_proposal_acked_witness:
  "\<exists>d1 d2 :: (u64, unit, nat) raft_driver. \<exists>outs w1.
     propose_with_reply sum_sm (\<lambda>_ :: unit. sim_endpoint ((), Side_A)) [1] (7 :: nat) 42 (drv_new (fst run_step3)) (\<lambda>_. sim_new ''a'' ''b'') = ((d1, []), Some 2, w1) \<and>
     on_message sum_sm 2 (AppendEntries 2 2 1 1 [\<lparr>e_term = 2, e_index = 2, e_payload = Command [9]\<rparr>] 2 0) (drv_node d1) = (drv_node d2, outs) \<and>
     snd (notify_applied d2) = [(7, Applied_Notice 42 (snd (sm_apply sum_sm (sm (fst run_step3)) [9])))]"
proof -
  have "[1] \<noteq> [9 :: byte]" by simp
  from stale_proposal_acked [OF young_leader_step3 this, of sum_sm "\<lambda>_ :: unit. sim_endpoint ((), Side_A)" "7 :: nat" 42 "\<lambda>_. sim_new ''a'' ''b''" 0]
  show ?thesis by blast
qed

end
