(* ===== verification/Dist_Node.thy ===== *)
theory Dist_Node
  imports Transport
begin

text \<open>
  Node and process identities and the handshake of \<open>crates/cs-distrib\<close> (\<open>lib.rs\<close>, \<open>pid.rs\<close>,
  \<open>handshake.rs\<close>).  A Rust \<open>String\<close> is the list of its UTF-8 bytes; \<open>String::from_utf8\<close> accepts exactly
  the well-formed sequences of the Unicode standard.  Error and quarantine texts are represented by
  the values they print.
\<close>

section \<open>UTF-8\<close>

definition cont_byte :: "byte \<Rightarrow> bool" where
  "cont_byte b \<longleftrightarrow> 0x80 \<le> b \<and> b \<le> 0xBF"

fun utf8 :: "bytes \<Rightarrow> bool" where
  "utf8 [] = True"
| "utf8 (a # r) =
     (if a < 0x80 then utf8 r
      else case r of
        [] \<Rightarrow> False
      | b # r2 \<Rightarrow>
          if 0xC2 \<le> a \<and> a \<le> 0xDF then cont_byte b \<and> utf8 r2
          else case r2 of
            [] \<Rightarrow> False
          | c # r3 \<Rightarrow>
              if a = 0xE0 then 0xA0 \<le> b \<and> b \<le> 0xBF \<and> cont_byte c \<and> utf8 r3
              else if a = 0xED then 0x80 \<le> b \<and> b \<le> 0x9F \<and> cont_byte c \<and> utf8 r3
              else if 0xE1 \<le> a \<and> a \<le> 0xEF then cont_byte b \<and> cont_byte c \<and> utf8 r3
              else case r3 of
                [] \<Rightarrow> False
              | d # r4 \<Rightarrow>
                  if a = 0xF0 then 0x90 \<le> b \<and> b \<le> 0xBF \<and> cont_byte c \<and> cont_byte d \<and> utf8 r4
                  else if a = 0xF4 then 0x80 \<le> b \<and> b \<le> 0x8F \<and> cont_byte c \<and> cont_byte d \<and> utf8 r4
                  else if 0xF1 \<le> a \<and> a \<le> 0xF3 then cont_byte b \<and> cont_byte c \<and> cont_byte d \<and> utf8 r4
                  else False)"

section \<open>Identities and errors\<close>

record node_id =
  nd_name :: bytes
  nd_host :: bytes
  nd_epoch :: nat

definition node_label :: "node_id \<Rightarrow> bytes" where
  "node_label n = nd_name n @ [0x40] @ nd_host n"

datatype decode_fault = Truncated nat | Non_Utf8

datatype distrib_error =
    NoTransport bytes
  | EpochMismatch nat nat
  | Unreachable bytes
  | Decode decode_fault
  | TransportErr transport_error
  | DistNotImplemented

record dist_pid =
  pid_node :: node_id
  pid_local :: nat

section \<open>Codecs\<close>

text \<open>The length is cast to 16 bits.\<close>

definition put_str :: "bytes \<Rightarrow> bytes" where
  "put_str s = be_bytes 2 (length s) @ s"

definition pid_encode :: "dist_pid \<Rightarrow> bytes" where
  "pid_encode p =
     put_str (nd_name (pid_node p)) @ put_str (nd_host (pid_node p)) @
     be_bytes 8 (nd_epoch (pid_node p)) @ be_bytes 8 (pid_local p)"

text \<open>\<open>Cursor::take\<close>: a checked addition, then the bounds check.\<close>

definition cur_take :: "nat \<Rightarrow> (bytes, distrib_error) reader" where
  "cur_take n c =
     (if pos c + n < usize_mod \<and> pos c + n \<le> length (buf c)
      then Ok (take n (drop (pos c) (buf c)), c\<lparr>pos := pos c + n\<rparr>)
      else Err (Decode (Truncated n)))"

definition cur_u16 :: "(nat, distrib_error) reader" where
  "cur_u16 = and_then (cur_take 2) (\<lambda>b. ret (be_value b))"

definition cur_u32 :: "(nat, distrib_error) reader" where
  "cur_u32 = and_then (cur_take 4) (\<lambda>b. ret (be_value b))"

definition cur_u64 :: "(nat, distrib_error) reader" where
  "cur_u64 = and_then (cur_take 8) (\<lambda>b. ret (be_value b))"

definition cur_str :: "(bytes, distrib_error) reader" where
  "cur_str = and_then cur_u16 (\<lambda>n. and_then (cur_take n) (\<lambda>b. if utf8 b then ret b else raise (Decode Non_Utf8)))"

definition get_pid :: "(dist_pid, distrib_error) reader" where
  "get_pid =
     and_then cur_str (\<lambda>name. and_then cur_str (\<lambda>host. and_then cur_u64 (\<lambda>epoch. and_then cur_u64 (\<lambda>local.
       ret \<lparr>pid_node = \<lparr>nd_name = name, nd_host = host, nd_epoch = epoch\<rparr>, pid_local = local\<rparr>))))"

text \<open>\<open>DistPid::decode\<close> also returns the number of bytes consumed.\<close>

definition pid_decode :: "bytes \<Rightarrow> (dist_pid \<times> nat, distrib_error) outcome" where
  "pid_decode bs =
     (case get_pid \<lparr>buf = bs, pos = 0\<rparr> of
        Ok (p, c) \<Rightarrow> Ok (p, pos c) | Err e \<Rightarrow> Err e | Panic \<Rightarrow> Panic)"

section \<open>The handshake\<close>

abbreviation HANDSHAKE_VERSION :: nat where
  "HANDSHAKE_VERSION \<equiv> 1"

record hello =
  h_version :: nat
  h_node :: node_id
  h_atom_cache :: nat
  h_token :: nat

definition hello_new :: "node_id \<Rightarrow> nat \<Rightarrow> hello" where
  "hello_new n tok = \<lparr>h_version = HANDSHAKE_VERSION, h_node = n, h_atom_cache = 0, h_token = tok\<rparr>"

definition hello_encode :: "hello \<Rightarrow> bytes" where
  "hello_encode h =
     be_bytes 2 (h_version h) @ put_str (nd_name (h_node h)) @ put_str (nd_host (h_node h)) @
     be_bytes 8 (nd_epoch (h_node h)) @ be_bytes 4 (h_atom_cache h) @ be_bytes 8 (h_token h)"

definition get_hello :: "(hello, distrib_error) reader" where
  "get_hello =
     and_then cur_u16 (\<lambda>version. and_then cur_str (\<lambda>name. and_then cur_str (\<lambda>host. and_then cur_u64 (\<lambda>epoch.
       and_then cur_u32 (\<lambda>atoms. and_then cur_u64 (\<lambda>tok.
         ret \<lparr>h_version = version, h_node = \<lparr>nd_name = name, nd_host = host, nd_epoch = epoch\<rparr>,
              h_atom_cache = atoms, h_token = tok\<rparr>))))))"

definition hello_decode :: "bytes \<Rightarrow> (hello, distrib_error) outcome" where
  "hello_decode bs =
     (case get_hello \<lparr>buf = bs, pos = 0\<rparr> of Ok (h, c) \<Rightarrow> Ok h | Err e \<Rightarrow> Err e | Panic \<Rightarrow> Panic)"

datatype quarantine_reason = Version_Mismatch nat | Own_Identity bytes | Stale_Epoch bytes nat nat

datatype handshake_outcome = Accepted node_id nat nat | Quarantine quarantine_reason

definition evaluate_hello :: "node_id \<Rightarrow> hello \<Rightarrow> nat \<Rightarrow> nat option \<Rightarrow> handshake_outcome" where
  "evaluate_hello me h local_atoms known =
     (if h_version h \<noteq> HANDSHAKE_VERSION then Quarantine (Version_Mismatch (h_version h))
      else if nd_name (h_node h) = nd_name me \<and> nd_host (h_node h) = nd_host me
      then Quarantine (Own_Identity (node_label me))
      else case known of
             Some e \<Rightarrow>
               if nd_epoch (h_node h) < e
               then Quarantine (Stale_Epoch (node_label (h_node h)) e (nd_epoch (h_node h)))
               else Accepted (h_node h) (h_token h) (min local_atoms (h_atom_cache h))
           | None \<Rightarrow> Accepted (h_node h) (h_token h) (min local_atoms (h_atom_cache h)))"

section \<open>Values that fit the wire\<close>

abbreviation fits_bytes :: "nat \<Rightarrow> nat \<Rightarrow> bool" where
  "fits_bytes k v \<equiv> v < 256 ^ k"

definition str_ok :: "bytes \<Rightarrow> bool" where
  "str_ok s \<longleftrightarrow> length s < 65536 \<and> utf8 s"

definition pid_ok :: "dist_pid \<Rightarrow> bool" where
  "pid_ok p \<longleftrightarrow> str_ok (nd_name (pid_node p)) \<and> str_ok (nd_host (pid_node p)) \<and>
     fits_bytes 8 (nd_epoch (pid_node p)) \<and> fits_bytes 8 (pid_local p)"

definition hello_ok :: "hello \<Rightarrow> bool" where
  "hello_ok h \<longleftrightarrow> fits_bytes 2 (h_version h) \<and> str_ok (nd_name (h_node h)) \<and> str_ok (nd_host (h_node h)) \<and>
     fits_bytes 8 (nd_epoch (h_node h)) \<and> fits_bytes 4 (h_atom_cache h) \<and> fits_bytes 8 (h_token h)"

section \<open>The codecs keep their contract\<close>

lemma codes_cur_take:
  assumes "length bs = n"
  shows "codes (cur_take n) bs bs"
proof (rule codesI)
  fix pre t :: bytes
  assume t: "strict_prefix t bs" and "length (pre @ t) < 2 ^ 63"
  have "length t < n" using prefix_length_less [OF t] assms by simp
  then show "\<exists>e. cur_take n \<lparr>buf = pre @ t, pos = length pre\<rparr> = Err e" by (simp add: cur_take_def)
qed (use assms in \<open>simp add: cur_take_def\<close>)

lemma codes_uint:
  assumes "fits_bytes k v"
  shows "codes (and_then (cur_take k) (\<lambda>b. ret (be_value b))) (be_bytes k v) v"
  using codes_map [OF codes_cur_take [of "be_bytes k v" k], of be_value] assms by simp

interpretation u16_field: wire "be_bytes 2" cur_u16 "fits_bytes 2"
  unfolding cur_u16_def by unfold_locales (rule codes_uint)

interpretation u32_field: wire "be_bytes 4" cur_u32 "fits_bytes 4"
  unfolding cur_u32_def by unfold_locales (rule codes_uint)

interpretation u64_field: wire "be_bytes 8" cur_u64 "fits_bytes 8"
  unfolding cur_u64_def by unfold_locales (rule codes_uint)

interpretation str_field: wire put_str cur_str str_ok
proof
  fix s assume s: "str_ok s"
  then have "codes (and_then (cur_take (length s)) (\<lambda>b. if utf8 b then ret b else raise (Decode Non_Utf8))) (s @ []) s"
    by (intro codes_bind [OF codes_cur_take]) (auto simp: str_ok_def)
  then show "codes cur_str (put_str s) s"
    unfolding cur_str_def put_str_def using s by (intro u16_field.field_coded) (auto simp: str_ok_def)
qed

lemmas dist_codec = codes_done u16_field.field_coded u32_field.field_coded u64_field.field_coded u64_field.last_coded
  str_field.field_coded

interpretation pid_codec: wire pid_encode get_pid pid_ok
  by unfold_locales (auto simp: pid_encode_def get_pid_def pid_ok_def intro!: dist_codec)

interpretation hello_codec: wire hello_encode get_hello hello_ok
  by unfold_locales (auto simp: hello_encode_def get_hello_def hello_ok_def intro!: dist_codec)

lemma tame_cur_take [intro, simp]: "tame (cur_take n)"
  by (simp add: tame_def cur_take_def)

lemma tame_pid: "tame get_pid"
  by (auto simp: get_pid_def cur_str_def cur_u16_def cur_u64_def intro!: tame_bind)

lemma tame_hello: "tame get_hello"
  by (auto simp: get_hello_def cur_str_def cur_u16_def cur_u32_def cur_u64_def intro!: tame_bind)

lemma pid_decode_encode:
  assumes "pid_ok p" "length (pid_encode p @ rest) < 2 ^ 63"
  shows "pid_decode (pid_encode p @ rest) = Ok (p, length (pid_encode p))"
  using pid_codec.get_put [OF assms] by (simp add: pid_decode_def)

lemma pid_decode_no_panic: "pid_decode bs \<noteq> Panic"
  using tame_not_Panic [OF tame_pid, of "\<lparr>buf = bs, pos = 0\<rparr>"] by (auto simp: pid_decode_def split: outcome.splits)

lemma pid_decode_bound: "pid_decode bs = Ok (p, k) \<Longrightarrow> k \<le> length bs"
  using tame_Ok [OF tame_pid, of "\<lparr>buf = bs, pos = 0\<rparr>"] by (fastforce simp: pid_decode_def split: outcome.splits)

section \<open>Labels\<close>

lemma split_at_first: "x \<notin> set a \<Longrightarrow> x \<notin> set b \<Longrightarrow> a @ x # c = b @ x # d \<Longrightarrow> a = b \<and> c = d"
proof (induction a arbitrary: b)
  case Nil
  then show ?case by (cases b) auto
next
  case (Cons y a)
  then show ?case by (cases b) auto
qed

lemma node_label_inj:
  assumes "node_label m = node_label n" "0x40 \<notin> set (nd_name m)" "0x40 \<notin> set (nd_name n)"
  shows "nd_name m = nd_name n \<and> nd_host m = nd_host n"
  by (rule split_at_first [OF assms(2,3)]) (use assms(1) in \<open>simp add: node_label_def\<close>)

section \<open>Claims\<close>

text \<open>
  C38: the handshake accepts exactly the live peers.  A hello that crossed the wire is accepted
  if and only if it speaks this protocol version, does not claim the local identity and is not older than the newest
  known incarnation of the peer; what is accepted is the sender's own identity and token, with the smaller of
  the two atom-cache sizes; and no byte string makes the decoder panic.
\<close>

theorem handshake_decision:
  assumes "hello_ok h" "length (hello_encode h) < 2 ^ 63"
  shows "hello_decode (hello_encode h) = Ok h \<and>
    ((\<exists>p t a. evaluate_hello me h atoms known = Accepted p t a) \<longleftrightarrow>
       h_version h = HANDSHAKE_VERSION \<and> (nd_name (h_node h), nd_host (h_node h)) \<noteq> (nd_name me, nd_host me) \<and>
       (case known of Some e \<Rightarrow> e \<le> nd_epoch (h_node h) | None \<Rightarrow> True)) \<and>
    {(p, t, a). evaluate_hello me h atoms known = Accepted p t a} \<subseteq> {(h_node h, h_token h, min atoms (h_atom_cache h))} \<and>
    hello_decode bs \<noteq> Panic"
proof (intro conjI)
  show "hello_decode (hello_encode h) = Ok h"
    using hello_codec.get_put [OF assms(1), of "[]"] assms(2) by (simp add: hello_decode_def)
  show "hello_decode bs \<noteq> Panic"
    using tame_not_Panic [OF tame_hello, of "\<lparr>buf = bs, pos = 0\<rparr>"] by (auto simp: hello_decode_def split: outcome.splits)
qed (auto simp: evaluate_hello_def split: option.splits if_splits)

theorem handshake_decision_witness:
  "let me = \<lparr>nd_name = [97], nd_host = [104], nd_epoch = 3\<rparr>;
       h = hello_new \<lparr>nd_name = [98], nd_host = [104], nd_epoch = 4\<rparr> 77
   in hello_decode (hello_encode h) = Ok h \<and> (\<exists>p t a. evaluate_hello me h 9 (Some 4) = Accepted p t a) \<and>
      (\<nexists>p t a. evaluate_hello me h 9 (Some 5) = Accepted p t a)"
proof -
  let ?h = "hello_new \<lparr>nd_name = [98], nd_host = [104], nd_epoch = 4\<rparr> 77"
  let ?me = "\<lparr>nd_name = [97], nd_host = [104], nd_epoch = 3\<rparr>"
  have h: "hello_ok ?h" "length (hello_encode ?h) < 2 ^ 63"
    by (simp_all add: hello_ok_def hello_new_def str_ok_def hello_encode_def put_str_def word_less_nat_alt)
  show ?thesis
    using handshake_decision [OF h, of ?me 9 "Some 4"] handshake_decision [OF h, of ?me 9 "Some 5"]
    by (simp add: Let_def hello_new_def)
qed

text \<open>
  Labels do not identify nodes.  A node name may contain \<open>@\<close>: the nodes \<open>a@b\<close> on host \<open>c\<close> and \<open>a\<close> on host
  \<open>b@c\<close> have the same label, under which the router keeps its peers.
\<close>

theorem node_label_collides:
  "\<exists>m n. str_ok (nd_name m) \<and> str_ok (nd_host m) \<and> str_ok (nd_name n) \<and> str_ok (nd_host n) \<and>
     nd_name m \<noteq> nd_name n \<and> node_label m = node_label n"
  by (rule exI [of _ "\<lparr>nd_name = [97, 64, 98], nd_host = [99], nd_epoch = 0\<rparr>"],
      rule exI [of _ "\<lparr>nd_name = [97], nd_host = [98, 64, 99], nd_epoch = 0\<rparr>"])
    (simp add: str_ok_def node_label_def word_less_nat_alt)

end
