(* ===== verification/Dist_Router.thy ===== *)
theory Dist_Router
  imports Dist_Node
begin

text \<open>
  The message router of \<open>crates/cs-distrib/src/router.rs\<close>.  The transports are a parameter \<open>T\<close> over the
  state \<open>'w\<close> they share, as in the drivers.  A \<open>HashMap\<close> is an association list with distinct keys whose
  order stands for the iteration order; the lemmas hold for every order.  An operation is
  \<open>None\<close> only where a transport never stops returning frames.  The condition variable of
  \<open>poll_channel_wait\<close> is at the end.
\<close>

section \<open>State\<close>

datatype down_reason = NoConnection

record down_notice =
  dn_watcher :: dist_pid
  dn_monitored :: dist_pid
  dn_reason :: down_reason

record mon =
  mon_watcher :: dist_pid
  mon_target :: dist_pid

type_synonym letter = "dist_pid \<times> bytes"

record 'h router =
  rt_node :: node_id
  rt_peers :: "(bytes \<times> node_id \<times> 'h) list"
  rt_inbox :: "letter list"
  rt_chan :: "nat \<Rightarrow> letter list"
  rt_monitors :: "mon list"
  rt_down :: "down_notice list"

definition router_new :: "node_id \<Rightarrow> 'h router" where
  "router_new n = \<lparr>rt_node = n, rt_peers = [], rt_inbox = [], rt_chan = (\<lambda>_. []), rt_monitors = [], rt_down = []\<rparr>"

definition shard_channels :: "nat list" where
  "shard_channels = [1, 3, 4, 5]"

definition channel_of :: "nat \<Rightarrow> channel" where
  "channel_of ch = channel_all ! (ch mod length channel_all)"

definition peer_count :: "'h router \<Rightarrow> nat" where
  "peer_count R = length (rt_peers R)"

definition peer_labels :: "'h router \<Rightarrow> bytes list" where
  "peer_labels R = map fst (rt_peers R)"

section \<open>Operations\<close>

text \<open>\<open>HashMap::insert\<close>\<close>

fun hm_insert :: "'k \<Rightarrow> 'v \<Rightarrow> ('k \<times> 'v) list \<Rightarrow> ('k \<times> 'v) list" where
  "hm_insert k v [] = [(k, v)]"
| "hm_insert k v (x # xs) = (if fst x = k then (k, v) # xs else x # hm_insert k v xs)"

definition rt_add_peer :: "('h \<Rightarrow> 'w transport) \<Rightarrow> node_id \<Rightarrow> 'h \<Rightarrow> 'h router \<Rightarrow> 'w \<Rightarrow> 'h router \<times> 'w" where
  "rt_add_peer T n h R w =
     (R\<lparr>rt_peers := hm_insert (node_label n) (n, h) (rt_peers R)\<rparr>, tr_set_waker (T h) w)"

definition deliver_local :: "letter \<Rightarrow> 'h router \<Rightarrow> 'h router" where
  "deliver_local m R = R\<lparr>rt_inbox := rt_inbox R @ [m]\<rparr>"

definition deliver_local_ch :: "nat \<Rightarrow> letter \<Rightarrow> 'h router \<Rightarrow> 'h router" where
  "deliver_local_ch ch m R = R\<lparr>rt_chan := (rt_chan R)(ch mod 6 := rt_chan R (ch mod 6) @ [m])\<rparr>"

text \<open>The remote half of \<open>send\<close> and \<open>send_ch\<close>, which differ in the channel.\<close>

definition send_remote :: "('h \<Rightarrow> 'w transport) \<Rightarrow> channel \<Rightarrow> dist_pid \<Rightarrow> bytes \<Rightarrow> 'h router \<Rightarrow> 'w \<Rightarrow>
    (unit, distrib_error) outcome \<times> 'w" where
  "send_remote T c target payload R w =
     (case map_of (rt_peers R) (node_label (pid_node target)) of
        None \<Rightarrow> (Err (NoTransport (node_label (pid_node target))), w)
      | Some (n, h) \<Rightarrow>
          if nd_epoch n \<noteq> nd_epoch (pid_node target)
          then (Err (EpochMismatch (nd_epoch n) (nd_epoch (pid_node target))), w)
          else (case tr_send (T h) c (pid_encode target @ payload) w of
                  (Ok _, w') \<Rightarrow> (Ok (), w')
                | (Err e, w') \<Rightarrow> (Err (TransportErr e), w')
                | (Panic, w') \<Rightarrow> (Panic, w')))"

definition rt_send :: "('h \<Rightarrow> 'w transport) \<Rightarrow> dist_pid \<Rightarrow> bytes \<Rightarrow> 'h router \<Rightarrow> 'w \<Rightarrow>
    (unit, distrib_error) outcome \<times> 'h router \<times> 'w" where
  "rt_send T target payload R w =
     (if pid_node target = rt_node R then (Ok (), deliver_local (target, payload) R, w)
      else let (r, w') = send_remote T Messages target payload R w in (r, R, w'))"

definition rt_send_ch :: "('h \<Rightarrow> 'w transport) \<Rightarrow> dist_pid \<Rightarrow> bytes \<Rightarrow> nat \<Rightarrow> 'h router \<Rightarrow> 'w \<Rightarrow>
    (unit, distrib_error) outcome \<times> 'h router \<times> 'w" where
  "rt_send_ch T target payload ch R w =
     (if pid_node target = rt_node R then (Ok (), deliver_local_ch ch (target, payload) R, w)
      else let (r, w') = send_remote T (channel_of ch) target payload R w in (r, R, w'))"

text \<open>The receive loop on one peer: decoded letters, or the error that aborts the poll.\<close>

partial_function (option) rt_drain :: "'w transport \<Rightarrow> channel \<Rightarrow> 'w \<Rightarrow> ((letter list, distrib_error) outcome \<times> 'w) option" where
  "rt_drain T c w =
     (case tr_recv T c w of
        (Ok (Some frame), w') \<Rightarrow>
          (case pid_decode frame of
             Ok (p, k) \<Rightarrow> Option.bind (rt_drain T c w') (\<lambda>(r, w'').
               Some (case r of Ok ms \<Rightarrow> Ok ((p, drop k frame) # ms) | Err e \<Rightarrow> Err e | Panic \<Rightarrow> Panic, w''))
           | Err e \<Rightarrow> Some (Err e, w')
           | Panic \<Rightarrow> Some (Panic, w'))
      | (Ok None, w') \<Rightarrow> Some (Ok [], w')
      | (Err e, w') \<Rightarrow> Some (if e = PeerClosed then Ok [] else Err (TransportErr e), w')
      | (Panic, w') \<Rightarrow> Some (Panic, w'))"

fun rt_drain_peers :: "('h \<Rightarrow> 'w transport) \<Rightarrow> channel \<Rightarrow> (bytes \<times> node_id \<times> 'h) list \<Rightarrow> 'w \<Rightarrow>
    ((letter list, distrib_error) outcome \<times> 'w) option" where
  "rt_drain_peers T c [] w = Some (Ok [], w)"
| "rt_drain_peers T c ((l, n, h) # ps) w =
     Option.bind (rt_drain (T h) c w) (\<lambda>(r, w1).
       case r of
         Ok ms \<Rightarrow> Option.bind (rt_drain_peers T c ps w1) (\<lambda>(r2, w2).
           Some (case r2 of Ok ms2 \<Rightarrow> Ok (ms @ ms2) | Err e \<Rightarrow> Err e | Panic \<Rightarrow> Panic, w2))
       | Err e \<Rightarrow> Some (Err e, w1)
       | Panic \<Rightarrow> Some (Panic, w1))"

fun rt_drain_shards :: "('h \<Rightarrow> 'w transport) \<Rightarrow> nat list \<Rightarrow> (bytes \<times> node_id \<times> 'h) list \<Rightarrow> 'w \<Rightarrow>
    (((nat \<times> letter) list, distrib_error) outcome \<times> 'w) option" where
  "rt_drain_shards T [] ps w = Some (Ok [], w)"
| "rt_drain_shards T (ch # chs) ps w =
     Option.bind (rt_drain_peers T (channel_of ch) ps w) (\<lambda>(r, w1).
       case r of
         Ok ms \<Rightarrow> Option.bind (rt_drain_shards T chs ps w1) (\<lambda>(r2, w2).
           Some (case r2 of Ok ms2 \<Rightarrow> Ok (map (Pair ch) ms @ ms2) | Err e \<Rightarrow> Err e | Panic \<Rightarrow> Panic, w2))
       | Err e \<Rightarrow> Some (Err e, w1)
       | Panic \<Rightarrow> Some (Panic, w1))"

definition rt_poll :: "('h \<Rightarrow> 'w transport) \<Rightarrow> 'h router \<Rightarrow> 'w \<Rightarrow> ((nat, distrib_error) outcome \<times> 'h router \<times> 'w) option" where
  "rt_poll T R w =
     Option.bind (rt_drain_peers T Messages (rt_peers R) w) (\<lambda>(r, w1).
       case r of
         Ok ms \<Rightarrow> Option.bind (rt_drain_shards T shard_channels (rt_peers R) w1) (\<lambda>(r2, w2).
           Some (case r2 of
                   Ok cms \<Rightarrow> (Ok (length ms + length cms), fold (\<lambda>(ch, m). deliver_local_ch ch m) cms (fold deliver_local ms R), w2)
                 | Err e \<Rightarrow> (Err e, R, w2)
                 | Panic \<Rightarrow> (Panic, R, w2)))
       | Err e \<Rightarrow> Some (Err e, R, w1)
       | Panic \<Rightarrow> Some (Panic, R, w1))"

definition rt_poll_channel :: "('h \<Rightarrow> 'w transport) \<Rightarrow> nat \<Rightarrow> 'h router \<Rightarrow> 'w \<Rightarrow> ((nat, distrib_error) outcome \<times> 'h router \<times> 'w) option" where
  "rt_poll_channel T ch R w =
     Option.bind (rt_drain_peers T (channel_of ch) (rt_peers R) w) (\<lambda>(r, w1).
       Some (case r of
               Ok ms \<Rightarrow> (Ok (length ms), fold (deliver_local_ch ch) ms R, w1)
             | Err e \<Rightarrow> (Err e, R, w1)
             | Panic \<Rightarrow> (Panic, R, w1)))"

definition recv_local :: "'h router \<Rightarrow> letter option \<times> 'h router" where
  "recv_local R = (case rt_inbox R of [] \<Rightarrow> (None, R) | m # ms \<Rightarrow> (Some m, R\<lparr>rt_inbox := ms\<rparr>))"

definition recv_local_channel :: "nat \<Rightarrow> 'h router \<Rightarrow> letter option \<times> 'h router" where
  "recv_local_channel ch R =
     (case rt_chan R (ch mod 6) of
        [] \<Rightarrow> (None, R)
      | m # ms \<Rightarrow> (Some m, R\<lparr>rt_chan := (rt_chan R)(ch mod 6 := ms)\<rparr>))"

definition rt_monitor :: "dist_pid \<Rightarrow> dist_pid \<Rightarrow> 'h router \<Rightarrow> 'h router" where
  "rt_monitor watcher target R = R\<lparr>rt_monitors := rt_monitors R @ [\<lparr>mon_watcher = watcher, mon_target = target\<rparr>]\<rparr>"

definition detect_disconnects :: "('h \<Rightarrow> 'w transport) \<Rightarrow> 'h router \<Rightarrow> 'w \<Rightarrow> nat \<times> 'h router" where
  "detect_disconnects T R w =
     (let down_nodes = map fst (filter (\<lambda>(l, n, h). tr_is_closed (T h) w) (rt_peers R))
      in if down_nodes = [] then (0, R)
         else let hit = (\<lambda>m. node_label (pid_node (mon_target m)) \<in> set down_nodes);
                  fired = filter hit (rt_monitors R)
              in (length fired,
                  R\<lparr>rt_peers := filter (\<lambda>(l, _). l \<notin> set down_nodes) (rt_peers R),
                    rt_monitors := filter (\<lambda>m. \<not> hit m) (rt_monitors R),
                    rt_down := rt_down R @
                      map (\<lambda>m. \<lparr>dn_watcher = mon_watcher m, dn_monitored = mon_target m, dn_reason = NoConnection\<rparr>) fired\<rparr>))"

definition recv_down :: "'h router \<Rightarrow> down_notice option \<times> 'h router" where
  "recv_down R = (case rt_down R of [] \<Rightarrow> (None, R) | d # ds \<Rightarrow> (Some d, R\<lparr>rt_down := ds\<rparr>))"

definition disconnect_peer :: "('h \<Rightarrow> 'w transport) \<Rightarrow> bytes \<Rightarrow> 'h router \<Rightarrow> 'w \<Rightarrow> bool \<times> 'w" where
  "disconnect_peer T l R w =
     (case map_of (rt_peers R) l of Some (n, h) \<Rightarrow> (True, tr_close (T h) w) | None \<Rightarrow> (False, w))"

section \<open>Receiving\<close>

definition letter_ok :: "letter \<Rightarrow> bool" where
  "letter_ok m \<longleftrightarrow> pid_ok (fst m) \<and> length (pid_encode (fst m) @ snd m) < 2 ^ 63"

abbreviation letter_frame :: "letter \<Rightarrow> bytes" where
  "letter_frame m \<equiv> pid_encode (fst m) @ snd m"

lemma decode_letter: "letter_ok m \<Longrightarrow> pid_decode (letter_frame m) = Ok (fst m, length (pid_encode (fst m)))"
  by (simp add: letter_ok_def pid_decode_encode)

context mailboxes
begin

lemma rt_drain_letters:
  assumes "pending h c w = map letter_frame ms" "list_all letter_ok ms"
  shows "\<exists>w'. rt_drain (T h) c w = Some (Ok ms, w') \<and>
     (\<forall>h' c'. pending h' c' w' = (if h' = h \<and> c' = c then [] else pending h' c' w))"
  using assms
proof (induction ms arbitrary: w)
  case Nil
  then show ?case using recv_none [of h c w] by (subst rt_drain.simps) auto
next
  case (Cons m ms)
  obtain w' where w': "tr_recv (T h) c w = (Ok (Some (letter_frame m)), w')"
    "\<forall>h' c'. pending h' c' w' = (if h' = h \<and> c' = c then map letter_frame ms else pending h' c' w)"
    using recv_some [of h c w "letter_frame m" "map letter_frame ms"] Cons.prems(1) by auto
  have "pending h c w' = map letter_frame ms" using w'(2) by simp
  from Cons.IH [OF this] Cons.prems(2) obtain w'' where w'': "rt_drain (T h) c w' = Some (Ok ms, w'')"
    "\<forall>h' c'. pending h' c' w'' = (if h' = h \<and> c' = c then [] else pending h' c' w')" by auto
  have "rt_drain (T h) c w = Some (Ok (m # ms), w'')"
    using w'(1) w''(1) Cons.prems(2) by (subst rt_drain.simps) (simp add: decode_letter)
  then show ?case using w'(2) w''(2) by simp
qed

lemma rt_drain_peers_letters:
  assumes "distinct (map (snd \<circ> snd) ps)"
    and "\<And>l n h. (l, n, h) \<in> set ps \<Longrightarrow> pending h c w = map letter_frame (ms h) \<and> list_all letter_ok (ms h)"
  shows "\<exists>w'. rt_drain_peers T c ps w = Some (Ok (concat (map (\<lambda>(l, n, h). ms h) ps)), w') \<and>
     (\<forall>h c'. pending h c' w' = (if h \<in> (snd \<circ> snd) ` set ps \<and> c' = c then [] else pending h c' w))"
  using assms
proof (induction ps arbitrary: w)
  case (Cons x ps)
  obtain l n h where x: "x = (l, n, h)" by (cases x)
  obtain w1 where w1: "rt_drain (T h) c w = Some (Ok (ms h), w1)"
    "\<And>h' c'. pending h' c' w1 = (if h' = h \<and> c' = c then [] else pending h' c' w)"
    using rt_drain_letters [of h c w "ms h"] Cons.prems(2) [of l n h] x by auto
  have "pending h' c w1 = map letter_frame (ms h') \<and> list_all letter_ok (ms h')" if "(l', n', h') \<in> set ps" for l' n' h'
    using Cons.prems(1) Cons.prems(2) [of l' n' h'] that x by (force simp: w1(2))
  then obtain w2 where w2: "rt_drain_peers T c ps w1 = Some (Ok (concat (map (\<lambda>(l, n, h). ms h) ps)), w2)"
    "\<And>h c'. pending h c' w2 = (if h \<in> (snd \<circ> snd) ` set ps \<and> c' = c then [] else pending h c' w1)"
    using Cons.IH [of w1] Cons.prems(1) by auto
  show ?case using x w1(1) w2(1) by (auto simp: w1(2) w2(2))
qed simp

lemma rt_poll_channel_letters:
  assumes "distinct (map (snd \<circ> snd) (rt_peers R))"
    and "\<And>l n h. (l, n, h) \<in> set (rt_peers R) \<Longrightarrow> pending h (channel_of ch) w = map letter_frame (ms h) \<and> list_all letter_ok (ms h)"
  shows "\<exists>w'. rt_poll_channel T ch R w =
     (let ls = concat (map (\<lambda>(l, n, h). ms h) (rt_peers R)) in Some (Ok (length ls), fold (deliver_local_ch ch) ls R, w'))"
proof -
  obtain w' where "rt_drain_peers T (channel_of ch) (rt_peers R) w = Some (Ok (concat (map (\<lambda>(l, n, h). ms h) (rt_peers R))), w')"
    using rt_drain_peers_letters [OF assms(1), of "channel_of ch" w ms] assms(2) by blast
  then show ?thesis by (simp add: rt_poll_channel_def Let_def)
qed

lemma rt_drain_shards_letters:
  assumes "distinct (map (snd \<circ> snd) ps)" "distinct (map channel_of chs)"
    and "\<And>ch l n h. ch \<in> set chs \<Longrightarrow> (l, n, h) \<in> set ps \<Longrightarrow>
      pending h (channel_of ch) w = map letter_frame (ms ch h) \<and> list_all letter_ok (ms ch h)"
  shows "\<exists>w'. rt_drain_shards T chs ps w =
     Some (Ok (concat (map (\<lambda>ch. map (Pair ch) (concat (map (\<lambda>(l, n, h). ms ch h) ps))) chs)), w')"
  using assms(2,3)
proof (induction chs arbitrary: w)
  case (Cons ch chs)
  obtain w1 where w1: "rt_drain_peers T (channel_of ch) ps w = Some (Ok (concat (map (\<lambda>(l, n, h). ms ch h) ps)), w1)"
    "\<And>h c'. pending h c' w1 = (if h \<in> (snd \<circ> snd) ` set ps \<and> c' = channel_of ch then [] else pending h c' w)"
    using rt_drain_peers_letters [OF assms(1), of "channel_of ch" w "ms ch"] Cons.prems(2) [of ch] by auto
  have "pending h (channel_of k) w1 = map letter_frame (ms k h) \<and> list_all letter_ok (ms k h)"
    if "k \<in> set chs" "(l, n, h) \<in> set ps" for k l n h
  proof -
    have "channel_of k \<noteq> channel_of ch" using Cons.prems(1) that(1) by (metis distinct.simps(2) image_eqI list.set_map list.simps(9))
    then show ?thesis using Cons.prems(2) [of k l n h] that by (simp add: w1(2))
  qed
  then obtain w2 where "rt_drain_shards T chs ps w1 =
      Some (Ok (concat (map (\<lambda>ch. map (Pair ch) (concat (map (\<lambda>(l, n, h). ms ch h) ps))) chs)), w2)"
    using Cons.IH [of w1] Cons.prems(1) by auto
  then show ?case using w1(1) by simp
qed simp

lemma distinct_shards: "distinct (map channel_of shard_channels)" "Messages \<notin> channel_of ` set shard_channels"
  by (simp_all add: shard_channels_def channel_of_def channel_all_def)

text \<open>A poll of well-formed letters empties the peers' queues into the right inboxes.\<close>

lemma rt_poll_letters:
  assumes "distinct (map (snd \<circ> snd) (rt_peers R))"
    and m: "\<And>l n h. (l, n, h) \<in> set (rt_peers R) \<Longrightarrow> pending h Messages w = map letter_frame (ms h) \<and> list_all letter_ok (ms h)"
    and c: "\<And>ch l n h. ch \<in> set shard_channels \<Longrightarrow> (l, n, h) \<in> set (rt_peers R) \<Longrightarrow>
      pending h (channel_of ch) w = map letter_frame (cms ch h) \<and> list_all letter_ok (cms ch h)"
  shows "\<exists>w'. rt_poll T R w =
     (let ls = concat (map (\<lambda>(l, n, h). ms h) (rt_peers R));
          cls = concat (map (\<lambda>ch. map (Pair ch) (concat (map (\<lambda>(l, n, h). cms ch h) (rt_peers R)))) shard_channels)
      in Some (Ok (length ls + length cls), fold (\<lambda>(ch, m). deliver_local_ch ch m) cls (fold deliver_local ls R), w'))"
proof -
  obtain w1 where w1: "rt_drain_peers T Messages (rt_peers R) w = Some (Ok (concat (map (\<lambda>(l, n, h). ms h) (rt_peers R))), w1)"
    "\<And>h c'. pending h c' w1 = (if h \<in> (snd \<circ> snd) ` set (rt_peers R) \<and> c' = Messages then [] else pending h c' w)"
    using rt_drain_peers_letters [OF assms(1), of Messages w ms] m by blast
  have "pending h (channel_of k) w1 = map letter_frame (cms k h) \<and> list_all letter_ok (cms k h)"
    if "k \<in> set shard_channels" "(l, n, h) \<in> set (rt_peers R)" for k l n h
  proof -
    have "channel_of k \<noteq> Messages" using distinct_shards(2) that(1) by (metis image_eqI)
    then show ?thesis using c [OF that] by (simp add: w1(2))
  qed
  then obtain w2 where "rt_drain_shards T shard_channels (rt_peers R) w1 =
      Some (Ok (concat (map (\<lambda>ch. map (Pair ch) (concat (map (\<lambda>(l, n, h). cms ch h) (rt_peers R)))) shard_channels)), w2)"
    using rt_drain_shards_letters [OF assms(1) distinct_shards(1), of w1 cms] by blast
  then show ?thesis using w1(1) by (simp add: rt_poll_def Let_def)
qed

end

lemma fold_deliver_local: "fold deliver_local ms R = R\<lparr>rt_inbox := rt_inbox R @ ms\<rparr>"
  by (induction ms arbitrary: R) (simp_all add: deliver_local_def)

lemma fold_deliver_ch:
  "fold (deliver_local_ch ch) ms R = R\<lparr>rt_chan := (rt_chan R)(ch mod 6 := rt_chan R (ch mod 6) @ ms)\<rparr>"
  by (induction ms arbitrary: R) (simp_all add: deliver_local_ch_def)

section \<open>Waiting for a frame\<close>

text \<open>
  \<open>poll_channel_wait\<close> and the wakers as interleaved steps.  A transport first queues a frame and then calls the waker,
  which bumps the counter and notifies; the poller reads the counter, polls, and sleeps only
  while the counter, read under the lock, is still the one it saw.
\<close>

datatype poller = Polling nat | Polled nat | Sleeping nat | Returned nat

record wait_state =
  ws_queue :: nat
  ws_calls :: nat
  ws_counter :: nat
  ws_poller :: poller

inductive wait_step :: "wait_state \<Rightarrow> wait_state \<Rightarrow> bool" where
  frame_arrives: "wait_step s (s\<lparr>ws_queue := ws_queue s + 1, ws_calls := ws_calls s + 1\<rparr>)"
| waker_runs: "0 < ws_calls s \<Longrightarrow>
    wait_step s (s\<lparr>ws_calls := ws_calls s - 1, ws_counter := ws_counter s + 1,
      ws_poller := (case ws_poller s of Sleeping _ \<Rightarrow> Polling (ws_counter s + 1) | p \<Rightarrow> p)\<rparr>)"
| other_drains: "k \<le> ws_queue s \<Longrightarrow> wait_step s (s\<lparr>ws_queue := ws_queue s - k\<rparr>)"
| poll_some: "ws_poller s = Polling n \<Longrightarrow> 0 < ws_queue s \<Longrightarrow>
    wait_step s (s\<lparr>ws_queue := 0, ws_poller := Returned (ws_queue s)\<rparr>)"
| poll_none: "ws_poller s = Polling n \<Longrightarrow> ws_queue s = 0 \<Longrightarrow> wait_step s (s\<lparr>ws_poller := Polled n\<rparr>)"
| seen_new: "ws_poller s = Polled n \<Longrightarrow> ws_counter s \<noteq> n \<Longrightarrow> wait_step s (s\<lparr>ws_poller := Polling (ws_counter s)\<rparr>)"
| sleeps: "ws_poller s = Polled n \<Longrightarrow> ws_counter s = n \<Longrightarrow> wait_step s (s\<lparr>ws_poller := Sleeping n\<rparr>)"
| deadline: "ws_poller s = Polled n \<Longrightarrow> ws_counter s = n \<Longrightarrow> wait_step s (s\<lparr>ws_poller := Returned 0\<rparr>)"
| times_out: "ws_poller s = Sleeping n \<Longrightarrow> wait_step s (s\<lparr>ws_poller := Returned 0\<rparr>)"
| spurious: "ws_poller s = Sleeping n \<Longrightarrow> wait_step s (s\<lparr>ws_poller := Polling (ws_counter s)\<rparr>)"

inductive wait_reach :: "nat \<Rightarrow> nat \<Rightarrow> nat \<Rightarrow> wait_state \<Rightarrow> bool" for q c k where
  wait_start: "wait_reach q c k \<lparr>ws_queue = q, ws_calls = c, ws_counter = k, ws_poller = Polling k\<rparr>"
| wait_more: "wait_reach q c k s \<Longrightarrow> wait_step s s' \<Longrightarrow> wait_reach q c k s'"

definition wait_inv :: "wait_state \<Rightarrow> bool" where
  "wait_inv s \<longleftrightarrow>
     (case ws_poller s of
        Polling n \<Rightarrow> n \<le> ws_counter s
      | Polled n \<Rightarrow> n \<le> ws_counter s \<and> (0 < ws_queue s \<longrightarrow> n < ws_counter s + ws_calls s)
      | Sleeping n \<Rightarrow> n = ws_counter s \<and> (0 < ws_queue s \<longrightarrow> 0 < ws_calls s)
      | Returned _ \<Rightarrow> True)"

lemma wait_inv_step: "wait_step s s' \<Longrightarrow> wait_inv s \<Longrightarrow> wait_inv s'"
  by (induction rule: wait_step.induct) (auto simp: wait_inv_def split: poller.splits)

lemma wait_inv_reach: "wait_reach q c k s \<Longrightarrow> wait_inv s"
  by (induction rule: wait_reach.induct) (auto simp: wait_inv_def dest: wait_inv_step)

section \<open>Claims\<close>


text \<open>Two nodes \<open>a@h#1\<close> and \<open>b@h#2\<close> on a fresh link.\<close>

abbreviation node_a :: node_id where
  "node_a \<equiv> \<lparr>nd_name = [97], nd_host = [104], nd_epoch = 1\<rparr>"

abbreviation node_b :: node_id where
  "node_b \<equiv> \<lparr>nd_name = [98], nd_host = [104], nd_epoch = 2\<rparr>"

definition pid_b :: dist_pid where
  "pid_b = \<lparr>pid_node = node_b, pid_local = 9\<rparr>"

definition router_a :: "(unit \<times> side) router" where
  "router_a = (router_new node_a)\<lparr>rt_peers := [(node_label node_b, node_b, ((), Side_A))]\<rparr>"

definition router_b :: "(unit \<times> side) router" where
  "router_b = (router_new node_b)\<lparr>rt_peers := [(node_label node_a, node_a, ((), Side_B))]\<rparr>"

lemma pid_b_ok: "letter_ok (pid_b, [1, 2, 3])"
  by (simp add: letter_ok_def pid_ok_def pid_b_def str_ok_def pid_encode_def put_str_def word_less_nat_alt)

lemma fresh_link: "\<not> sp_closed (sim_new a b)" "sq_deque (sp_qb (sim_new a b)) = (\<lambda>_. [])" "0 < sq_high (sp_qb (sim_new a b)) Messages"
  by (simp_all add: sim_new_def sim_with_config_def sim_queues_new_def sim_hwm.simps default_transport_config_def)


text \<open>
  C37: a stale incarnation is never addressed.  A send to a process of an earlier or later incarnation
  than the connected one is refused with both epochs, an unknown node is refused, and in both cases no transport is touched.
\<close>

theorem stale_epoch_refused:
  assumes "pid_node p \<noteq> rt_node R"
    and "case map_of (rt_peers R) (node_label (pid_node p)) of Some (n, h) \<Rightarrow> nd_epoch n \<noteq> nd_epoch (pid_node p) | None \<Rightarrow> True"
  shows "\<exists>e. e \<in> {NoTransport (node_label (pid_node p))} \<union> (\<lambda>k. EpochMismatch k (nd_epoch (pid_node p))) ` {k. k \<noteq> nd_epoch (pid_node p)} \<and>
    rt_send T p payload R w = (Err e, R, w) \<and> rt_send_ch T p payload ch R w = (Err e, R, w)"
  using assms by (auto simp: rt_send_def rt_send_ch_def send_remote_def split: option.splits)

theorem stale_epoch_refused_witness:
  "\<exists>e. rt_send sim_endpoint (pid_b\<lparr>pid_node := node_b\<lparr>nd_epoch := 1\<rparr>\<rparr>) [7] router_a (\<lambda>_. sim_new ''a'' ''b'') =
     (Err e, router_a, \<lambda>_. sim_new ''a'' ''b'')"
proof -
  let ?p = "pid_b\<lparr>pid_node := node_b\<lparr>nd_epoch := 1\<rparr>\<rparr>"
  have "pid_node ?p \<noteq> rt_node router_a" by (simp add: router_a_def router_new_def)
  moreover have "case map_of (rt_peers router_a) (node_label (pid_node ?p)) of Some (n, h) \<Rightarrow> nd_epoch n \<noteq> nd_epoch (pid_node ?p) | None \<Rightarrow> True"
    by (simp add: router_a_def router_new_def node_label_def)
  ultimately show ?thesis using stale_epoch_refused [of ?p router_a sim_endpoint "[7]" "\<lambda>_. sim_new ''a'' ''b''" 0] by blast
qed



text \<open>
  C39: a malformed frame discards the letters received with it.  A poll that meets an undecodable
  frame returns the error after it has taken the frames in front of it off the transport; their letters reach no inbox.
\<close>

theorem poll_error_loses:
  assumes "letter_ok m" "rt_peers R = [(lab, n, (l, Side_B))]" "sim_queue Side_B Messages (w l) = [letter_frame m, []]"
  shows "\<exists>e w'. rt_poll sim_endpoint R w = Some (Err e, R, w') \<and> sim_pending (l, Side_B) Messages w' = []"
proof -
  let ?T = "sim_endpoint (l, Side_B)"
  have q: "sim_pending (l, Side_B) Messages w = [letter_frame m, []]" using assms(3) by (simp add: sim_pending_def)
  obtain w1 where w1: "tr_recv ?T Messages w = (Ok (Some (letter_frame m)), w1)" "sim_pending (l, Side_B) Messages w1 = [[]]"
    using sim_net.recv_some [OF q] by auto
  obtain w2 where w2: "tr_recv ?T Messages w1 = (Ok (Some []), w2)" "sim_pending (l, Side_B) Messages w2 = []"
    using sim_net.recv_some [OF w1(2)] by auto
  have "pid_decode [] = Err (Decode (Truncated 2))"
    by (simp add: pid_decode_def get_pid_def cur_str_def cur_u16_def cur_take_def and_then_def)
  then have "rt_drain ?T Messages w1 = Some (Err (Decode (Truncated 2)), w2)" using w2(1) by (subst rt_drain.simps) simp
  then have "rt_drain ?T Messages w = Some (Err (Decode (Truncated 2)), w2)"
    using w1(1) by (subst rt_drain.simps) (simp add: decode_letter [OF assms(1)])
  then show ?thesis using assms(2) w2(2) by (simp add: rt_poll_def)
qed

theorem poll_error_loses_witness:
  "let P = set_inbound Side_B ((sp_qb (sim_new ''a'' ''b''))\<lparr>sq_deque := (\<lambda>_. [])(Messages := [letter_frame (pid_b, [1, 2, 3]), []])\<rparr>) (sim_new ''a'' ''b'')
   in \<exists>e w'. rt_poll sim_endpoint router_b (\<lambda>_. P) = Some (Err e, router_b, w') \<and> sim_pending ((), Side_B) Messages w' = []"
  unfolding Let_def
  by (rule poll_error_loses [OF pid_b_ok, where lab = "node_label node_a" and n = node_a]) (simp_all add: router_b_def)



end
