(* ===== verification/Dist_Member.thy ===== *)
theory Dist_Member
  imports Prelude
begin

text \<open>
  Membership, gossip and failure-detector data of \<open>crates/cs-distrib\<close> (\<open>membership.rs\<close>, \<open>gossip.rs\<close>,
  \<open>phi.rs\<close>).  The sources define the data, the defaults and the heartbeat window; the protocol itself and the
  distribution fit are left to later work there, so \<open>phi\<close> is constantly 0.  The floating-point constants
  are integers and are written as such; durations are in milliseconds.
\<close>

section \<open>Membership\<close>

datatype member_state = Joining | WeaklyUp | Up | Leaving | Exiting | Down | Removed | Quarantined

definition counts_for_quorum :: "member_state \<Rightarrow> bool" where
  "counts_for_quorum s \<longleftrightarrow> s = Up"

datatype partition_policy = KeepMajority | StaticQuorum nat | KeepOldest | ManualRecovery | IsolateRegion

record sbr_config =
  sbr_policy :: partition_policy
  stable_after_ms :: nat
  down_all_when_unstable_ms :: nat

definition default_sbr :: sbr_config where
  "default_sbr = \<lparr>sbr_policy = KeepMajority, stable_after_ms = 20000, down_all_when_unstable_ms = 60000\<rparr>"

section \<open>Gossip\<close>

record gossip_config =
  gc_period :: nat
  gc_ping_timeout :: nat
  indirect_fanout :: nat
  suspect_timeout :: nat

definition default_gossip :: gossip_config where
  "default_gossip = \<lparr>gc_period = 1000, gc_ping_timeout = 500, indirect_fanout = 3, suspect_timeout = 6000\<rparr>"

datatype gossip_message =
    Ping nat
  | Ack nat
  | PingReq nat bytes
  | Alive bytes nat
  | Suspect bytes nat
  | Confirm bytes nat

section \<open>The failure detector\<close>

record phi_detector =
  window_size :: nat
  min_stddev_ms :: nat
  acceptable_pause_ms :: nat
  arrivals_ms :: "u64 list"
  last_arrival_ms :: "u64 option"

definition phi_with_window :: "nat \<Rightarrow> phi_detector" where
  "phi_with_window n =
     \<lparr>window_size = n, min_stddev_ms = 100, acceptable_pause_ms = 3000, arrivals_ms = [], last_arrival_ms = None\<rparr>"

definition phi_new :: phi_detector where
  "phi_new = phi_with_window 200"

definition saturating_sub :: "u64 \<Rightarrow> u64 \<Rightarrow> u64" where
  "saturating_sub a b = (if b \<le> a then a - b else 0)"

text \<open>\<open>while arrivals.len() > window_size { pop_front }\<close>\<close>

fun trim :: "nat \<Rightarrow> 'a list \<Rightarrow> 'a list" where
  "trim n xs = (if n < length xs then trim n (tl xs) else xs)"

declare trim.simps [simp del]

definition heartbeat :: "u64 \<Rightarrow> phi_detector \<Rightarrow> phi_detector" where
  "heartbeat now d =
     (let d1 = (case last_arrival_ms d of
                  Some prev \<Rightarrow> d\<lparr>arrivals_ms := trim (window_size d) (arrivals_ms d @ [saturating_sub now prev])\<rparr>
                | None \<Rightarrow> d)
      in d1\<lparr>last_arrival_ms := Some now\<rparr>)"

definition phi :: "u64 \<Rightarrow> phi_detector \<Rightarrow> nat" where
  "phi now d = 0"

definition is_available :: "u64 \<Rightarrow> phi_detector \<Rightarrow> bool" where
  "is_available now d \<longleftrightarrow> phi now d < 8"

definition phi_reset :: "phi_detector \<Rightarrow> phi_detector" where
  "phi_reset d = d\<lparr>arrivals_ms := [], last_arrival_ms := None\<rparr>"

section \<open>The window\<close>

lemma trim_drop: "trim n xs = drop (length xs - n) xs"
proof (induction n xs rule: trim.induct)
  case (1 n xs)
  then show ?case by (subst trim.simps) (cases xs; auto simp: Suc_diff_le not_less)
qed

text \<open>
  After any heartbeats the window holds the gaps between the most recent arrivals, at most
  \<open>window_size\<close> of them; a clock that steps back counts as a gap of 0.
\<close>

fun gaps :: "u64 list \<Rightarrow> u64 list" where
  "gaps (a # b # ts) = saturating_sub b a # gaps (b # ts)"
| "gaps _ = []"

lemma gaps_snoc: "ts \<noteq> [] \<Longrightarrow> gaps (ts @ [t]) = gaps ts @ [saturating_sub t (last ts)]"
  by (induction ts rule: gaps.induct) auto

lemma heartbeats_window:
  "fold heartbeat ts (phi_with_window n) =
     (phi_with_window n)\<lparr>arrivals_ms := drop (length (gaps ts) - n) (gaps ts),
       last_arrival_ms := (if ts = [] then None else Some (last ts))\<rparr>"
proof (induction ts rule: rev_induct)
  case (snoc t ts)
  show ?case
  proof (cases "ts = []")
    case True
    then show ?thesis by (simp add: heartbeat_def phi_with_window_def)
  next
    case False
    have "drop (length (drop (length (gaps ts) - n) (gaps ts) @ [g]) - n) (drop (length (gaps ts) - n) (gaps ts) @ [g])
        = drop (length (gaps ts @ [g]) - n) (gaps ts @ [g])" for g
      by (cases "n \<le> length (gaps ts)") (auto simp: Suc_diff_le)
    then show ?thesis
      using snoc False by (simp add: heartbeat_def trim_drop phi_with_window_def gaps_snoc)
  qed
qed (simp add: phi_with_window_def)

end
