(* ===== verification/Spec2Isabelle.thy ===== *)
theory Spec2Isabelle
  imports Raft_Cluster Codec Epaxos_Claims Driver_Claims Dist_Router Dist_Member
begin

end
